(* ===== verification/Prelude.thy ===== *)
theory Prelude
  imports Main "HOL-Library.Word" "HOL-Library.Monad_Syntax" "HOL-Library.Multiset"
begin

text \<open>
  Shared vocabulary of the development: machine types, the option monad in which
  a kernel panic is \<open>None\<close>, the counted \<open>for\<close> loop of the C sources, shared
  constants, and the list lemmas that the component theories rely on.
\<close>

unbundle bit_operations_syntax

type_synonym u8 = "8 word"
type_synonym u16 = "16 word"
type_synonym u32 = "32 word"
type_synonym u64 = "64 word"

named_theorems loop_rules \<open>rules for the counted loop\<close>
named_theorems codec \<open>encode and decode round trips\<close>

section \<open>Assertions and panics\<close>

text \<open>
  \<open>ASSERT\<close> of \<open>lib/debug.h\<close> halts the machine when its condition is false.  In the
  model a computation that panics, or that touches memory outside an object, is \<open>None\<close>.
\<close>

definition ASSERT :: "bool \<Rightarrow> unit option" where
  "ASSERT b = (if b then Some () else None)"

lemma ASSERT_True [simp]: "ASSERT True = Some ()"
  by (simp add: ASSERT_def)

lemma ASSERT_False [simp]: "ASSERT False = None"
  by (simp add: ASSERT_def)

lemma ASSERT_eq_Some [simp]: "ASSERT b = Some u \<longleftrightarrow> b"
  by (simp add: ASSERT_def)

lemma ASSERT_eq_None [simp]: "ASSERT b = None \<longleftrightarrow> \<not> b"
  by (simp add: ASSERT_def)

lemma ASSERT_bind_Some [simp]: "(ASSERT b \<bind> f) = Some x \<longleftrightarrow> b \<and> f () = Some x"
  by (simp add: ASSERT_def)

lemma ASSERT_bind_True [simp]: "b \<Longrightarrow> (ASSERT b \<bind> f) = f ()"
  by (simp add: ASSERT_def)

text \<open>Reading and writing an array cell; outside the array the access is an error.\<close>

definition array_get :: "'a list \<Rightarrow> nat \<Rightarrow> 'a option" where
  "array_get xs i = (if i < length xs then Some (xs ! i) else None)"

definition array_set :: "'a list \<Rightarrow> nat \<Rightarrow> 'a \<Rightarrow> 'a list option" where
  "array_set xs i x = (if i < length xs then Some (xs[i := x]) else None)"

lemma array_get_in [simp]: "i < length xs \<Longrightarrow> array_get xs i = Some (xs ! i)"
  by (simp add: array_get_def)

lemma array_set_in [simp]: "i < length xs \<Longrightarrow> array_set xs i x = Some (xs[i := x])"
  by (simp add: array_set_def)

lemma array_get_eq_Some: "array_get xs i = Some x \<longleftrightarrow> i < length xs \<and> x = xs ! i"
  by (auto simp: array_get_def)

lemma array_set_eq_Some: "array_set xs i x = Some ys \<longleftrightarrow> i < length xs \<and> ys = xs[i := x]"
  by (auto simp: array_set_def)

lemma array_set_length: "array_set xs i x = Some ys \<Longrightarrow> length ys = length xs"
  by (auto simp: array_set_eq_Some)

section \<open>Counted loops\<close>

text \<open>
  \<open>for_loop i n body s\<close> is \<^verbatim>\<open>for (; i < n; i++) body\<close> on the state \<open>s\<close>.
\<close>

function for_loop :: "nat \<Rightarrow> nat \<Rightarrow> (nat \<Rightarrow> 's \<Rightarrow> 's option) \<Rightarrow> 's \<Rightarrow> 's option" where
  "for_loop i n body s =
     (if i < n then body i s \<bind> for_loop (Suc i) n body else Some s)"
  by pat_completeness auto
termination
  by (relation "measure (\<lambda>(i, n, _, _). n - i)") auto

declare for_loop.simps [simp del]

lemma for_loop_done [simp]: "n \<le> i \<Longrightarrow> for_loop i n body s = Some s"
  by (subst for_loop.simps) simp

lemma for_loop_step:
  "i < n \<Longrightarrow> for_loop i n body s = body i s \<bind> for_loop (Suc i) n body"
  by (subst for_loop.simps) simp

text \<open>Total correctness: an invariant that every iteration carries on holds at the end.\<close>

lemma for_loop_total [loop_rules]:
  assumes "i \<le> n" and "I i s"
    and "\<And>k s. \<lbrakk>i \<le> k; k < n; I k s\<rbrakk> \<Longrightarrow> \<exists>s'. body k s = Some s' \<and> I (Suc k) s'"
  shows "\<exists>s'. for_loop i n body s = Some s' \<and> I n s'"
  using assms
proof (induction "n - i" arbitrary: i s)
  case 0
  then show ?case by simp
next
  case (Suc d)
  then have "i < n" by simp
  with Suc.prems(3) [of i s] Suc.prems(2) obtain s1
    where s1: "body i s = Some s1" "I (Suc i) s1" by auto
  have "\<exists>s'. for_loop (Suc i) n body s1 = Some s' \<and> I n s'"
    by (rule Suc.hyps(1)) (use Suc.hyps(2) \<open>i < n\<close> s1 Suc.prems(3) in auto)
  with \<open>i < n\<close> s1 show ?case by (simp add: for_loop_step)
qed

text \<open>Partial correctness, when the loop is known to have finished.\<close>

lemma for_loop_partial [loop_rules]:
  assumes "for_loop i n body s = Some s'" and "i \<le> n" and "I i s"
    and "\<And>k s s'. \<lbrakk>i \<le> k; k < n; I k s; body k s = Some s'\<rbrakk> \<Longrightarrow> I (Suc k) s'"
  shows "I n s'"
  using assms
proof (induction "n - i" arbitrary: i s)
  case 0
  then show ?case by simp
next
  case (Suc d)
  then have "i < n" by simp
  with Suc.prems(1) obtain s1 where s1: "body i s = Some s1"
    and rest: "for_loop (Suc i) n body s1 = Some s'"
    by (auto simp: for_loop_step bind_eq_Some_conv)
  show ?case
    by (rule Suc.hyps(1) [OF _ rest]) (use Suc.hyps(2) \<open>i < n\<close> s1 Suc.prems(3,4) in auto)
qed

section \<open>Size arithmetic\<close>

text \<open>\<open>size_t\<close> is 32 bits wide on the target; sums are written with the wrap-around.\<close>

definition SIZE_MAX :: nat where
  "SIZE_MAX = 2 ^ 32 - 1"

abbreviation wrap32 :: "nat \<Rightarrow> nat" where
  "wrap32 n \<equiv> n mod 2 ^ 32"

lemma wrap32_less: "wrap32 n < 2 ^ 32"
  by simp

text \<open>\<open>DIV_ROUND_UP\<close>, \<open>ROUND_UP\<close> and \<open>ROUND_DOWN\<close> of \<open>lib/round.h\<close>, on \<open>size_t\<close>.\<close>

definition DIV_ROUND_UP :: "nat \<Rightarrow> nat \<Rightarrow> nat" where
  "DIV_ROUND_UP x step = wrap32 (x + step - 1) div step"

definition ROUND_UP :: "nat \<Rightarrow> nat \<Rightarrow> nat" where
  "ROUND_UP x step = wrap32 (wrap32 (x + step - 1) div step * step)"

definition ROUND_DOWN :: "nat \<Rightarrow> nat \<Rightarrow> nat" where
  "ROUND_DOWN x step = x div step * step"

text \<open>Two constants that several components share: the size of a page (\<open>threads/vaddr.h\<close>) and the
  first descriptor of a process (\<open>threads/thread.h\<close>).\<close>

definition PGSIZE :: nat where
  "PGSIZE = 4096"

definition INIT_FD :: int where
  "INIT_FD = 2"

lemma ceil_div_le:
  assumes "0 < (d::nat)"
  shows "x \<le> (x + d - 1) div d * d"
proof -
  have "(x + d - 1) mod d < d" using assms by simp
  then have "x + d - 1 < (x + d - 1) div d * d + d"
    using div_mult_mod_eq [of "x + d - 1" d] by linarith
  then show ?thesis using assms by linarith
qed

section \<open>Filling a range of a list\<close>

definition fill :: "'a list \<Rightarrow> nat \<Rightarrow> nat \<Rightarrow> 'a \<Rightarrow> 'a list" where
  "fill xs start cnt v = take start xs @ replicate cnt v @ drop (start + cnt) xs"

lemma length_fill [simp]: "start + cnt \<le> length xs \<Longrightarrow> length (fill xs start cnt v) = length xs"
  by (simp add: fill_def)

lemma nth_fill:
  "\<lbrakk>start + cnt \<le> length xs; i < length xs\<rbrakk> \<Longrightarrow>
   fill xs start cnt v ! i = (if start \<le> i \<and> i < start + cnt then v else xs ! i)"
  by (auto simp: fill_def nth_append)

lemma fill_0 [simp]: "fill xs start 0 v = xs"
  by (simp add: fill_def)

lemma fill_Suc:
  "start + cnt < length xs \<Longrightarrow> (fill xs start cnt v)[start + cnt := v] = fill xs start (Suc cnt) v"
  by (rule nth_equalityI) (auto simp: nth_fill nth_list_update)

lemma fill_all: "fill xs 0 (length xs) v = replicate (length xs) v"
  by (simp add: fill_def)

lemma fill_fill: "start + cnt \<le> length xs \<Longrightarrow> fill (fill xs start cnt u) start cnt v = fill xs start cnt v"
  by (rule nth_equalityI) (auto simp: nth_fill)

lemma fill_same:
  "\<lbrakk>start + cnt \<le> length xs; \<forall>i. start \<le> i \<and> i < start + cnt \<longrightarrow> xs ! i = v\<rbrakk> \<Longrightarrow> fill xs start cnt v = xs"
  by (rule nth_equalityI) (auto simp: nth_fill)

lemma ex_from_Suc:
  assumes "i < n"
  shows "(\<exists>k. i \<le> k \<and> k < n \<and> P k) \<longleftrightarrow> P i \<or> (\<exists>k. Suc i \<le> k \<and> k < n \<and> P k)"
proof -
  have "(i \<le> k \<and> k < n \<and> P k) \<longleftrightarrow> (k = i \<and> P i) \<or> (Suc i \<le> k \<and> k < n \<and> P k)" for k
    using assms by (cases "k = i") auto
  then show ?thesis by simp blast
qed

end
