(* ===== verification/Bitmap.thy ===== *)
theory Bitmap
  imports Prelude
begin

text \<open>
  \<open>lib/kernel/bitmap.c\<close>: an array of bits kept in an array of 32-bit elements.
  The operations are modelled on the elements, as the source has them; the abstraction
  \<open>bm\<close> reads a bitmap as a list of booleans, and the lemmas show that every operation
  acts on that list.  The interface \<open>bit_allocator\<close> states what the clients (the free map,
  the page allocator) rely on.
\<close>

section \<open>The data structure\<close>

definition ELEM_BITS :: nat where
  "ELEM_BITS = 32"

record bitmap =
  bit_cnt :: nat
  bits :: "u32 list"

definition elem_idx :: "nat \<Rightarrow> nat" where
  "elem_idx bit_idx = bit_idx div ELEM_BITS"

definition bit_mask :: "nat \<Rightarrow> u32" where
  "bit_mask bit_idx = push_bit (bit_idx mod ELEM_BITS) 1"

definition elem_cnt :: "nat \<Rightarrow> nat" where
  "elem_cnt n = DIV_ROUND_UP n ELEM_BITS"

definition byte_cnt :: "nat \<Rightarrow> nat" where
  "byte_cnt n = wrap32 (4 * elem_cnt n)"

definition last_mask :: "bitmap \<Rightarrow> u32" where
  "last_mask b = (let last_bits = bit_cnt b mod ELEM_BITS in
     if last_bits \<noteq> 0 then push_bit last_bits 1 - 1 else - 1)"

definition BITMAP_ERROR :: nat where
  "BITMAP_ERROR = SIZE_MAX"

section \<open>Single bits\<close>

definition bitmap_size :: "bitmap \<Rightarrow> nat" where
  "bitmap_size b = bit_cnt b"

definition bitmap_mark :: "bitmap \<Rightarrow> nat \<Rightarrow> bitmap option" where
  "bitmap_mark b bit_idx = do {
     let idx = elem_idx bit_idx;
     let mask = bit_mask bit_idx;
     e \<leftarrow> array_get (bits b) idx;
     es \<leftarrow> array_set (bits b) idx (e OR mask);
     Some (b\<lparr>bits := es\<rparr>) }"

definition bitmap_reset :: "bitmap \<Rightarrow> nat \<Rightarrow> bitmap option" where
  "bitmap_reset b bit_idx = do {
     let idx = elem_idx bit_idx;
     let mask = bit_mask bit_idx;
     e \<leftarrow> array_get (bits b) idx;
     es \<leftarrow> array_set (bits b) idx (e AND NOT mask);
     Some (b\<lparr>bits := es\<rparr>) }"

definition bitmap_flip :: "bitmap \<Rightarrow> nat \<Rightarrow> bitmap option" where
  "bitmap_flip b bit_idx = do {
     let idx = elem_idx bit_idx;
     let mask = bit_mask bit_idx;
     e \<leftarrow> array_get (bits b) idx;
     es \<leftarrow> array_set (bits b) idx (e XOR mask);
     Some (b\<lparr>bits := es\<rparr>) }"

definition bitmap_set :: "bitmap \<Rightarrow> nat \<Rightarrow> bool \<Rightarrow> bitmap option" where
  "bitmap_set b idx value = do {
     ASSERT (idx < bit_cnt b);
     if value then bitmap_mark b idx else bitmap_reset b idx }"

definition bitmap_test :: "bitmap \<Rightarrow> nat \<Rightarrow> bool option" where
  "bitmap_test b idx = do {
     ASSERT (idx < bit_cnt b);
     e \<leftarrow> array_get (bits b) (elem_idx idx);
     Some ((e AND bit_mask idx) \<noteq> 0) }"

section \<open>Ranges of bits\<close>

definition bitmap_set_multiple :: "bitmap \<Rightarrow> nat \<Rightarrow> nat \<Rightarrow> bool \<Rightarrow> bitmap option" where
  "bitmap_set_multiple b start cnt value = do {
     ASSERT (start \<le> bit_cnt b);
     ASSERT (wrap32 (start + cnt) \<le> bit_cnt b);
     for_loop 0 cnt (\<lambda>i b. bitmap_set b (wrap32 (start + i)) value) b }"

definition bitmap_set_all :: "bitmap \<Rightarrow> bool \<Rightarrow> bitmap option" where
  "bitmap_set_all b value = bitmap_set_multiple b 0 (bitmap_size b) value"

definition bitmap_count :: "bitmap \<Rightarrow> nat \<Rightarrow> nat \<Rightarrow> bool \<Rightarrow> nat option" where
  "bitmap_count b start cnt value = do {
     ASSERT (start \<le> bit_cnt b);
     ASSERT (wrap32 (start + cnt) \<le> bit_cnt b);
     for_loop 0 cnt (\<lambda>i value_cnt. do {
       t \<leftarrow> bitmap_test b (wrap32 (start + i));
       Some (if t = value then value_cnt + 1 else value_cnt) }) 0 }"

text \<open>The loop of \<open>bitmap_contains\<close> returns from its middle.\<close>

function contains_loop :: "bitmap \<Rightarrow> nat \<Rightarrow> nat \<Rightarrow> bool \<Rightarrow> nat \<Rightarrow> bool option" where
  "contains_loop b start cnt value i =
     (if i < cnt
      then do {
        t \<leftarrow> bitmap_test b (wrap32 (start + i));
        if t = value then Some True else contains_loop b start cnt value (Suc i) }
      else Some False)"
  by pat_completeness auto
termination
  by (relation "measure (\<lambda>(_, _, cnt, _, i). cnt - i)") auto

declare contains_loop.simps [simp del]

definition bitmap_contains :: "bitmap \<Rightarrow> nat \<Rightarrow> nat \<Rightarrow> bool \<Rightarrow> bool option" where
  "bitmap_contains b start cnt value = do {
     ASSERT (start \<le> bit_cnt b);
     ASSERT (wrap32 (start + cnt) \<le> bit_cnt b);
     contains_loop b start cnt value 0 }"

definition bitmap_any :: "bitmap \<Rightarrow> nat \<Rightarrow> nat \<Rightarrow> bool option" where
  "bitmap_any b start cnt = bitmap_contains b start cnt True"

definition bitmap_none :: "bitmap \<Rightarrow> nat \<Rightarrow> nat \<Rightarrow> bool option" where
  "bitmap_none b start cnt = map_option Not (bitmap_contains b start cnt True)"

definition bitmap_all :: "bitmap \<Rightarrow> nat \<Rightarrow> nat \<Rightarrow> bool option" where
  "bitmap_all b start cnt = map_option Not (bitmap_contains b start cnt False)"

text \<open>
  The search of \<open>bitmap_scan\<close>, \<^verbatim>\<open>for (i = start; i <= last; i++)\<close>.  The index cannot
  wrap: \<open>last\<close> is at most the number of bits.
\<close>

function scan_loop :: "bitmap \<Rightarrow> nat \<Rightarrow> nat \<Rightarrow> bool \<Rightarrow> nat \<Rightarrow> nat option" where
  "scan_loop b cnt last_idx value i =
     (if i \<le> last_idx
      then do {
        c \<leftarrow> bitmap_contains b i cnt (\<not> value);
        if \<not> c then Some i else scan_loop b cnt last_idx value (Suc i) }
      else Some BITMAP_ERROR)"
  by pat_completeness auto
termination
  by (relation "measure (\<lambda>(_, _, l, _, i). Suc l - i)") auto

declare scan_loop.simps [simp del]

definition bitmap_scan :: "bitmap \<Rightarrow> nat \<Rightarrow> nat \<Rightarrow> bool \<Rightarrow> nat option" where
  "bitmap_scan b start cnt value = do {
     ASSERT (start \<le> bit_cnt b);
     if cnt \<le> bit_cnt b
     then scan_loop b cnt (bit_cnt b - cnt) value start
     else Some BITMAP_ERROR }"

definition bitmap_scan_and_flip :: "bitmap \<Rightarrow> nat \<Rightarrow> nat \<Rightarrow> bool \<Rightarrow> (nat \<times> bitmap) option" where
  "bitmap_scan_and_flip b start cnt value = do {
     idx \<leftarrow> bitmap_scan b start cnt value;
     b' \<leftarrow> (if idx \<noteq> BITMAP_ERROR then bitmap_set_multiple b idx cnt (\<not> value) else Some b);
     Some (idx, b') }"

section \<open>Creation\<close>

text \<open>
  Memory comes from \<open>malloc\<close>, which may fail: \<open>hdr_ok\<close> and \<open>bits_ok\<close> say whether the
  two requests of \<open>bitmap_create\<close> succeed, and \<open>junk\<close> is the content of the block the
  second one returns.  The inner option is the null pointer.
\<close>

definition bitmap_create :: "bool \<Rightarrow> bool \<Rightarrow> u32 list \<Rightarrow> nat \<Rightarrow> bitmap option option" where
  "bitmap_create hdr_ok bits_ok junk cnt =
     (if hdr_ok
      then if bits_ok \<or> cnt = 0
           then map_option Some (bitmap_set_all
                  \<lparr>bit_cnt = cnt, bits = take (byte_cnt cnt div 4) junk\<rparr> False)
           else Some None
      else Some None)"

definition bitmap_buf_size :: "nat \<Rightarrow> nat" where
  "bitmap_buf_size cnt = wrap32 (8 + byte_cnt cnt)"

definition bitmap_create_in_buf :: "nat \<Rightarrow> u32 list \<Rightarrow> nat \<Rightarrow> bitmap option" where
  "bitmap_create_in_buf cnt block block_size = do {
     ASSERT (block_size \<ge> bitmap_buf_size cnt);
     bitmap_set_all \<lparr>bit_cnt = cnt, bits = drop 2 block\<rparr> False }"

definition bitmap_file_size :: "bitmap \<Rightarrow> nat" where
  "bitmap_file_size b = byte_cnt (bit_cnt b)"

section \<open>The bitmap as a list of booleans\<close>

definition bitmap_ok :: "bitmap \<Rightarrow> bool" where
  "bitmap_ok b \<longleftrightarrow> bit_cnt b + 31 < 2 ^ 32 \<and> elem_cnt (bit_cnt b) \<le> length (bits b)"

definition bm :: "bitmap \<Rightarrow> bool list" where
  "bm b = map (\<lambda>i. bit (bits b ! elem_idx i) (i mod ELEM_BITS)) [0..<bit_cnt b]"

lemma length_bm [simp]: "length (bm b) = bit_cnt b"
  by (simp add: bm_def)

lemma bm_nth: "i < bit_cnt b \<Longrightarrow> bm b ! i = bit (bits b ! elem_idx i) (i mod ELEM_BITS)"
  by (simp add: bm_def)

lemma elem_cnt_eq: "n + 31 < 2 ^ 32 \<Longrightarrow> elem_cnt n = (n + 31) div 32"
  by (simp add: elem_cnt_def DIV_ROUND_UP_def ELEM_BITS_def)

lemma elem_idx_less:
  assumes "bitmap_ok b" "i < bit_cnt b"
  shows "elem_idx i < length (bits b)"
proof -
  have "i div 32 < (bit_cnt b + 31) div 32" using assms(2) by linarith
  also have "\<dots> \<le> length (bits b)"
    using assms(1) elem_cnt_eq [of "bit_cnt b"] unfolding bitmap_ok_def by auto
  finally show ?thesis by (simp add: elem_idx_def ELEM_BITS_def)
qed

lemma mask_test: "(e AND bit_mask i) \<noteq> 0 \<longleftrightarrow> bit e (i mod ELEM_BITS)"
  by (simp add: bit_mask_def and_exp_eq_0_iff_not_bit)

lemma bit_bit_mask: "bit (bit_mask i) n \<longleftrightarrow> n = i mod ELEM_BITS"
  by (auto simp: bit_mask_def ELEM_BITS_def bit_exp_iff)

lemma same_bit_iff: "elem_idx i = elem_idx j \<Longrightarrow> i mod ELEM_BITS = j mod ELEM_BITS \<Longrightarrow> i = j"
  unfolding elem_idx_def by (metis div_mult_mod_eq)

lemma bm_update:
  assumes "bitmap_ok b" "i < bit_cnt b"
    and e: "\<And>n. n < 32 \<Longrightarrow> bit e n = (if n = i mod ELEM_BITS then v else bit (bits b ! elem_idx i) n)"
  shows "bm (b\<lparr>bits := (bits b)[elem_idx i := e]\<rparr>) = (bm b)[i := v]"
proof (rule nth_equalityI)
  fix j assume "j < length (bm (b\<lparr>bits := (bits b)[elem_idx i := e]\<rparr>))"
  then have j: "j < bit_cnt b" by simp
  have m: "j mod ELEM_BITS < 32" by (simp add: ELEM_BITS_def)
  have l: "elem_idx i < length (bits b)" by (rule elem_idx_less [OF assms(1,2)])
  show "bm (b\<lparr>bits := (bits b)[elem_idx i := e]\<rparr>) ! j = (bm b)[i := v] ! j"
  proof (cases "elem_idx j = elem_idx i")
    case True
    show ?thesis
    proof (cases "i = j")
      case False
      with True same_bit_iff [of j i] have "j mod ELEM_BITS \<noteq> i mod ELEM_BITS" by blast
      with True False j l e [OF m] show ?thesis by (simp add: bm_nth)
    qed (use j l e [OF m] in \<open>simp add: bm_nth\<close>)
  next
    case False
    then have "i \<noteq> j" by blast
    with False j show ?thesis by (simp add: bm_nth)
  qed
qed simp

lemma bitmap_ok_update [simp]: "bitmap_ok (b\<lparr>bits := (bits b)[k := e]\<rparr>) = bitmap_ok b"
  by (simp add: bitmap_ok_def)

text \<open>\<open>bm_result b xs r\<close>: \<open>r\<close> is a bitmap of the size of \<open>b\<close> that reads as \<open>xs\<close>.\<close>

definition bm_result :: "bitmap \<Rightarrow> bool list \<Rightarrow> bitmap option \<Rightarrow> bool" where
  "bm_result b xs r \<longleftrightarrow> (\<exists>b'. r = Some b' \<and> bitmap_ok b' \<and> bit_cnt b' = bit_cnt b \<and>
      length (bits b') = length (bits b) \<and> bm b' = xs)"

lemma bm_result_I:
  assumes "bitmap_ok b" "i < bit_cnt b"
    and "\<And>n. n < 32 \<Longrightarrow> bit e n = (if n = i mod ELEM_BITS then v else bit (bits b ! elem_idx i) n)"
  shows "bm_result b ((bm b)[i := v]) (Some (b\<lparr>bits := (bits b)[elem_idx i := e]\<rparr>))"
  unfolding bm_result_def
  by (rule exI, intro conjI, rule refl) (simp_all add: bm_update [OF assms] assms(1))

lemma bitmap_mark_bm: "\<lbrakk>bitmap_ok b; i < bit_cnt b\<rbrakk> \<Longrightarrow> bm_result b ((bm b)[i := True]) (bitmap_mark b i)"
  by (simp add: bitmap_mark_def Let_def elem_idx_less bm_result_I bit_or_iff bit_bit_mask)

lemma bitmap_reset_bm: "\<lbrakk>bitmap_ok b; i < bit_cnt b\<rbrakk> \<Longrightarrow> bm_result b ((bm b)[i := False]) (bitmap_reset b i)"
  by (simp add: bitmap_reset_def Let_def elem_idx_less bm_result_I bit_and_iff bit_not_iff bit_bit_mask)

lemma bitmap_flip_bm: "\<lbrakk>bitmap_ok b; i < bit_cnt b\<rbrakk> \<Longrightarrow> bm_result b ((bm b)[i := \<not> bm b ! i]) (bitmap_flip b i)"
  by (simp add: bitmap_flip_def Let_def elem_idx_less bm_result_I bit_xor_iff bit_bit_mask bm_nth)

lemma bitmap_set_bm:
  "\<lbrakk>bitmap_ok b; i < bit_cnt b\<rbrakk> \<Longrightarrow> bm_result b ((bm b)[i := v]) (bitmap_set b i v)"
  by (cases v) (simp_all add: bitmap_set_def bitmap_mark_bm bitmap_reset_bm)

lemma bitmap_test_bm:
  "\<lbrakk>bitmap_ok b; i < bit_cnt b\<rbrakk> \<Longrightarrow> bitmap_test b i = Some (bm b ! i)"
  by (simp add: bitmap_test_def mask_test bm_nth elem_idx_less)

lemma bitmap_set_out: "\<not> i < bit_cnt b \<Longrightarrow> bitmap_set b i v = None"
  by (simp add: bitmap_set_def)

lemma bitmap_test_out: "\<not> i < bit_cnt b \<Longrightarrow> bitmap_test b i = None"
  by (simp add: bitmap_test_def)

lemma bitmap_ok_bound: "bitmap_ok b \<Longrightarrow> bit_cnt b < 4294967265"
  by (simp add: bitmap_ok_def)

lemma wrap32_in: "n \<le> bit_cnt b \<Longrightarrow> bitmap_ok b \<Longrightarrow> wrap32 n = n"
  using bitmap_ok_bound [of b] by simp

lemma bitmap_set_multiple_bm:
  assumes "bitmap_ok b" "start + cnt \<le> bit_cnt b"
  shows "bm_result b (fill (bm b) start cnt v) (bitmap_set_multiple b start cnt v)"
proof -
  let ?I = "\<lambda>k s. bm_result b (fill (bm b) start k v) (Some s)"
  have "\<exists>s'. for_loop 0 cnt (\<lambda>i b. bitmap_set b (wrap32 (start + i)) v) b = Some s' \<and> ?I cnt s'"
  proof (rule for_loop_total [where I = ?I])
    fix k s assume k: "k < cnt" and I: "?I k s"
    then have s: "bitmap_ok s" "bit_cnt s = bit_cnt b" "length (bits s) = length (bits b)"
      "bm s = fill (bm b) start k v"
      by (auto simp: bm_result_def)
    from k assms(2) s(2) have lt: "start + k < bit_cnt s" by simp
    from lt s(1) have "wrap32 (start + k) = start + k" by (intro wrap32_in) auto
    moreover have "bm_result s ((bm s)[start + k := v]) (bitmap_set s (start + k) v)"
      by (rule bitmap_set_bm [OF s(1) lt])
    ultimately show "\<exists>s'. bitmap_set s (wrap32 (start + k)) v = Some s' \<and> ?I (Suc k) s'"
      using s lt by (auto simp: bm_result_def fill_Suc)
  qed (use assms in \<open>auto simp: bm_result_def\<close>)
  with assms wrap32_in [of "start + cnt" b] show ?thesis
    by (auto simp: bm_result_def bitmap_set_multiple_def)
qed

lemma bitmap_set_all_bm:
  "bitmap_ok b \<Longrightarrow> bm_result b (replicate (bit_cnt b) v) (bitmap_set_all b v)"
  using bitmap_set_multiple_bm [of b 0 "bit_cnt b" v] fill_all [of "bm b" v]
  by (simp add: bitmap_set_all_def bitmap_size_def)

lemma contains_loop_bm:
  assumes "bitmap_ok b" "start + cnt \<le> bit_cnt b"
  shows "contains_loop b start cnt v i = Some (\<exists>k. i \<le> k \<and> k < cnt \<and> bm b ! (start + k) = v)"
proof (induction "cnt - i" arbitrary: i)
  case 0
  then show ?case by (subst contains_loop.simps) auto
next
  case (Suc d)
  then have "i < cnt" by simp
  with assms have lt: "start + i < bit_cnt b" by simp
  then have w: "wrap32 (start + i) = start + i" by (intro wrap32_in [OF _ assms(1)]) simp
  have IH: "contains_loop b start cnt v (Suc i) = Some (\<exists>k. Suc i \<le> k \<and> k < cnt \<and> bm b ! (start + k) = v)"
    by (rule Suc.hyps(1)) (use Suc.hyps(2) in simp)
  with \<open>i < cnt\<close> lt w IH show ?case
    by (subst contains_loop.simps) (simp add: bitmap_test_bm [OF assms(1)] ex_from_Suc)
qed

lemma bitmap_contains_bm:
  assumes "bitmap_ok b" "start + cnt \<le> bit_cnt b"
  shows "bitmap_contains b start cnt v = Some (\<exists>k<cnt. bm b ! (start + k) = v)"
  using assms wrap32_in [of "start + cnt" b] contains_loop_bm [OF assms]
  by (simp add: bitmap_contains_def)

lemma bitmap_all_bm:
  "\<lbrakk>bitmap_ok b; start + cnt \<le> bit_cnt b\<rbrakk> \<Longrightarrow>
   bitmap_all b start cnt = Some (\<forall>k<cnt. bm b ! (start + k))"
  by (simp add: bitmap_all_def bitmap_contains_bm)

lemma bitmap_none_bm:
  "\<lbrakk>bitmap_ok b; start + cnt \<le> bit_cnt b\<rbrakk> \<Longrightarrow>
   bitmap_none b start cnt = Some (\<forall>k<cnt. \<not> bm b ! (start + k))"
  by (simp add: bitmap_none_def bitmap_contains_bm)

lemma bitmap_any_bm:
  "\<lbrakk>bitmap_ok b; start + cnt \<le> bit_cnt b\<rbrakk> \<Longrightarrow>
   bitmap_any b start cnt = Some (\<exists>k<cnt. bm b ! (start + k))"
  by (simp add: bitmap_any_def bitmap_contains_bm)

lemma bitmap_count_bm:
  assumes "bitmap_ok b" "start + cnt \<le> bit_cnt b"
  shows "bitmap_count b start cnt v = Some (count_list (take cnt (drop start (bm b))) v)"
proof -
  let ?I = "\<lambda>k c. c = count_list (take k (drop start (bm b))) v"
  let ?body = "\<lambda>i value_cnt. do {
       t \<leftarrow> bitmap_test b (wrap32 (start + i));
       Some (if t = v then value_cnt + 1 else value_cnt) }"
  have "\<exists>c. for_loop 0 cnt ?body 0 = Some c \<and> ?I cnt c"
  proof (rule for_loop_total [where I = ?I])
    fix k and c :: nat assume k: "k < cnt" and I: "?I k c"
    from k assms(2) have lt: "start + k < bit_cnt b" by simp
    then have "wrap32 (start + k) = start + k" by (intro wrap32_in [OF _ assms(1)]) simp
    with lt I show "\<exists>c'. ?body k c = Some c' \<and> ?I (Suc k) c'"
      using bitmap_test_bm [OF assms(1) lt]
      by (auto simp: take_Suc_conv_app_nth)
  qed simp_all
  with assms wrap32_in [of "start + cnt" b] show ?thesis
    by (auto simp: bitmap_count_def)
qed

text \<open>\<open>bit_run xs j cnt v\<close>: the \<open>cnt\<close> positions from \<open>j\<close> on exist and hold \<open>v\<close>.\<close>

definition bit_run :: "bool list \<Rightarrow> nat \<Rightarrow> nat \<Rightarrow> bool \<Rightarrow> bool" where
  "bit_run xs j cnt v \<longleftrightarrow> j + cnt \<le> length xs \<and> (\<forall>k<cnt. xs ! (j + k) = v)"

definition first_run :: "bool list \<Rightarrow> nat \<Rightarrow> nat \<Rightarrow> bool \<Rightarrow> nat \<Rightarrow> bool" where
  "first_run xs start cnt v r \<longleftrightarrow>
     (if r = BITMAP_ERROR then \<forall>j\<ge>start. \<not> bit_run xs j cnt v
      else start \<le> r \<and> bit_run xs r cnt v \<and> (\<forall>j. start \<le> j \<and> j < r \<longrightarrow> \<not> bit_run xs j cnt v))"

lemma scan_loop_bm:
  assumes "bitmap_ok b" "cnt \<le> bit_cnt b"
  shows "\<exists>r. scan_loop b cnt (bit_cnt b - cnt) v i = Some r \<and> first_run (bm b) i cnt v r"
proof (induction "Suc (bit_cnt b - cnt) - i" arbitrary: i)
  case 0
  then show ?case
    using assms by (subst scan_loop.simps) (auto simp: first_run_def bit_run_def)
next
  case (Suc d)
  then have i: "i + cnt \<le> bit_cnt b" using assms(2) by simp
  have c: "bitmap_contains b i cnt (\<not> v) = Some (\<not> bit_run (bm b) i cnt v)"
    using bitmap_contains_bm [OF assms(1) i, of "\<not> v"] i by (auto simp: bit_run_def)
  show ?case
  proof (cases "bit_run (bm b) i cnt v")
    case True
    with i c bitmap_ok_bound [OF assms(1)] show ?thesis
      by (subst scan_loop.simps) (auto simp: first_run_def BITMAP_ERROR_def SIZE_MAX_def)
  next
    case False
    have "d = Suc (bit_cnt b - cnt) - Suc i" using Suc.hyps(2) by simp
    from Suc.hyps(1) [OF this] obtain r
      where r: "scan_loop b cnt (bit_cnt b - cnt) v (Suc i) = Some r" "first_run (bm b) (Suc i) cnt v r"
      by auto
    from r(2) False have "first_run (bm b) i cnt v r"
      unfolding first_run_def by (auto split: if_splits) (metis Suc_leI le_eq_less_or_eq)+
    with r(1) False c i show ?thesis by (subst scan_loop.simps) auto
  qed
qed

lemma bitmap_scan_bm:
  assumes "bitmap_ok b" "start \<le> bit_cnt b"
  shows "\<exists>r. bitmap_scan b start cnt v = Some r \<and> first_run (bm b) start cnt v r"
proof (cases "cnt \<le> bit_cnt b")
  case True
  with assms scan_loop_bm [OF assms(1), of cnt v start] show ?thesis
    by (simp add: bitmap_scan_def)
next
  case False
  with assms show ?thesis
    by (auto simp: bitmap_scan_def first_run_def bit_run_def)
qed

lemma bitmap_scan_and_flip_bm:
  assumes "bitmap_ok b" "start \<le> bit_cnt b"
  shows "\<exists>r b'. bitmap_scan_and_flip b start cnt v = Some (r, b') \<and> first_run (bm b) start cnt v r \<and>
     bm_result b (if r = BITMAP_ERROR then bm b else fill (bm b) r cnt (\<not> v)) (Some b')"
proof -
  obtain r where r: "bitmap_scan b start cnt v = Some r" "first_run (bm b) start cnt v r"
    using bitmap_scan_bm [OF assms] by blast
  show ?thesis
  proof (cases "r = BITMAP_ERROR")
    case True
    with r assms show ?thesis by (simp add: bitmap_scan_and_flip_def bm_result_def)
  next
    case False
    with r(2) have "r + cnt \<le> bit_cnt b" by (simp add: first_run_def bit_run_def)
    from bitmap_set_multiple_bm [OF assms(1) this, of "\<not> v"] r False show ?thesis
      by (auto simp: bitmap_scan_and_flip_def bm_result_def)
  qed
qed

section \<open>What clients rely on\<close>

text \<open>
  The free map and the page allocator use a bitmap in the same way: they search for a run
  of free bits and mark it, and they clear a run that is in use.
\<close>

locale bit_allocator =
  fixes ok :: "'b \<Rightarrow> bool"
    and content :: "'b \<Rightarrow> bool list"
    and scan_flip :: "'b \<Rightarrow> nat \<Rightarrow> nat \<Rightarrow> bool \<Rightarrow> (nat \<times> 'b) option"
    and set_range :: "'b \<Rightarrow> nat \<Rightarrow> nat \<Rightarrow> bool \<Rightarrow> 'b option"
    and all_set :: "'b \<Rightarrow> nat \<Rightarrow> nat \<Rightarrow> bool option"
  assumes scan_flip_law: "\<lbrakk>ok b; start \<le> length (content b)\<rbrakk> \<Longrightarrow>
      \<exists>r b'. scan_flip b start cnt v = Some (r, b') \<and> first_run (content b) start cnt v r \<and> ok b' \<and>
        content b' = (if r = BITMAP_ERROR then content b else fill (content b) r cnt (\<not> v))"
    and set_range_law: "\<lbrakk>ok b; start + cnt \<le> length (content b)\<rbrakk> \<Longrightarrow>
      \<exists>b'. set_range b start cnt v = Some b' \<and> ok b' \<and> content b' = fill (content b) start cnt v"
    and all_set_law: "\<lbrakk>ok b; start + cnt \<le> length (content b)\<rbrakk> \<Longrightarrow>
      all_set b start cnt = Some (\<forall>k<cnt. content b ! (start + k))"
begin

lemma alloc_cases:
  assumes "ok b"
  obtains (full) b' where "scan_flip b 0 cnt False = Some (BITMAP_ERROR, b')" "ok b'"
      "content b' = content b" "\<forall>j. \<not> bit_run (content b) j cnt False"
  | (got) r b' where "scan_flip b 0 cnt False = Some (r, b')" "r \<noteq> BITMAP_ERROR" "ok b'"
      "content b' = fill (content b) r cnt True" "bit_run (content b) r cnt False"
proof -
  obtain r b' where *: "scan_flip b 0 cnt False = Some (r, b')" "first_run (content b) 0 cnt False r"
    "ok b'" "content b' = (if r = BITMAP_ERROR then content b else fill (content b) r cnt True)"
    using scan_flip_law [OF assms, of 0 cnt False] by auto
  show thesis
    by (cases "r = BITMAP_ERROR") (use * in \<open>auto simp: first_run_def intro: that\<close>)
qed

lemma alloc_marks:
  assumes "ok b" "scan_flip b 0 cnt False = Some (r, b')" "r \<noteq> BITMAP_ERROR"
  shows "ok b' \<and> bit_run (content b) r cnt False \<and> bit_run (content b') r cnt True \<and>
    length (content b') = length (content b) \<and>
    (\<forall>i < length (content b). (i < r \<or> r + cnt \<le> i) \<longrightarrow> content b' ! i = content b ! i)"
  using assms(1)
proof (cases rule: alloc_cases [where cnt = cnt])
  case (got r' c)
  then have "r' = r" "c = b'" using assms(2) by auto
  with got show ?thesis by (auto simp: bit_run_def nth_fill)
qed (use assms in simp)

lemma release_marked:
  assumes "ok b" "bit_run (content b) r cnt True"
  shows "\<exists>b'. all_set b r cnt = Some True \<and> set_range b r cnt False = Some b' \<and> ok b' \<and>
     content b' = fill (content b) r cnt False"
  using assms set_range_law [OF assms(1), of r cnt False] all_set_law [OF assms(1), of r cnt]
  by (auto simp: bit_run_def)

lemma alloc_release:
  assumes "ok b" "scan_flip b 0 cnt False = Some (r, b')" "r \<noteq> BITMAP_ERROR"
  shows "\<exists>b''. set_range b' r cnt False = Some b'' \<and> ok b'' \<and> content b'' = content b"
proof -
  from alloc_marks [OF assms] have run: "bit_run (content b) r cnt False" "ok b'"
    "bit_run (content b') r cnt True" by auto
  from assms(1) have "content b' = fill (content b) r cnt True"
    by (cases rule: alloc_cases [where cnt = cnt]) (use assms in auto)
  with release_marked [OF run(2,3)] run(1) show ?thesis
    by (auto simp: bit_run_def fill_fill intro!: fill_same) (metis le_add_diff_inverse nat_add_left_cancel_less)
qed

end

interpretation bitmap_alloc: bit_allocator bitmap_ok bm bitmap_scan_and_flip bitmap_set_multiple bitmap_all
proof
  show "\<exists>r b'. bitmap_scan_and_flip b start cnt v = Some (r, b') \<and> first_run (bm b) start cnt v r \<and>
      bitmap_ok b' \<and> bm b' = (if r = BITMAP_ERROR then bm b else fill (bm b) r cnt (\<not> v))"
    if "bitmap_ok b" "start \<le> length (bm b)" for b start cnt v
    using bitmap_scan_and_flip_bm [of b start cnt v] that by (auto simp: bm_result_def)
  show "\<exists>b'. bitmap_set_multiple b start cnt v = Some b' \<and> bitmap_ok b' \<and> bm b' = fill (bm b) start cnt v"
    if "bitmap_ok b" "start + cnt \<le> length (bm b)" for b start cnt v
    using bitmap_set_multiple_bm [of b start cnt v] that by (auto simp: bm_result_def)
qed (simp add: bitmap_all_bm)

section \<open>Panics\<close>

lemma bitmap_mark_cnt: "bitmap_mark b i = Some b' \<Longrightarrow> bit_cnt b' = bit_cnt b"
  by (auto simp: bitmap_mark_def Let_def bind_eq_Some_conv)

lemma bitmap_reset_cnt: "bitmap_reset b i = Some b' \<Longrightarrow> bit_cnt b' = bit_cnt b"
  by (auto simp: bitmap_reset_def Let_def bind_eq_Some_conv)

lemma bitmap_set_Some: "bitmap_set b i v = Some b' \<Longrightarrow> i < bit_cnt b \<and> bit_cnt b' = bit_cnt b"
  by (auto simp: bitmap_set_def bitmap_mark_cnt bitmap_reset_cnt split: if_splits)

lemma bitmap_set_multiple_in_range:
  assumes "bitmap_ok b" "bitmap_set_multiple b start cnt v = Some b'"
  shows "start + cnt \<le> bit_cnt b"
proof -
  let ?I = "\<lambda>k s. bit_cnt s = bit_cnt b \<and> start + k \<le> bit_cnt b"
  from assms(2) have loop: "for_loop 0 cnt (\<lambda>i b. bitmap_set b (wrap32 (start + i)) v) b = Some b'"
    and "start \<le> bit_cnt b"
    by (auto simp: bitmap_set_multiple_def)
  have "?I cnt b'"
  proof (rule for_loop_partial [where I = ?I, OF loop])
    fix k s s' assume I: "?I k s" and s': "bitmap_set s (wrap32 (start + k)) v = Some s'"
    then have "wrap32 (start + k) = start + k" by (intro wrap32_in [OF _ assms(1)]) simp
    with bitmap_set_Some [OF s'] I show "?I (Suc k) s'" by simp
  qed (use \<open>start \<le> bit_cnt b\<close> in auto)
  then show ?thesis by simp
qed

section \<open>Properties\<close>



text \<open>
  C12: setting a range of bits is safe for every pair of 32-bit arguments, also for those
  whose sum wraps around: it either sets exactly the range, which then lies inside the
  bitmap, or it panics, and then the range does not lie inside the bitmap.
\<close>

theorem bitmap_set_multiple_exact:
  assumes "bitmap_ok b"
  shows "case bitmap_set_multiple b start cnt v of
      None \<Rightarrow> bit_cnt b < start + cnt
    | Some b' \<Rightarrow> start + cnt \<le> bit_cnt b \<and> bitmap_ok b' \<and> bit_cnt b' = bit_cnt b \<and>
        bm b' = fill (bm b) start cnt v"
proof (cases "bitmap_set_multiple b start cnt v")
  case None
  with bitmap_set_multiple_bm [OF assms, of start cnt v] show ?thesis
    by (cases "start + cnt \<le> bit_cnt b") (auto simp: bm_result_def)
next
  case (Some b')
  from bitmap_set_multiple_in_range [OF assms Some] have "start + cnt \<le> bit_cnt b" .
  with bitmap_set_multiple_bm [OF assms this, of v] Some show ?thesis
    by (auto simp: bm_result_def)
qed

theorem bitmap_set_multiple_exact_witness:
  "case bitmap_set_multiple \<lparr>bit_cnt = 40, bits = [7, 0]\<rparr> 38 4294967295 True of
      None \<Rightarrow> 40 < 38 + (4294967295 :: nat) | Some b' \<Rightarrow> 38 + (4294967295 :: nat) \<le> 40"
proof -
  have "bitmap_ok \<lparr>bit_cnt = 40, bits = [7, 0]\<rparr>"
    by (simp add: bitmap_ok_def elem_cnt_def DIV_ROUND_UP_def ELEM_BITS_def)
  from bitmap_set_multiple_exact [OF this, of 38 4294967295 True] show ?thesis
    by (simp split: option.splits)
qed

text \<open>
  A run that was just allocated (found free and marked) can be released, and
  releasing it restores every bit of the bitmap.
\<close>

theorem bitmap_alloc_release_roundtrip:
  assumes "bitmap_ok b" "bitmap_scan_and_flip b 0 cnt False = Some (r, b')" "r \<noteq> BITMAP_ERROR"
  shows "bitmap_all b' r cnt = Some True \<and>
    (\<exists>b''. bitmap_set_multiple b' r cnt False = Some b'' \<and> bitmap_ok b'' \<and> bm b'' = bm b)"
  using bitmap_alloc.alloc_release [OF assms] bitmap_alloc.alloc_marks [OF assms]
    bitmap_alloc.release_marked [of b' r cnt] by auto

theorem bitmap_alloc_release_roundtrip_witness:
  "\<exists>r b'. bitmap_scan_and_flip \<lparr>bit_cnt = 40, bits = [7, 0]\<rparr> 0 2 False = Some (r, b') \<and>
     bitmap_all b' r 2 = Some True"
proof -
  let ?b = "\<lparr>bit_cnt = 40, bits = [7, 0]\<rparr> :: bitmap"
  have ok: "bitmap_ok ?b" by (simp add: bitmap_ok_def elem_cnt_def DIV_ROUND_UP_def ELEM_BITS_def)
  obtain b' where "bitmap_scan_and_flip ?b 0 2 False = Some (3, b')"
    by (simp add: bitmap_scan_and_flip_def bitmap_scan_def scan_loop.simps bitmap_contains_def
        contains_loop.simps bitmap_test_def bitmap_set_multiple_def for_loop.simps bitmap_set_def
        bitmap_mark_def elem_idx_def bit_mask_def ELEM_BITS_def BITMAP_ERROR_def SIZE_MAX_def)
  with bitmap_alloc_release_roundtrip [OF ok this] show ?thesis
    by (auto simp: BITMAP_ERROR_def SIZE_MAX_def)
qed

end
