(* ===== verification/KList.thy ===== *)
theory KList
  imports Prelude
begin

text \<open>
  \<open>lib/kernel/list.c\<close>: doubly linked lists threaded through their elements.  The model
  keeps the pointers: memory maps the address of a \<open>struct list_elem\<close> to its two links,
  and a list is the pair of addresses of its head and tail elements.  Loops that follow
  links are \<open>partial_function\<close>s, since they need not end on a corrupted list; the
  lemmas show that they do return on a well-formed one.  \<open>is_list h L xs\<close> relates a
  memory to the sequence of addresses it represents, and each operation is shown to
  implement the corresponding operation on sequences.
\<close>

section \<open>Memory\<close>

record list_elem =
  e_prev :: nat
  e_next :: nat

type_synonym heap = "nat \<Rightarrow> list_elem"

record klist =
  head :: nat
  tail :: nat

abbreviation (input) NULL :: nat where
  "NULL \<equiv> 0"

text \<open>Writing through a pointer; the null pointer cannot be written through.\<close>

definition set_prev :: "heap \<Rightarrow> nat \<Rightarrow> nat \<Rightarrow> heap option" where
  "set_prev h p q = (if p = NULL then None else Some (h(p := (h p)\<lparr>e_prev := q\<rparr>)))"

definition set_next :: "heap \<Rightarrow> nat \<Rightarrow> nat \<Rightarrow> heap option" where
  "set_next h p q = (if p = NULL then None else Some (h(p := (h p)\<lparr>e_next := q\<rparr>)))"

section \<open>Operations\<close>

definition is_head :: "heap \<Rightarrow> nat \<Rightarrow> bool" where
  "is_head h elem \<longleftrightarrow> elem \<noteq> NULL \<and> e_prev (h elem) = NULL \<and> e_next (h elem) \<noteq> NULL"

definition is_interior :: "heap \<Rightarrow> nat \<Rightarrow> bool" where
  "is_interior h elem \<longleftrightarrow> elem \<noteq> NULL \<and> e_prev (h elem) \<noteq> NULL \<and> e_next (h elem) \<noteq> NULL"

definition is_tail :: "heap \<Rightarrow> nat \<Rightarrow> bool" where
  "is_tail h elem \<longleftrightarrow> elem \<noteq> NULL \<and> e_prev (h elem) \<noteq> NULL \<and> e_next (h elem) = NULL"

definition list_init :: "heap \<Rightarrow> klist \<Rightarrow> heap option" where
  "list_init h L = do {
     h \<leftarrow> set_prev h (head L) NULL;
     h \<leftarrow> set_next h (head L) (tail L);
     h \<leftarrow> set_prev h (tail L) (head L);
     set_next h (tail L) NULL }"

definition list_begin :: "heap \<Rightarrow> klist \<Rightarrow> nat" where
  "list_begin h L = e_next (h (head L))"

definition list_next :: "heap \<Rightarrow> nat \<Rightarrow> nat option" where
  "list_next h elem = do { ASSERT (is_head h elem \<or> is_interior h elem); Some (e_next (h elem)) }"

definition list_end :: "klist \<Rightarrow> nat" where
  "list_end L = tail L"

definition list_rbegin :: "heap \<Rightarrow> klist \<Rightarrow> nat" where
  "list_rbegin h L = e_prev (h (tail L))"

definition list_prev :: "heap \<Rightarrow> nat \<Rightarrow> nat option" where
  "list_prev h elem = do { ASSERT (is_interior h elem \<or> is_tail h elem); Some (e_prev (h elem)) }"

definition list_rend :: "klist \<Rightarrow> nat" where
  "list_rend L = head L"

definition list_head :: "klist \<Rightarrow> nat" where
  "list_head L = head L"

definition list_tail :: "klist \<Rightarrow> nat" where
  "list_tail L = tail L"

definition list_insert :: "heap \<Rightarrow> nat \<Rightarrow> nat \<Rightarrow> heap option" where
  "list_insert h before elem = do {
     ASSERT (is_interior h before \<or> is_tail h before);
     ASSERT (elem \<noteq> NULL);
     h \<leftarrow> set_prev h elem (e_prev (h before));
     h \<leftarrow> set_next h elem before;
     h \<leftarrow> set_next h (e_prev (h before)) elem;
     set_prev h before elem }"

definition list_splice :: "heap \<Rightarrow> nat \<Rightarrow> nat \<Rightarrow> nat \<Rightarrow> heap option" where
  "list_splice h before first lst = do {
     ASSERT (is_interior h before \<or> is_tail h before);
     if first = lst then Some h
     else do {
       lst \<leftarrow> list_prev h lst;
       ASSERT (is_interior h first);
       ASSERT (is_interior h lst);
       h \<leftarrow> set_next h (e_prev (h first)) (e_next (h lst));
       h \<leftarrow> set_prev h (e_next (h lst)) (e_prev (h first));
       h \<leftarrow> set_prev h first (e_prev (h before));
       h \<leftarrow> set_next h lst before;
       h \<leftarrow> set_next h (e_prev (h before)) first;
       set_prev h before lst } }"

definition list_push_front :: "heap \<Rightarrow> klist \<Rightarrow> nat \<Rightarrow> heap option" where
  "list_push_front h L elem = list_insert h (list_begin h L) elem"

definition list_push_back :: "heap \<Rightarrow> klist \<Rightarrow> nat \<Rightarrow> heap option" where
  "list_push_back h L elem = list_insert h (list_end L) elem"

definition list_remove :: "heap \<Rightarrow> nat \<Rightarrow> (nat \<times> heap) option" where
  "list_remove h elem = do {
     ASSERT (is_interior h elem);
     h \<leftarrow> set_next h (e_prev (h elem)) (e_next (h elem));
     h \<leftarrow> set_prev h (e_next (h elem)) (e_prev (h elem));
     Some (e_next (h elem), h) }"

definition list_empty :: "heap \<Rightarrow> klist \<Rightarrow> bool" where
  "list_empty h L \<longleftrightarrow> list_begin h L = list_end L"

definition list_front :: "heap \<Rightarrow> klist \<Rightarrow> nat option" where
  "list_front h L = do { ASSERT (\<not> list_empty h L); Some (e_next (h (head L))) }"

definition list_back :: "heap \<Rightarrow> klist \<Rightarrow> nat option" where
  "list_back h L = do { ASSERT (\<not> list_empty h L); Some (e_prev (h (tail L))) }"

definition list_pop_front :: "heap \<Rightarrow> klist \<Rightarrow> (nat \<times> heap) option" where
  "list_pop_front h L = do {
     front \<leftarrow> list_front h L;
     (_, h) \<leftarrow> list_remove h front;
     Some (front, h) }"

definition list_pop_back :: "heap \<Rightarrow> klist \<Rightarrow> (nat \<times> heap) option" where
  "list_pop_back h L = do {
     back \<leftarrow> list_back h L;
     (_, h) \<leftarrow> list_remove h back;
     Some (back, h) }"

partial_function (option) size_loop :: "heap \<Rightarrow> klist \<Rightarrow> nat \<Rightarrow> nat \<Rightarrow> nat option" where
  "size_loop h L e cnt =
     (if e \<noteq> list_end L
      then do { e' \<leftarrow> list_next h e; size_loop h L e' (wrap32 (cnt + 1)) }
      else Some cnt)"

definition list_size :: "heap \<Rightarrow> klist \<Rightarrow> nat option" where
  "list_size h L = size_loop h L (list_begin h L) 0"

text \<open>The loop of \<open>list_reverse\<close> swaps the links of an element, then follows \<open>prev\<close>.\<close>

definition swap_links :: "heap \<Rightarrow> nat \<Rightarrow> heap option" where
  "swap_links h e = do {
     let n = e_next (h e);
     h \<leftarrow> set_next h e (e_prev (h e));
     set_prev h e n }"

partial_function (option) reverse_loop :: "heap \<Rightarrow> klist \<Rightarrow> nat \<Rightarrow> heap option" where
  "reverse_loop h L e =
     (if e \<noteq> list_end L
      then do { h \<leftarrow> swap_links h e; reverse_loop h L (e_prev (h e)) }
      else Some h)"

definition list_reverse :: "heap \<Rightarrow> klist \<Rightarrow> heap option" where
  "list_reverse h L =
     (if \<not> list_empty h L
      then do {
        h \<leftarrow> reverse_loop h L (list_begin h L);
        let t = e_next (h (head L));
        h \<leftarrow> set_next h (head L) (e_prev (h (tail L)));
        h \<leftarrow> set_prev h (tail L) t;
        let t = e_prev (h (e_next (h (head L))));
        let q = e_prev (h (tail L));
        h \<leftarrow> set_prev h (e_next (h (head L))) (e_next (h q));
        set_next h q t }
      else Some h)"

section \<open>Ordered operations\<close>

text \<open>A comparison function, \<^verbatim>\<open>less\<close> in the source, sees addresses; its auxiliary data is part of it.\<close>

type_synonym list_less_func = "nat \<Rightarrow> nat \<Rightarrow> bool"

partial_function (option) is_sorted_loop :: "heap \<Rightarrow> nat \<Rightarrow> nat \<Rightarrow> list_less_func \<Rightarrow> bool option" where
  "is_sorted_loop h a b lt = do {
     a \<leftarrow> list_next h a;
     if a \<noteq> b
     then do {
       p \<leftarrow> list_prev h a;
       if lt a p then Some False else is_sorted_loop h a b lt }
     else Some True }"

definition is_sorted :: "heap \<Rightarrow> nat \<Rightarrow> nat \<Rightarrow> list_less_func \<Rightarrow> bool option" where
  "is_sorted h a b lt = (if a \<noteq> b then is_sorted_loop h a b lt else Some True)"

partial_function (option) run_loop :: "heap \<Rightarrow> nat \<Rightarrow> nat \<Rightarrow> list_less_func \<Rightarrow> nat option" where
  "run_loop h a b lt = do {
     a \<leftarrow> list_next h a;
     if a \<noteq> b
     then do {
       p \<leftarrow> list_prev h a;
       if \<not> lt a p then run_loop h a b lt else Some a }
     else Some a }"

definition find_end_of_run :: "heap \<Rightarrow> nat \<Rightarrow> nat \<Rightarrow> list_less_func \<Rightarrow> nat option" where
  "find_end_of_run h a b lt = do {
     ASSERT (a \<noteq> NULL);
     ASSERT (b \<noteq> NULL);
     ASSERT (a \<noteq> b);
     run_loop h a b lt }"

partial_function (option) merge_loop :: "heap \<Rightarrow> nat \<Rightarrow> nat \<Rightarrow> nat \<Rightarrow> list_less_func \<Rightarrow> heap option" where
  "merge_loop h a0 a1b0 b1 lt =
     (if a0 \<noteq> a1b0 \<and> a1b0 \<noteq> b1
      then if \<not> lt a1b0 a0
           then do { a0 \<leftarrow> list_next h a0; merge_loop h a0 a1b0 b1 lt }
           else do {
             a1b0 \<leftarrow> list_next h a1b0;
             x \<leftarrow> list_prev h a1b0;
             h \<leftarrow> list_splice h a0 x a1b0;
             merge_loop h a0 a1b0 b1 lt }
      else Some h)"

definition inplace_merge :: "heap \<Rightarrow> nat \<Rightarrow> nat \<Rightarrow> nat \<Rightarrow> list_less_func \<Rightarrow> heap option" where
  "inplace_merge h a0 a1b0 b1 lt = do {
     ASSERT (a0 \<noteq> NULL);
     ASSERT (a1b0 \<noteq> NULL);
     ASSERT (b1 \<noteq> NULL);
     s1 \<leftarrow> is_sorted h a0 a1b0 lt;
     ASSERT s1;
     s2 \<leftarrow> is_sorted h a1b0 b1 lt;
     ASSERT s2;
     merge_loop h a0 a1b0 b1 lt }"

text \<open>One pass of \<open>list_sort\<close> over the list, then the passes until one run is left.\<close>

partial_function (option) sort_pass :: "heap \<Rightarrow> klist \<Rightarrow> list_less_func \<Rightarrow> nat \<Rightarrow> nat \<Rightarrow> (heap \<times> nat) option" where
  "sort_pass h L lt a0 output_run_cnt =
     (if a0 \<noteq> list_end L
      then do {
        let output_run_cnt = wrap32 (output_run_cnt + 1);
        a1b0 \<leftarrow> find_end_of_run h a0 (list_end L) lt;
        if a1b0 = list_end L then Some (h, output_run_cnt)
        else do {
          b1 \<leftarrow> find_end_of_run h a1b0 (list_end L) lt;
          h \<leftarrow> inplace_merge h a0 a1b0 b1 lt;
          sort_pass h L lt b1 output_run_cnt } }
      else Some (h, output_run_cnt))"

partial_function (option) sort_loop :: "heap \<Rightarrow> klist \<Rightarrow> list_less_func \<Rightarrow> heap option" where
  "sort_loop h L lt = do {
     r \<leftarrow> sort_pass h L lt (list_begin h L) 0;
     if snd r > 1 then sort_loop (fst r) L lt else Some (fst r) }"

definition list_sort :: "heap \<Rightarrow> klist \<Rightarrow> list_less_func \<Rightarrow> heap option" where
  "list_sort h L lt = do {
     h \<leftarrow> sort_loop h L lt;
     s \<leftarrow> is_sorted h (list_begin h L) (list_end L) lt;
     ASSERT s;
     Some h }"

partial_function (option) insert_pos :: "heap \<Rightarrow> klist \<Rightarrow> nat \<Rightarrow> list_less_func \<Rightarrow> nat \<Rightarrow> nat option" where
  "insert_pos h L elem lt e =
     (if e \<noteq> list_end L \<and> \<not> lt elem e
      then do { e \<leftarrow> list_next h e; insert_pos h L elem lt e }
      else Some e)"

definition list_insert_ordered :: "heap \<Rightarrow> klist \<Rightarrow> nat \<Rightarrow> list_less_func \<Rightarrow> heap option" where
  "list_insert_ordered h L elem lt = do {
     ASSERT (elem \<noteq> NULL);
     e \<leftarrow> insert_pos h L elem lt (list_begin h L);
     list_insert h e elem }"

text \<open>\<open>duplicates\<close> is a list, or \<open>None\<close> for the null pointer.\<close>

partial_function (option) unique_loop :: "heap \<Rightarrow> klist \<Rightarrow> klist option \<Rightarrow> list_less_func \<Rightarrow> nat \<Rightarrow> heap option" where
  "unique_loop h L duplicates lt elem = do {
     nxt \<leftarrow> list_next h elem;
     if nxt \<noteq> list_end L
     then if \<not> lt elem nxt \<and> \<not> lt nxt elem
          then do {
            r \<leftarrow> list_remove h nxt;
            h \<leftarrow> (case duplicates of None \<Rightarrow> Some (snd r) | Some D \<Rightarrow> list_push_back (snd r) D nxt);
            unique_loop h L duplicates lt elem }
          else unique_loop h L duplicates lt nxt
     else Some h }"

definition list_unique :: "heap \<Rightarrow> klist \<Rightarrow> klist option \<Rightarrow> list_less_func \<Rightarrow> heap option" where
  "list_unique h L duplicates lt =
     (if list_empty h L then Some h
      else unique_loop h L duplicates lt (list_begin h L))"

partial_function (option) max_loop :: "heap \<Rightarrow> klist \<Rightarrow> list_less_func \<Rightarrow> nat \<Rightarrow> nat \<Rightarrow> nat option" where
  "max_loop h L lt m e =
     (if e \<noteq> list_end L
      then do { e' \<leftarrow> list_next h e; max_loop h L lt (if lt m e then e else m) e' }
      else Some m)"

definition list_max :: "heap \<Rightarrow> klist \<Rightarrow> list_less_func \<Rightarrow> nat option" where
  "list_max h L lt =
     (if list_begin h L \<noteq> list_end L
      then do { e \<leftarrow> list_next h (list_begin h L); max_loop h L lt (list_begin h L) e }
      else Some (list_begin h L))"

partial_function (option) min_loop :: "heap \<Rightarrow> klist \<Rightarrow> list_less_func \<Rightarrow> nat \<Rightarrow> nat \<Rightarrow> nat option" where
  "min_loop h L lt m e =
     (if e \<noteq> list_end L
      then do { e' \<leftarrow> list_next h e; min_loop h L lt (if lt e m then e else m) e' }
      else Some m)"

definition list_min :: "heap \<Rightarrow> klist \<Rightarrow> list_less_func \<Rightarrow> nat option" where
  "list_min h L lt =
     (if list_begin h L \<noteq> list_end L
      then do { e \<leftarrow> list_next h (list_begin h L); min_loop h L lt (list_begin h L) e }
      else Some (list_begin h L))"

section \<open>Well-formed lists\<close>

lemma in_set_tlD: "x \<in> set (tl xs) \<Longrightarrow> x \<in> set xs"
  by (cases xs) auto

fun linked :: "heap \<Rightarrow> nat list \<Rightarrow> bool" where
  "linked h [] \<longleftrightarrow> True"
| "linked h [a] \<longleftrightarrow> True"
| "linked h (a # b # ns) \<longleftrightarrow> e_next (h a) = b \<and> e_prev (h b) = a \<and> linked h (b # ns)"

lemma linked_split:
  "linked h (us @ p # b # vs) \<longleftrightarrow>
   linked h (us @ [p]) \<and> e_next (h p) = b \<and> e_prev (h b) = p \<and> linked h (b # vs)"
  by (induction us rule: induct_list012) auto

lemma linked_cong:
  assumes "\<And>a. a \<in> set (butlast ns) \<Longrightarrow> e_next (h' a) = e_next (h a)"
    and "\<And>a. a \<in> set (tl ns) \<Longrightarrow> e_prev (h' a) = e_prev (h a)"
  shows "linked h' ns = linked h ns"
  using assms by (induction h ns rule: linked.induct) auto

text \<open>The nodes of a list, from its head element to its tail element.\<close>

definition is_nodes :: "heap \<Rightarrow> nat list \<Rightarrow> bool" where
  "is_nodes h ns \<longleftrightarrow> linked h ns \<and> distinct ns \<and> NULL \<notin> set ns \<and> 2 \<le> length ns \<and>
     e_prev (h (hd ns)) = NULL \<and> e_next (h (last ns)) = NULL"

definition is_list :: "heap \<Rightarrow> klist \<Rightarrow> nat list \<Rightarrow> bool" where
  "is_list h L xs \<longleftrightarrow> is_nodes h (head L # xs @ [tail L])"

lemma is_nodes_interior:
  assumes "is_nodes h (us @ p # b # c # vs)"
  shows "is_interior h b" "e_prev (h b) = p" "e_next (h b) = c"
  using assms linked_split [of h "us" p b "c # vs"]
  by (auto simp: is_nodes_def is_interior_def)

lemma is_nodes_tail:
  assumes "is_nodes h (us @ [p, b])"
  shows "is_tail h b" "e_prev (h b) = p"
  using assms linked_split [of h "us" p b "[]"]
  by (auto simp: is_nodes_def is_tail_def)

lemma is_nodes_head:
  assumes "is_nodes h (a # b # vs)"
  shows "is_head h a" "e_next (h a) = b"
  using assms by (auto simp: is_nodes_def is_head_def)

lemma is_nodes_not_first:
  assumes "is_nodes h (us @ p # b # vs)"
  shows "is_interior h b \<or> is_tail h b" "e_prev (h b) = p"
  using assms is_nodes_interior [of h us p b] is_nodes_tail [of h us p b]
  by (cases vs; auto)+

lemma is_nodes_not_last:
  assumes "is_nodes h (us @ b # c # vs)"
  shows "is_head h b \<or> is_interior h b" "e_next (h b) = c"
proof -
  have "(is_head h b \<or> is_interior h b) \<and> e_next (h b) = c"
  proof (cases us rule: rev_cases)
    case Nil
    with assms is_nodes_head [of h b c vs] show ?thesis by simp
  next
    case (snoc us' p)
    with assms is_nodes_interior [of h us' p b c vs] show ?thesis by simp
  qed
  then show "is_head h b \<or> is_interior h b" "e_next (h b) = c" by auto
qed

lemma list_next_nodes: "is_nodes h (us @ b # c # vs) \<Longrightarrow> list_next h b = Some c"
  using is_nodes_not_last [of h us b c vs] by (simp add: list_next_def)

lemma list_prev_nodes: "is_nodes h (us @ p # b # vs) \<Longrightarrow> list_prev h b = Some p"
  using is_nodes_not_first [of h us p b vs] by (simp add: list_prev_def)

lemma list_insert_nodes:
  assumes "is_nodes h (us @ p # b # vs)" "e \<notin> set (us @ p # b # vs)" "e \<noteq> NULL"
  shows "\<exists>h'. list_insert h b e = Some h' \<and> is_nodes h' (us @ p # e # b # vs) \<and>
     (\<forall>a. a \<notin> {p, e, b} \<longrightarrow> h' a = h a)"
proof -
  note nf = is_nodes_not_first [OF assms(1)]
  from assms have ne: "p \<noteq> b" "p \<noteq> e" "b \<noteq> e" "p \<noteq> NULL" "b \<noteq> NULL"
    by (auto simp: is_nodes_def)
  define h1 where "h1 = h(e := \<lparr>e_prev = p, e_next = b\<rparr>, p := (h p)\<lparr>e_next := e\<rparr>, b := (h b)\<lparr>e_prev := e\<rparr>)"
  have ins: "list_insert h b e = Some h1"
    using nf ne assms(3)
    by (auto simp: list_insert_def set_prev_def set_next_def h1_def fun_eq_iff)
  have l: "linked h (us @ [p])" "linked h (b # vs)" and d: "distinct (us @ p # b # vs)"
    using assms(1) by (simp_all add: is_nodes_def linked_split)
  have l1: "linked h1 (us @ [p])"
    using l(1) d ne assms(2) by (subst linked_cong [where h = h]) (auto simp: h1_def dest: in_set_tlD split: if_splits)
  have l2: "linked h1 (b # vs)"
    using l(2) d ne assms(2) by (subst linked_cong [where h = h]) (auto simp: h1_def dest: in_set_butlastD split: if_splits)
  have "linked h1 (us @ p # e # b # vs)"
    using l1 l2 ne linked_split [of h1 us p e "b # vs"] by (simp add: h1_def)
  moreover have "e_prev (h1 (hd (us @ p # e # b # vs))) = NULL"
    using assms ne by (cases us) (auto simp: is_nodes_def h1_def)
  moreover have "e_next (h1 (last (us @ p # e # b # vs))) = NULL"
    using assms ne d by (cases vs rule: rev_cases) (auto simp: is_nodes_def h1_def)
  ultimately have "is_nodes h1 (us @ p # e # b # vs)"
    using assms by (auto simp: is_nodes_def)
  with ins show ?thesis by (auto simp: h1_def)
qed

lemma list_remove_nodes:
  assumes "is_nodes h (us @ p # e # b # vs)"
  shows "\<exists>h'. list_remove h e = Some (b, h') \<and> is_nodes h' (us @ p # b # vs) \<and>
     (\<forall>a. a \<notin> {p, b} \<longrightarrow> h' a = h a)"
proof -
  note int = is_nodes_interior [OF assms]
  from assms have d: "distinct (us @ p # e # b # vs)" and ne: "p \<noteq> NULL" "b \<noteq> NULL"
    by (auto simp: is_nodes_def)
  define h1 where "h1 = h(p := (h p)\<lparr>e_next := b\<rparr>, b := (h b)\<lparr>e_prev := p\<rparr>)"
  have rem: "list_remove h e = Some (b, h1)"
    using int d ne by (auto simp: list_remove_def set_prev_def set_next_def h1_def)
  have l: "linked h (us @ [p])" "linked h (b # vs)"
    using assms linked_split [of h us p e "b # vs"] by (simp_all add: is_nodes_def)
  have l1: "linked h1 (us @ [p])"
    using l(1) d by (subst linked_cong [where h = h]) (auto simp: h1_def dest: in_set_tlD split: if_splits)
  have l2: "linked h1 (b # vs)"
    using l(2) d by (subst linked_cong [where h = h]) (auto simp: h1_def dest: in_set_butlastD split: if_splits)
  have "linked h1 (us @ p # b # vs)"
    using l1 l2 d by (simp add: linked_split h1_def)
  moreover have "e_prev (h1 (hd (us @ p # b # vs))) = NULL"
    using assms d by (cases us) (auto simp: is_nodes_def h1_def)
  moreover have "e_next (h1 (last (us @ p # b # vs))) = NULL"
    using assms d by (cases vs rule: rev_cases) (auto simp: is_nodes_def h1_def)
  ultimately have "is_nodes h1 (us @ p # b # vs)"
    using assms by (auto simp: is_nodes_def)
  with rem show ?thesis by (auto simp: h1_def)
qed

lemma linked_append:
  "linked h (xs @ ys) \<longleftrightarrow> linked h xs \<and> linked h ys \<and>
     (xs \<noteq> [] \<and> ys \<noteq> [] \<longrightarrow> e_next (h (last xs)) = hd ys \<and> e_prev (h (hd ys)) = last xs)"
proof (cases xs rule: rev_cases)
  case (snoc us p)
  then show ?thesis by (cases ys) (auto simp: linked_split)
qed simp

lemma splice_pointers:
  assumes bef: "is_interior h a \<or> is_tail h a" "e_prev (h a) = p"
    and fst: "e_prev (h x) = la" "is_interior h x"
    and lst: "e_next (h y) = r" "list_prev h r = Some y" "is_interior h y"
    and dn: "p \<noteq> a" "p \<noteq> la" "p \<noteq> x" "p \<noteq> y" "p \<noteq> r" "r \<noteq> a" "r \<noteq> la" "r \<noteq> x" "r \<noteq> y"
      "a \<noteq> x" "a \<noteq> y" "la \<noteq> x" "la \<noteq> y"
    and zn: "p \<noteq> 0" "r \<noteq> 0" "a \<noteq> 0" "la \<noteq> 0" "x \<noteq> 0" "y \<noteq> 0"
  shows "\<exists>h'. list_splice h a x r = Some h' \<and>
     (\<forall>n. e_next (h' n) = (if n = la then r else if n = y then a else if n = p then x else e_next (h n))) \<and>
     (\<forall>n. e_prev (h' n) = (if n = r then la else if n = x then p else if n = a then y else e_prev (h n)))"
proof -
  let ?h1 = "h(la := (h la)\<lparr>e_next := r\<rparr>)"
  let ?h2 = "?h1(r := (?h1 r)\<lparr>e_prev := la\<rparr>)"
  let ?h3 = "?h2(x := (?h2 x)\<lparr>e_prev := p\<rparr>)"
  let ?h4 = "?h3(y := (?h3 y)\<lparr>e_next := a\<rparr>)"
  let ?h5 = "?h4(p := (?h4 p)\<lparr>e_next := x\<rparr>)"
  let ?h6 = "?h5(a := (?h5 a)\<lparr>e_prev := y\<rparr>)"
  have f: "e_prev (?h1 x) = la" "e_next (?h1 y) = r"
    using fst(1) lst(1) dn(12,13) by simp_all
  have g: "e_prev (?h2 a) = p" "e_prev (?h4 a) = p"
    using bef(2) dn(6,10,11) by (cases "a = la"; simp)+
  have "list_splice h a x r = Some ?h6"
    unfolding list_splice_def using bef fst lst zn f g dn(8)
    by (simp del: fun_upd_apply add: set_prev_def set_next_def)
  moreover have "e_next (?h6 n) = (if n = la then r else if n = y then a else if n = p then x else e_next (h n))" for n
    using dn by simp
  moreover have "e_prev (?h6 n) = (if n = r then la else if n = x then p else if n = a then y else e_prev (h n))" for n
    using dn by simp
  ultimately show ?thesis by blast
qed

text \<open>Moving a range of elements in front of an earlier element of the same list.\<close>

lemma list_splice_fields:
  assumes "is_nodes h (us @ p # as @ ms @ r # vs)" "as \<noteq> []" "ms \<noteq> []"
  shows "\<exists>h'. list_splice h (hd as) (hd ms) r = Some h' \<and>
     (\<forall>n. e_next (h' n) = (if n = last as then r else if n = last ms then hd as
                           else if n = p then hd ms else e_next (h n))) \<and>
     (\<forall>n. e_prev (h' n) = (if n = r then last as else if n = hd ms then p
                           else if n = hd as then last ms else e_prev (h n)))"
proof -
  let ?a = "hd as" and ?la = "last as" and ?x = "hd ms" and ?y = "last ms"
  obtain as' where as: "as = ?a # as'" using assms(2) by (cases as) auto
  obtain ms' where ms: "ms = ?x # ms'" using assms(3) by (cases ms) auto
  obtain as2 where as2: "as = as2 @ [?la]" using assms(2) by (metis append_butlast_last_id)
  obtain ms2 where ms2: "ms = ms2 @ [?y]" using assms(3) by (metis append_butlast_last_id)
  from assms(1) have n1: "is_nodes h (us @ p # ?a # as' @ ms @ r # vs)"
    by (subst (asm) as) simp
  from assms(1) have n2: "is_nodes h ((us @ p # as2) @ ?la # ?x # ms' @ r # vs)"
    by (subst (asm) as2, subst (asm) ms) simp
  from assms(1) have n3: "is_nodes h ((us @ p # as @ ms2) @ ?y # r # vs)"
    by (subst (asm) ms2) simp
  note bef = is_nodes_not_first [OF n1]
  have fst: "e_prev (h ?x) = ?la" "is_interior h ?x"
    using is_nodes_not_first [OF n2] is_nodes_interior(1)[of h "us @ p # as2" ?la ?x] n2
    by (cases ms'; auto)+
  have lst: "e_next (h ?y) = r" "list_prev h r = Some ?y" "is_interior h ?y"
  proof -
    show "e_next (h ?y) = r" using is_nodes_not_last [OF n3] by blast
    show "list_prev h r = Some ?y" by (rule list_prev_nodes [OF n3])
    have "e_prev (h ?y) \<noteq> NULL"
    proof (cases ms2 rule: rev_cases)
      case Nil
      with fst n2 ms2 ms show ?thesis by (metis append_Nil is_interior_def list.sel(1))
    next
      case (snoc ms3 q)
      then have "is_nodes h ((us @ p # as @ ms3) @ q # ?y # r # vs)" using n3 by simp
      from is_nodes_interior(1) [OF this] show ?thesis by (simp add: is_interior_def)
    qed
    then show "is_interior h ?y"
      using is_nodes_not_last [OF n3] by (auto simp: is_head_def)
  qed
  have d: "p \<notin> set as" "p \<notin> set ms" "r \<notin> set as" "r \<notin> set ms" "p \<noteq> r" "set as \<inter> set ms = {}"
    and z: "p \<noteq> 0" "r \<noteq> 0" "0 \<notin> set as" "0 \<notin> set ms"
    using assms(1) by (auto simp: is_nodes_def)
  have mem: "?a \<in> set as" "?la \<in> set as" "?x \<in> set ms" "?y \<in> set ms" using assms(2,3) by auto
  have dn: "p \<noteq> ?a" "p \<noteq> ?la" "p \<noteq> ?x" "p \<noteq> ?y" "p \<noteq> r" "r \<noteq> ?a" "r \<noteq> ?la" "r \<noteq> ?x" "r \<noteq> ?y"
    "?a \<noteq> ?x" "?a \<noteq> ?y" "?la \<noteq> ?x" "?la \<noteq> ?y"
    and zn: "p \<noteq> 0" "r \<noteq> 0" "?a \<noteq> 0" "?la \<noteq> 0" "?x \<noteq> 0" "?y \<noteq> 0"
    using d z mem by (metis IntI empty_iff)+
  show ?thesis
    by (rule splice_pointers [OF bef fst lst dn zn])
qed

lemma butlast_neq_last: "distinct xs \<Longrightarrow> a \<in> set (butlast xs) \<Longrightarrow> a \<noteq> last xs"
  by (cases xs rule: rev_cases) auto

lemma tl_neq_hd: "distinct xs \<Longrightarrow> a \<in> set (tl xs) \<Longrightarrow> a \<noteq> hd xs"
  by (cases xs) auto

lemma linked_keep:
  assumes "linked h ns" "distinct ns"
    and "\<And>a. a \<in> set ns \<Longrightarrow> a \<noteq> last ns \<Longrightarrow> e_next (h' a) = e_next (h a)"
    and "\<And>a. a \<in> set ns \<Longrightarrow> a \<noteq> hd ns \<Longrightarrow> e_prev (h' a) = e_prev (h a)"
  shows "linked h' ns"
  using assms linked_cong [of ns h' h] butlast_neq_last [of ns] tl_neq_hd [of ns]
  by (metis in_set_butlastD in_set_tlD)

lemma list_splice_nodes:
  assumes "is_nodes h (us @ p # as @ ms @ r # vs)" "as \<noteq> []" "ms \<noteq> []"
  shows "\<exists>h'. list_splice h (hd as) (hd ms) r = Some h' \<and> is_nodes h' (us @ p # ms @ as @ r # vs) \<and>
     (\<forall>a. a \<notin> set (p # as @ ms @ [r]) \<longrightarrow> h' a = h a)"
proof -
  obtain h' where sp: "list_splice h (hd as) (hd ms) r = Some h'"
    and nx: "\<And>n. e_next (h' n) = (if n = last as then r else if n = last ms then hd as
                           else if n = p then hd ms else e_next (h n))"
    and pv: "\<And>n. e_prev (h' n) = (if n = r then last as else if n = hd ms then p
                           else if n = hd as then last ms else e_prev (h n))"
    using list_splice_fields [OF assms] by blast
  have mem: "hd as \<in> set as" "last as \<in> set as" "hd ms \<in> set ms" "last ms \<in> set ms"
    using assms(2,3) by auto
  have d: "distinct (us @ p # as @ ms @ r # vs)" using assms(1) by (simp add: is_nodes_def)
  have "linked h ((us @ [p]) @ as @ ms @ r # vs)" using assms(1) by (simp add: is_nodes_def)
  then have l: "linked h (us @ [p])" "linked h as" "linked h ms" "linked h (r # vs)"
    unfolding linked_append by blast+
  have d': "distinct (us @ [p])" "distinct as" "distinct ms" "distinct (r # vs)"
    "set (us @ [p]) \<inter> set as = {}" "set (us @ [p]) \<inter> set ms = {}" "set (us @ [p]) \<inter> set (r # vs) = {}"
    "set as \<inter> set ms = {}" "set as \<inter> set (r # vs) = {}" "set ms \<inter> set (r # vs) = {}"
    using d by auto
  have "linked h' (us @ [p])"
    by (rule linked_keep [OF l(1) d'(1)]) (use d' mem in \<open>auto simp: nx pv\<close>)
  moreover have "linked h' as"
    by (rule linked_keep [OF l(2) d'(2)]) (use d' mem in \<open>auto simp: nx pv\<close>)
  moreover have "linked h' ms"
    by (rule linked_keep [OF l(3) d'(3)]) (use d' mem in \<open>auto simp: nx pv\<close>)
  moreover have "linked h' (r # vs)"
    by (rule linked_keep [OF l(4) d'(4)]) (use d' mem in \<open>auto simp: nx pv\<close>)
  moreover have "p \<noteq> last as" "p \<noteq> last ms" "last as \<noteq> last ms" "hd as \<noteq> r" "hd as \<noteq> hd ms" "hd ms \<noteq> r"
    using d' mem by auto
  ultimately have "linked h' ((us @ [p]) @ ms @ as @ r # vs)"
    using assms(2,3) linked_append [of h' as "r # vs"] linked_append [of h' ms "as @ r # vs"]
      linked_append [of h' "us @ [p]" "ms @ as @ r # vs"] by (simp add: nx pv)
  moreover have "e_prev (h' (hd (us @ p # ms @ as @ r # vs))) = NULL"
    using assms(1) d mem by (cases us) (auto simp: is_nodes_def pv)
  moreover have "e_next (h' (last (us @ p # ms @ as @ r # vs))) = NULL"
    using assms(1) d mem by (cases vs rule: rev_cases) (auto simp: is_nodes_def nx)
  ultimately have "is_nodes h' (us @ p # ms @ as @ r # vs)"
    using assms(1) by (auto simp: is_nodes_def)
  moreover have "h' a = h a" if "a \<notin> set (p # as @ ms @ [r])" for a
    using that mem by (intro list_elem.equality) (auto simp: nx pv)
  ultimately show ?thesis using sp by blast
qed

section \<open>The operations on sequences\<close>

lemma is_list_cut:
  assumes "is_list h L (xs @ ys)"
  obtains us p b vs where "head L # xs = us @ [p]" "ys @ [tail L] = b # vs" "is_nodes h (us @ p # b # vs)"
proof -
  obtain us p where u: "head L # xs = us @ [p]" by (metis list.distinct(1) rev_exhaust)
  obtain b vs where b: "ys @ [tail L] = b # vs" by (cases ys) auto
  from assms have "is_nodes h ((head L # xs) @ (ys @ [tail L]))" by (simp add: is_list_def)
  with u b that show ?thesis by simp
qed

definition list_nodes :: "klist \<Rightarrow> nat list \<Rightarrow> nat set" where
  "list_nodes L xs = insert (head L) (insert (tail L) (set xs))"

lemma is_list_frame:
  assumes "is_list h L xs" "\<And>a. a \<in> list_nodes L xs \<Longrightarrow> h' a = h a"
  shows "is_list h' L xs"
proof -
  let ?ns = "head L # xs @ [tail L]"
  from assms(2) have eq: "h' a = h a" if "a \<in> set ?ns" for a using that by (auto simp: list_nodes_def)
  have "linked h' ?ns = linked h ?ns"
    by (rule linked_cong) (auto dest!: in_set_butlastD in_set_tlD simp: eq)
  moreover have "h' (hd ?ns) = h (hd ?ns)" "h' (last ?ns) = h (last ?ns)"
    using eq by simp_all
  ultimately show ?thesis using assms(1) unfolding is_list_def is_nodes_def by simp
qed

lemma is_list_facts:
  assumes "is_list h L xs"
  shows "distinct xs" "head L \<notin> set xs" "tail L \<notin> set xs" "head L \<noteq> tail L" "NULL \<notin> list_nodes L xs"
  using assms by (auto simp: is_list_def is_nodes_def list_nodes_def)

lemma hd_tail_iff: "is_list h L (xs @ ys) \<Longrightarrow> hd (ys @ [tail L]) = tail L \<longleftrightarrow> ys = []"
  using is_list_facts(3) [of h L "xs @ ys"] by (cases ys) auto

lemma list_next_list: "is_list h L (xs @ x # ys) \<Longrightarrow> list_next h x = Some (hd (ys @ [tail L]))"
  by (cases ys) (auto simp: is_list_def intro: list_next_nodes [of h "head L # xs"])

lemma list_prev_list:
  assumes "is_list h L (xs @ ys)"
  shows "list_prev h (hd (ys @ [tail L])) = Some (last (head L # xs))"
  using assms by (rule is_list_cut) (simp add: list_prev_nodes)

lemma list_begin_list: "is_list h L xs \<Longrightarrow> list_begin h L = hd (xs @ [tail L])"
  using is_nodes_head [of h "head L"]
  by (cases xs) (auto simp: is_list_def list_begin_def)

lemma list_empty_list: "is_list h L xs \<Longrightarrow> list_empty h L \<longleftrightarrow> xs = []"
  using hd_tail_iff [of h L "[]" xs] by (simp add: list_empty_def list_end_def list_begin_list)

lemma list_front_list: "is_list h L xs \<Longrightarrow> list_front h L = (if xs = [] then None else Some (hd xs))"
  using list_begin_list [of h L xs]
  by (auto simp: list_front_def list_empty_list list_begin_def)

lemma list_back_list: "is_list h L xs \<Longrightarrow> list_back h L = (if xs = [] then None else Some (last xs))"
  using list_prev_list [of h L xs "[]"]
  by (auto simp: list_back_def list_empty_list list_prev_def)

text \<open>The result of an operation that turns the sequence of \<open>L\<close> into \<open>ys\<close> and touches only the nodes \<open>A\<close>.\<close>

definition list_result :: "heap \<Rightarrow> nat set \<Rightarrow> klist \<Rightarrow> nat list \<Rightarrow> heap option \<Rightarrow> bool" where
  "list_result h A L ys r \<longleftrightarrow> (\<exists>h'. r = Some h' \<and> is_list h' L ys \<and> (\<forall>a. a \<notin> A \<longrightarrow> h' a = h a))"

lemma list_result_mono: "list_result h A L ys r \<Longrightarrow> A \<subseteq> B \<Longrightarrow> list_result h B L ys r"
  by (auto simp: list_result_def)

lemma list_insert_list:
  assumes "is_list h L (xs @ ys)" "e \<notin> list_nodes L (xs @ ys)" "e \<noteq> NULL"
  shows "list_result h (insert e (list_nodes L (xs @ ys))) L (xs @ e # ys)
    (list_insert h (hd (ys @ [tail L])) e)"
  using assms(1)
proof (rule is_list_cut)
  fix us p b vs
  assume u: "head L # xs = us @ [p]" and b: "ys @ [tail L] = b # vs" and n: "is_nodes h (us @ p # b # vs)"
  have s: "list_nodes L (xs @ ys) = set (us @ p # b # vs)"
  proof -
    have "list_nodes L (xs @ ys) = set (head L # xs) \<union> set (ys @ [tail L])"
      by (auto simp: list_nodes_def)
    then show ?thesis unfolding u b by auto
  qed
  have e: "head L # (xs @ e # ys) @ [tail L] = us @ p # e # b # vs"
    using u b by (metis append.assoc append_Cons append_Nil)
  from list_insert_nodes [OF n] assms(2,3) obtain h' where
    "list_insert h b e = Some h'" "is_nodes h' (us @ p # e # b # vs)" "\<forall>a. a \<notin> {p, e, b} \<longrightarrow> h' a = h a"
    unfolding s by blast
  moreover from this have "is_list h' L (xs @ e # ys)" unfolding is_list_def e by blast
  ultimately show ?thesis
    unfolding s using b by (auto simp: list_result_def)
qed

lemma list_remove_list:
  assumes "is_list h L (xs @ e # ys)"
  shows "\<exists>h'. list_remove h e = Some (hd (ys @ [tail L]), h') \<and> is_list h' L (xs @ ys) \<and>
     h' e = h e \<and> (\<forall>a. a \<notin> list_nodes L (xs @ ys) \<longrightarrow> h' a = h a)"
proof -
  obtain us p where u: "head L # xs = us @ [p]" by (metis list.distinct(1) rev_exhaust)
  obtain b vs where b: "ys @ [tail L] = b # vs" by (cases ys) auto
  have "head L # (xs @ e # ys) @ [tail L] = us @ p # e # b # vs"
    using u b by (metis append.assoc append_Cons append_Nil)
  with assms have n: "is_nodes h (us @ p # e # b # vs)" by (simp add: is_list_def)
  have e: "head L # (xs @ ys) @ [tail L] = us @ p # b # vs"
    using u b by (metis append.assoc append_Cons append_Nil)
  have s: "p \<in> list_nodes L (xs @ ys)" "b \<in> list_nodes L (xs @ ys)"
  proof -
    have "list_nodes L (xs @ ys) = set (head L # xs) \<union> set (ys @ [tail L])"
      by (auto simp: list_nodes_def)
    then show "p \<in> list_nodes L (xs @ ys)" "b \<in> list_nodes L (xs @ ys)" unfolding u b by auto
  qed
  have "e \<noteq> p" "e \<noteq> b" using n by (auto simp: is_nodes_def)
  moreover obtain h' where h': "list_remove h e = Some (b, h')" "is_nodes h' (us @ p # b # vs)"
    "\<forall>a. a \<notin> {p, b} \<longrightarrow> h' a = h a"
    using list_remove_nodes [OF n] by blast
  moreover from h'(2) have "is_list h' L (xs @ ys)" unfolding is_list_def e .
  ultimately show ?thesis using b s by auto
qed

lemma list_push_front_list:
  "\<lbrakk>is_list h L xs; e \<notin> list_nodes L xs; e \<noteq> NULL\<rbrakk> \<Longrightarrow>
   list_result h (insert e (list_nodes L xs)) L (e # xs) (list_push_front h L e)"
  using list_insert_list [of h L "[]" xs e] by (simp add: list_push_front_def list_begin_list)

lemma list_push_back_list:
  "\<lbrakk>is_list h L xs; e \<notin> list_nodes L xs; e \<noteq> NULL\<rbrakk> \<Longrightarrow>
   list_result h (insert e (list_nodes L xs)) L (xs @ [e]) (list_push_back h L e)"
  using list_insert_list [of h L xs "[]" e] by (simp add: list_push_back_def list_end_def)

lemma list_pop_front_list:
  "is_list h L (x # xs) \<Longrightarrow>
   \<exists>h'. list_pop_front h L = Some (x, h') \<and> is_list h' L xs \<and> (\<forall>a. a \<notin> list_nodes L xs \<longrightarrow> h' a = h a)"
  using list_remove_list [of h L "[]" x xs] by (auto simp: list_pop_front_def list_front_list)

lemma list_pop_back_list:
  "is_list h L (xs @ [x]) \<Longrightarrow>
   \<exists>h'. list_pop_back h L = Some (x, h') \<and> is_list h' L xs \<and> (\<forall>a. a \<notin> list_nodes L xs \<longrightarrow> h' a = h a)"
  using list_remove_list [of h L xs x "[]"] by (auto simp: list_pop_back_def list_back_list)

lemma list_init_list:
  "\<lbrakk>head L \<noteq> NULL; tail L \<noteq> NULL; head L \<noteq> tail L\<rbrakk> \<Longrightarrow>
   list_result h {head L, tail L} L [] (list_init h L)"
  by (auto simp: list_init_def list_result_def set_prev_def set_next_def is_list_def is_nodes_def)

lemma size_loop_list:
  "is_list h L (xs @ ys) \<Longrightarrow> size_loop h L (hd (ys @ [tail L])) c = Some (if ys = [] then c else wrap32 (c + length ys))"
proof (induction ys arbitrary: xs c)
  case Nil
  then show ?case by (subst size_loop.simps) (simp add: list_end_def)
next
  case (Cons y ys)
  have "size_loop h L (hd (ys @ [tail L])) (wrap32 (c + 1)) =
      Some (if ys = [] then wrap32 (c + 1) else wrap32 (wrap32 (c + 1) + length ys))"
    using Cons.IH [of "xs @ [y]"] Cons.prems by simp
  also have "\<dots> = Some (wrap32 (c + length (y # ys)))"
    by (simp add: mod_Suc_eq mod_add_left_eq)
  finally show ?case
    using Cons.prems hd_tail_iff [OF Cons.prems] list_next_list [OF Cons.prems]
    by (subst size_loop.simps) (simp add: list_end_def)
qed

lemma list_size_list: "is_list h L xs \<Longrightarrow> list_size h L = Some (wrap32 (length xs))"
  using size_loop_list [of h L "[]" xs 0] by (simp add: list_size_def list_begin_list)

section \<open>Ordered operations on sequences\<close>

primrec insert_ordered :: "('a \<Rightarrow> 'a \<Rightarrow> bool) \<Rightarrow> 'a \<Rightarrow> 'a list \<Rightarrow> 'a list" where
  "insert_ordered lt x [] = [x]"
| "insert_ordered lt x (y # ys) = (if lt x y then x # y # ys else y # insert_ordered lt x ys)"

text \<open>The maximal run at the front of \<open>x # xs\<close>, and what follows it.\<close>

fun split_run :: "('a \<Rightarrow> 'a \<Rightarrow> bool) \<Rightarrow> 'a \<Rightarrow> 'a list \<Rightarrow> 'a list \<times> 'a list" where
  "split_run lt x [] = ([x], [])"
| "split_run lt x (y # ys) =
     (if lt y x then ([x], y # ys)
      else (case split_run lt y ys of (r, s) \<Rightarrow> (x # r, s)))"

fun merge_runs :: "('a \<Rightarrow> 'a \<Rightarrow> bool) \<Rightarrow> 'a list \<Rightarrow> 'a list \<Rightarrow> 'a list" where
  "merge_runs lt [] bs = bs"
| "merge_runs lt as [] = as"
| "merge_runs lt (a # as) (b # bs) =
     (if \<not> lt b a then a # merge_runs lt as (b # bs) else b # merge_runs lt (a # as) bs)"

lemma split_run_append: "split_run lt x xs = (r, s) \<Longrightarrow> x # xs = r @ s"
  by (induction lt x xs arbitrary: r s rule: split_run.induct) (auto split: if_splits prod.splits)

lemma split_run_nonempty: "split_run lt x xs = (r, s) \<Longrightarrow> r \<noteq> [] \<and> hd r = x"
  by (induction lt x xs arbitrary: r s rule: split_run.induct) (auto split: if_splits prod.splits)

lemma split_run_shorter: "split_run lt x xs = (r, s) \<Longrightarrow> length s \<le> length xs"
  using split_run_append [of lt x xs r s] split_run_nonempty [of lt x xs r s] by (cases r) auto

function merge_pass :: "('a \<Rightarrow> 'a \<Rightarrow> bool) \<Rightarrow> 'a list \<Rightarrow> 'a list \<times> nat" where
  "merge_pass lt [] = ([], 0)"
| "merge_pass lt (x # xs) =
     (case split_run lt x xs of
        (r1, []) \<Rightarrow> (r1, 1)
      | (r1, y # ys) \<Rightarrow>
          (case split_run lt y ys of
             (r2, s2) \<Rightarrow>
               (case merge_pass lt s2 of (out, n) \<Rightarrow> (merge_runs lt r1 r2 @ out, Suc n))))"
  by pat_completeness auto
termination
  by (relation "measure (\<lambda>(_, xs). length xs)")
    (auto dest!: split_run_shorter [OF sym])

text \<open>The number of places where an element is less than the one before it.\<close>

fun descents :: "('a \<Rightarrow> 'a \<Rightarrow> bool) \<Rightarrow> 'a list \<Rightarrow> nat" where
  "descents lt (x # y # zs) = (if lt y x then 1 else 0) + descents lt (y # zs)"
| "descents lt xs = 0"

abbreviation in_order :: "('a \<Rightarrow> 'a \<Rightarrow> bool) \<Rightarrow> 'a list \<Rightarrow> bool" where
  "in_order lt \<equiv> sorted_wrt (\<lambda>a b. \<not> lt b a)"

lemma mset_insert_ordered [simp]: "mset (insert_ordered lt x xs) = add_mset x (mset xs)"
  by (induction xs) auto

lemma set_insert_ordered [simp]: "set (insert_ordered lt x xs) = insert x (set xs)"
  by (induction xs) auto

lemma mset_merge_runs [simp]: "mset (merge_runs lt as bs) = mset as + mset bs"
  by (induction lt as bs rule: merge_runs.induct) auto

lemma set_merge_runs [simp]: "set (merge_runs lt as bs) = set as \<union> set bs"
  by (induction lt as bs rule: merge_runs.induct) auto

lemma mset_merge_pass: "mset (fst (merge_pass lt xs)) = mset xs"
proof (induction lt xs rule: merge_pass.induct)
  case (2 lt x xs)
  obtain r1 s1 where s1: "split_run lt x xs = (r1, s1)" by force
  show ?case
  proof (cases s1)
    case Nil
    have "r1 = x # xs" using split_run_append [OF s1] Nil by simp
    with s1 Nil show ?thesis by simp
  next
    case (Cons y ys)
    obtain r2 s2 where s2: "split_run lt y ys = (r2, s2)" by force
    obtain out n where o: "merge_pass lt s2 = (out, n)" by force
    have "mset out = mset s2" using "2.IH" [OF s1 [symmetric] Cons s2 [symmetric]] o by simp
    moreover have "mset (x # xs) = mset r1 + (mset r2 + mset s2)"
      using split_run_append [OF s1] split_run_append [OF s2] Cons by (metis mset_append)
    ultimately show ?thesis using s1 s2 o Cons by simp
  qed
qed simp

lemma descents_append:
  "descents lt (xs @ ys) \<le> descents lt xs + descents lt ys + (if xs = [] \<or> ys = [] then 0 else 1)"
  by (cases ys; induction lt xs rule: descents.induct) auto

lemma descents_join:
  "lt y (last r) \<Longrightarrow> r \<noteq> [] \<Longrightarrow> descents lt (r @ y # ys) = descents lt r + 1 + descents lt (y # ys)"
  by (induction lt r rule: descents.induct) auto

lemma split_run_descents:
  assumes "split_run lt x xs = (r, s)"
  shows "descents lt r = 0 \<and> (s \<noteq> [] \<longrightarrow> lt (hd s) (last r))"
  using assms
proof (induction lt x xs arbitrary: r s rule: split_run.induct)
  case (2 lt x y ys)
  show ?case
  proof (cases "lt y x")
    case False
    obtain r' s' where r': "split_run lt y ys = (r', s')" by force
    with "2.prems" False have rs: "r = x # r'" "s = s'" by auto
    obtain r'' where "r' = y # r''" using split_run_nonempty [OF r'] by (cases r') auto
    with "2.IH" [OF False r'] rs False show ?thesis by auto
  qed (use "2.prems" in auto)
qed auto

locale list_order =
  fixes lt :: "'a \<Rightarrow> 'a \<Rightarrow> bool"
  assumes asym: "lt a b \<Longrightarrow> \<not> lt b a"
    and negtrans: "\<lbrakk>\<not> lt a b; \<not> lt b c\<rbrakk> \<Longrightarrow> \<not> lt a c"
begin

abbreviation equiv :: "'a \<Rightarrow> 'a \<Rightarrow> bool" where
  "equiv a b \<equiv> \<not> lt a b \<and> \<not> lt b a"

lemma irrefl: "\<not> lt a a"
  using asym by blast

lemma in_order_transp: "transp (\<lambda>a b. \<not> lt b a)"
  by (rule transpI) (rule negtrans)

lemmas in_order_Cons = sorted_wrt2 [OF in_order_transp]

lemma in_order_descents: "in_order lt xs \<longleftrightarrow> descents lt xs = 0"
proof (induction xs rule: induct_list012)
  case (3 x y zs)
  then show ?case unfolding in_order_Cons by simp
qed auto

lemma insert_ordered_in_order: "in_order lt xs \<Longrightarrow> in_order lt (insert_ordered lt x xs)"
proof (induction xs)
  case (Cons y ys)
  then have "\<not> lt x y \<Longrightarrow> \<forall>z \<in> set (insert_ordered lt x ys). \<not> lt z y" by simp
  moreover have "lt x y \<Longrightarrow> \<forall>z \<in> set (y # ys). \<not> lt z x"
    using Cons.prems negtrans asym by (metis set_ConsD sorted_wrt.simps(2))
  ultimately show ?case using Cons by simp
qed simp

text \<open>An element is inserted behind every element it is not less than: equal ones stay first come, first served.\<close>

lemma insert_ordered_fifo:
  "in_order lt xs \<Longrightarrow> filter (equiv x) (insert_ordered lt x xs) = filter (equiv x) xs @ [x]"
proof (induction xs)
  case (Cons y ys)
  show ?case
  proof (cases "lt x y")
    case True
    have "filter (equiv x) (y # ys) = []"
    proof -
      have "\<not> equiv x z" if "z \<in> set (y # ys)" for z
        using that Cons.prems True negtrans asym by (metis set_ConsD sorted_wrt.simps(2))
      then show ?thesis by (simp add: filter_empty_conv)
    qed
    with True irrefl show ?thesis by simp
  qed (use Cons in simp)
qed (simp add: irrefl)

lemma insert_ordered_filter_other:
  "\<not> P x \<Longrightarrow> filter P (insert_ordered lt x xs) = filter P xs"
  by (induction xs) auto

lemma merge_runs_in_order:
  "\<lbrakk>in_order lt as; in_order lt bs\<rbrakk> \<Longrightarrow> in_order lt (merge_runs lt as bs)"
proof (induction l \<equiv> lt as bs rule: merge_runs.induct)
  case (3 a as b bs)
  show ?case
  proof (cases "lt b a")
    case True
    with "3.prems" have "\<forall>z \<in> set (a # as) \<union> set bs. \<not> lt z b"
      using negtrans asym by (metis UnE set_ConsD sorted_wrt.simps(2))
    with True 3 show ?thesis by simp
  next
    case False
    with "3.prems" have "\<forall>z \<in> set as \<union> set (b # bs). \<not> lt z a"
      using negtrans asym by (metis UnE set_ConsD sorted_wrt.simps(2))
    with False 3 show ?thesis by simp
  qed
qed auto

end

context list_order
begin

lemma merge_runs_stable:
  assumes "in_order lt as" "in_order lt bs"
  shows "filter (equiv x) (merge_runs lt as bs) = filter (equiv x) as @ filter (equiv x) bs"
  using assms
proof (induction l \<equiv> lt as bs rule: merge_runs.induct)
  case (3 a as b bs)
  show ?case
  proof (cases "lt b a")
    case True
    have "filter (equiv x) (a # as) = []" if "equiv x b"
    proof -
      have "\<not> equiv x z" if "z \<in> set (a # as)" for z
      proof -
        have "\<not> lt z a" using that "3.prems"(1) irrefl by auto
        with True have "lt b z" using negtrans by blast
        with \<open>equiv x b\<close> show ?thesis using negtrans by blast
      qed
      then show ?thesis by (simp add: filter_empty_conv)
    qed
    with True 3 show ?thesis by auto
  next
    case False
    with 3 show ?thesis by auto
  qed
qed auto

lemma merge_pass_stable: "filter (equiv x) (fst (merge_pass lt xs)) = filter (equiv x) xs"
proof (induction l \<equiv> lt xs rule: merge_pass.induct)
  case (2 y xs)
  obtain r1 s1 where s1: "split_run lt y xs = (r1, s1)" by force
  note a1 = split_run_append [OF s1]
  show ?case
  proof (cases s1)
    case Nil
    then have "r1 = y # xs" using a1 by simp
    with s1 Nil show ?thesis by simp
  next
    case (Cons z zs)
    obtain r2 s2 where s2: "split_run lt z zs = (r2, s2)" by force
    obtain out n where o: "merge_pass lt s2 = (out, n)" by force
    have "filter (equiv x) out = filter (equiv x) s2" using 2 [OF s1 [symmetric] Cons s2 [symmetric]] o by simp
    moreover have "in_order lt r1" "in_order lt r2"
      using split_run_descents [OF s1] split_run_descents [OF s2] by (simp_all add: in_order_descents)
    moreover have "y # xs = r1 @ r2 @ s2" using a1 split_run_append [OF s2] Cons by simp
    then have "filter (equiv x) (y # xs) = filter (equiv x) r1 @ filter (equiv x) r2 @ filter (equiv x) s2"
      by (simp only: filter_append)
    moreover have "fst (merge_pass lt (y # xs)) = merge_runs lt r1 r2 @ out" using s1 s2 o Cons by simp
    ultimately show ?thesis
      using merge_runs_stable [of r1 r2 x] by (simp only: filter_append append_assoc)
  qed
qed simp

lemma merge_pass_descents:
  "merge_pass lt xs = (out, n) \<Longrightarrow>
   (xs \<noteq> [] \<longrightarrow> 1 \<le> n) \<and> n \<le> length xs \<and> descents lt out \<le> n - 1 \<and> 2 * (n - 1) \<le> descents lt xs"
proof (induction l \<equiv> lt xs arbitrary: out n rule: merge_pass.induct)
  case (2 y xs)
  obtain r1 s1 where s1: "split_run lt y xs = (r1, s1)" by force
  note a1 = split_run_append [OF s1] and d1 = split_run_descents [OF s1] and n1 = split_run_nonempty [OF s1]
  show ?case
  proof (cases s1)
    case Nil
    with s1 "2.prems" d1 show ?thesis by simp
  next
    case (Cons z zs)
    obtain r2 s2 where s2: "split_run lt z zs = (r2, s2)" by force
    note a2 = split_run_append [OF s2] and d2 = split_run_descents [OF s2] and n2 = split_run_nonempty [OF s2]
    obtain out' m where o: "merge_pass lt s2 = (out', m)" by force
    have on: "out = merge_runs lt r1 r2 @ out'" "n = Suc m" using "2.prems" s1 s2 o Cons by auto
    have IH: "(s2 \<noteq> [] \<longrightarrow> 1 \<le> m) \<and> m \<le> length s2 \<and> descents lt out' \<le> m - 1 \<and> 2 * (m - 1) \<le> descents lt s2"
      by (rule 2(1) [OF s1 [symmetric] Cons s2 [symmetric] o])
    have len: "length (y # xs) = length r1 + length r2 + length s2"
      using a1 a2 Cons by (metis append.assoc length_append)
    have "in_order lt (merge_runs lt r1 r2)"
      by (rule merge_runs_in_order) (use d1 d2 in \<open>simp_all add: in_order_descents\<close>)
    then have dm: "descents lt (merge_runs lt r1 r2) = 0" by (simp add: in_order_descents)
    have "s2 = [] \<Longrightarrow> out' = [] \<and> m = 0" using o by simp
    then have out: "descents lt out \<le> n - 1"
      using descents_append [of lt "merge_runs lt r1 r2" out'] dm IH on by (cases "s2 = []") (auto split: if_splits)
    have "descents lt (y # xs) = 1 + descents lt (z # zs)"
      using descents_join [of lt z r1 zs] a1 d1 n1 Cons by auto
    moreover have "s2 \<noteq> [] \<Longrightarrow> descents lt (z # zs) = 1 + descents lt s2"
      using descents_join [of lt "hd s2" r2 "tl s2"] a2 d2 n2 by (cases s2) auto
    ultimately have "2 * (n - 1) \<le> descents lt (y # xs)"
      using IH on \<open>s2 = [] \<Longrightarrow> out' = [] \<and> m = 0\<close> by (cases "s2 = []") auto
    with out on IH len n1 show ?thesis by (cases r1) auto
  qed
qed simp

end

section \<open>Sorting in memory\<close>

lemma list_splice_list:
  assumes "is_list h L (xs @ as @ ms @ ys)" "as \<noteq> []" "ms \<noteq> []"
  shows "list_result h (list_nodes L (xs @ as @ ms @ ys)) L (xs @ ms @ as @ ys)
     (list_splice h (hd as) (hd ms) (hd (ys @ [tail L])))"
proof -
  obtain us p where u: "head L # xs = us @ [p]" by (metis list.distinct(1) rev_exhaust)
  obtain r vs where r: "ys @ [tail L] = r # vs" by (cases ys) auto
  have e1: "head L # (xs @ as @ ms @ ys) @ [tail L] = us @ p # as @ ms @ r # vs"
    using u r by (metis append.assoc append_Cons append_Nil)
  have e2: "head L # (xs @ ms @ as @ ys) @ [tail L] = us @ p # ms @ as @ r # vs"
    using u r by (metis append.assoc append_Cons append_Nil)
  from assms(1) have "is_nodes h (us @ p # as @ ms @ r # vs)" unfolding is_list_def e1 .
  from list_splice_nodes [OF this assms(2,3)] obtain h' where
    h': "list_splice h (hd as) (hd ms) r = Some h'" "is_nodes h' (us @ p # ms @ as @ r # vs)"
    "\<forall>a. a \<notin> set (p # as @ ms @ [r]) \<longrightarrow> h' a = h a" by blast
  have "p \<in> set (head L # xs)" "r \<in> set (ys @ [tail L])" unfolding u r by simp_all
  then have "set (p # as @ ms @ [r]) \<subseteq> list_nodes L (xs @ as @ ms @ ys)" by (auto simp: list_nodes_def)
  moreover from h'(2) have "is_list h' L (xs @ ms @ as @ ys)" unfolding is_list_def e2 .
  ultimately show ?thesis using h'(1,3) r by (auto simp: list_result_def)
qed

lemma run_loop_list:
  "\<lbrakk>is_list h L (ps @ x # xs); split_run lt x xs = (r, s)\<rbrakk> \<Longrightarrow>
   run_loop h x (tail L) lt = Some (hd (s @ [tail L]))"
proof (induction xs arbitrary: ps x r s)
  case Nil
  then show ?case using list_next_list [of h L ps x "[]"] by (subst run_loop.simps) simp
next
  case (Cons y ys)
  have y: "y \<noteq> tail L" using is_list_facts(3) [OF Cons.prems(1)] by auto
  have n: "list_next h x = Some y" using list_next_list [OF Cons.prems(1)] by simp
  have p: "list_prev h y = Some x" using list_prev_list [of h L "ps @ [x]" "y # ys"] Cons.prems(1) by simp
  show ?case
  proof (cases "lt y x")
    case True
    with Cons.prems(2) y n p show ?thesis by (subst run_loop.simps) auto
  next
    case False
    obtain r' where r': "split_run lt y ys = (r', s)"
      using Cons.prems(2) False by (auto split: prod.splits)
    have "run_loop h y (tail L) lt = Some (hd (s @ [tail L]))"
      by (rule Cons.IH [of "ps @ [x]", OF _ r']) (use Cons.prems(1) in simp)
    with False y n p show ?thesis by (subst run_loop.simps) simp
  qed
qed

lemma find_end_of_run_list:
  "\<lbrakk>is_list h L (ps @ x # xs); split_run lt x xs = (r, s)\<rbrakk> \<Longrightarrow>
   find_end_of_run h x (tail L) lt = Some (hd (s @ [tail L]))"
  using is_list_facts(3,5) [of h L "ps @ x # xs"]
  by (auto simp: find_end_of_run_def run_loop_list list_nodes_def)

lemma is_sorted_loop_list:
  "is_list h L (ps @ x # xs @ rs) \<Longrightarrow>
   is_sorted_loop h x (hd (rs @ [tail L])) lt = Some (descents lt (x # xs) = 0)"
proof (induction xs arbitrary: ps x)
  case Nil
  then show ?case using list_next_list [of h L ps x rs] by (subst is_sorted_loop.simps) simp
next
  case (Cons y ys)
  have y: "y \<noteq> hd (rs @ [tail L])"
    using is_list_facts(1,3) [OF Cons.prems] by (cases rs) auto
  have n: "list_next h x = Some y" using list_next_list [of h L ps x "y # ys @ rs"] Cons.prems by simp
  have p: "list_prev h y = Some x" using list_prev_list [of h L "ps @ [x]" "y # ys @ rs"] Cons.prems by simp
  have "is_sorted_loop h y (hd (rs @ [tail L])) lt = Some (descents lt (y # ys) = 0)"
    by (rule Cons.IH [of "ps @ [x]"]) (use Cons.prems in simp)
  with y n p show ?case by (subst is_sorted_loop.simps) simp
qed

lemma is_sorted_list:
  assumes "is_list h L (ps @ xs @ rs)"
  shows "is_sorted h (hd (xs @ rs @ [tail L])) (hd (rs @ [tail L])) lt = Some (descents lt xs = 0)"
proof (cases xs)
  case (Cons x xs')
  have "x \<noteq> hd (rs @ [tail L])"
    using is_list_facts(1,3) [OF assms] Cons by (cases rs) auto
  then show ?thesis using is_sorted_loop_list [of h L ps x xs' rs lt] assms Cons by (simp add: is_sorted_def)
qed (simp add: is_sorted_def)

lemma list_nodes_mset: "mset xs = mset ys \<Longrightarrow> list_nodes L xs = list_nodes L ys"
  by (simp add: list_nodes_def) (metis set_mset_mset)

lemma list_result_trans:
  assumes "is_list h' L ys" "\<forall>a. a \<notin> A \<longrightarrow> h' a = h a" "list_result h' A L zs r"
  shows "list_result h A L zs r"
  using assms by (auto simp: list_result_def)

lemma merge_loop_list:
  "is_list h L (ps @ as @ bs @ rs) \<Longrightarrow>
   list_result h (list_nodes L (ps @ as @ bs @ rs)) L (ps @ merge_runs lt as bs @ rs)
     (merge_loop h (hd (as @ bs @ rs @ [tail L])) (hd (bs @ rs @ [tail L])) (hd (rs @ [tail L])) lt)"
proof (induction lt as bs arbitrary: ps h rule: merge_runs.induct)
  case (1 lt bs)
  then show ?case by (subst merge_loop.simps) (simp add: list_result_def)
next
  case (2 lt v va)
  then show ?case by (subst merge_loop.simps) (simp add: list_result_def)
next
  case (3 lt a as b bs)
  note il = "3.prems"
  have ne: "a \<noteq> b" "b \<noteq> hd (rs @ [tail L])"
    using is_list_facts(1,3) [OF il] by (cases rs; auto)+
  show ?case
  proof (cases "lt b a")
    case False
    have n: "list_next h a = Some (hd (as @ b # bs @ rs @ [tail L]))"
      using list_next_list [of h L ps a "as @ b # bs @ rs"] il by simp
    have "list_result h (list_nodes L ((ps @ [a]) @ as @ (b # bs) @ rs)) L
       ((ps @ [a]) @ merge_runs lt as (b # bs) @ rs)
       (merge_loop h (hd (as @ (b # bs) @ rs @ [tail L])) (hd ((b # bs) @ rs @ [tail L])) (hd (rs @ [tail L])) lt)"
      by (rule "3.IH"(1) [OF False]) (use il in simp)
    with False ne n show ?thesis by (subst merge_loop.simps) simp
  next
    case True
    let ?c = "hd (bs @ rs @ [tail L])"
    have n: "list_next h b = Some ?c"
      using list_next_list [of h L "ps @ a # as" b "bs @ rs"] il by simp
    have p: "list_prev h ?c = Some b"
      using list_prev_list [of h L "ps @ a # as @ [b]" "bs @ rs"] il by simp
    have "list_result h (list_nodes L (ps @ (a # as) @ [b] @ bs @ rs)) L (ps @ [b] @ (a # as) @ bs @ rs)
       (list_splice h (hd (a # as)) (hd [b]) (hd ((bs @ rs) @ [tail L])))"
      by (rule list_splice_list) (use il in simp_all)
    then obtain h' where h': "list_splice h a b ?c = Some h'" "is_list h' L ((ps @ [b]) @ (a # as) @ bs @ rs)"
      "\<forall>x. x \<notin> list_nodes L (ps @ (a # as) @ (b # bs) @ rs) \<longrightarrow> h' x = h x"
      by (auto simp: list_result_def)
    have eq: "list_nodes L ((ps @ [b]) @ (a # as) @ bs @ rs) = list_nodes L (ps @ (a # as) @ (b # bs) @ rs)"
      by (rule list_nodes_mset) simp
    have "list_result h' (list_nodes L (ps @ (a # as) @ (b # bs) @ rs)) L ((ps @ [b]) @ merge_runs lt (a # as) bs @ rs)
       (merge_loop h' (hd ((a # as) @ bs @ rs @ [tail L])) ?c (hd (rs @ [tail L])) lt)"
      using "3.IH"(2) [OF _ h'(2)] True unfolding eq by blast
    from list_result_trans [OF h'(2,3) this] True ne n p h'(1) show ?thesis
      by (subst merge_loop.simps) simp
  qed
qed

lemma inplace_merge_list:
  assumes "is_list h L (ps @ as @ bs @ rs)" "descents lt as = 0" "descents lt bs = 0"
  shows "list_result h (list_nodes L (ps @ as @ bs @ rs)) L (ps @ merge_runs lt as bs @ rs)
     (inplace_merge h (hd (as @ bs @ rs @ [tail L])) (hd (bs @ rs @ [tail L])) (hd (rs @ [tail L])) lt)"
proof -
  have nz: "hd (xs @ [tail L]) \<noteq> 0" if "set xs \<subseteq> set (ps @ as @ bs @ rs)" for xs
  proof -
    have "hd (xs @ [tail L]) \<in> set (xs @ [tail L])" by (rule hd_in_set) simp
    also have "\<dots> \<subseteq> list_nodes L (ps @ as @ bs @ rs)" using that by (auto simp: list_nodes_def)
    finally show ?thesis using is_list_facts(5) [OF assms(1)] by metis
  qed
  have "hd (as @ bs @ rs @ [tail L]) \<noteq> 0" "hd (bs @ rs @ [tail L]) \<noteq> 0" "hd (rs @ [tail L]) \<noteq> 0"
    using nz [of "as @ bs @ rs"] nz [of "bs @ rs"] nz [of rs] by auto
  with is_sorted_list [of h L ps as "bs @ rs" lt] is_sorted_list [of h L "ps @ as" bs rs lt] assms
  show ?thesis by (simp add: inplace_merge_def merge_loop_list)
qed

lemma sort_pass_list:
  assumes "is_list h L (ps @ xs)" "merge_pass lt xs = (out, n)" "c < 2 ^ 32"
  shows "\<exists>h'. sort_pass h L lt (hd (xs @ [tail L])) c = Some (h', wrap32 (c + n)) \<and>
    is_list h' L (ps @ out) \<and> (\<forall>a. a \<notin> list_nodes L (ps @ xs) \<longrightarrow> h' a = h a)"
  using assms
proof (induction lt xs arbitrary: h ps c out n rule: merge_pass.induct)
  case (1 lt)
  then show ?case by (subst sort_pass.simps) (simp add: list_end_def)
next
  case (2 lt x xs)
  note il = "2.prems"(1)
  have x: "x \<noteq> tail L" using is_list_facts(3) [OF il] by auto
  obtain r1 s1 where s1: "split_run lt x xs = (r1, s1)" by force
  have e1: "find_end_of_run h x (tail L) lt = Some (hd (s1 @ [tail L]))"
    by (rule find_end_of_run_list [OF il s1])
  note a1 = split_run_append [OF s1] and d1 = split_run_descents [OF s1] and n1 = split_run_nonempty [OF s1]
  show ?case
  proof (cases s1)
    case Nil
    then have "r1 = x # xs" "out = r1" "n = 1" using a1 s1 "2.prems"(2) by auto
    with il e1 Nil x show ?thesis by (subst sort_pass.simps) (simp add: list_end_def)
  next
    case (Cons y ys)
    obtain r2 s2 where s2: "split_run lt y ys = (r2, s2)" by force
    note a2 = split_run_append [OF s2] and d2 = split_run_descents [OF s2] and n2 = split_run_nonempty [OF s2]
    obtain out' m where o: "merge_pass lt s2 = (out', m)" by force
    have on: "out = merge_runs lt r1 r2 @ out'" "n = Suc m" using "2.prems"(2) s1 s2 o Cons by auto
    have xs: "x # xs = r1 @ r2 @ s2" using a1 a2 Cons by simp
    have y: "y \<noteq> tail L" using is_list_facts(3) [OF il] xs a2 n2 by (cases r2) auto
    have il2: "is_list h L ((ps @ r1) @ y # ys)" using il a1 Cons by simp
    have e2: "find_end_of_run h y (tail L) lt = Some (hd (s2 @ [tail L]))"
      by (rule find_end_of_run_list [OF il2 s2])
    have "list_result h (list_nodes L (ps @ r1 @ r2 @ s2)) L (ps @ merge_runs lt r1 r2 @ s2)
       (inplace_merge h (hd (r1 @ r2 @ s2 @ [tail L])) (hd (r2 @ s2 @ [tail L])) (hd (s2 @ [tail L])) lt)"
      by (rule inplace_merge_list) (use il xs d1 d2 in simp_all)
    moreover have "hd (r1 @ r2 @ s2 @ [tail L]) = x" "hd (r2 @ s2 @ [tail L]) = y"
      using n1 n2 by simp_all
    ultimately obtain h1 where h1: "inplace_merge h x y (hd (s2 @ [tail L])) lt = Some h1"
      "is_list h1 L ((ps @ merge_runs lt r1 r2) @ s2)" "\<forall>a. a \<notin> list_nodes L (ps @ x # xs) \<longrightarrow> h1 a = h a"
      unfolding xs by (auto simp: list_result_def)
    obtain h2 where h2: "sort_pass h1 L lt (hd (s2 @ [tail L])) (wrap32 (c + 1)) = Some (h2, wrap32 (wrap32 (c + 1) + m))"
      "is_list h2 L ((ps @ merge_runs lt r1 r2) @ out')"
      "\<forall>a. a \<notin> list_nodes L ((ps @ merge_runs lt r1 r2) @ s2) \<longrightarrow> h2 a = h1 a"
      using "2.IH" [OF s1 [symmetric] Cons s2 [symmetric] h1(2) o wrap32_less] by blast
    have "list_nodes L ((ps @ merge_runs lt r1 r2) @ s2) = list_nodes L (ps @ x # xs)"
      unfolding xs by (rule list_nodes_mset) simp
    with h1 h2 have "\<forall>a. a \<notin> list_nodes L (ps @ x # xs) \<longrightarrow> h2 a = h a" by simp
    moreover have "wrap32 (wrap32 (c + 1) + m) = wrap32 (c + n)"
      using on by (simp add: mod_simps)
    ultimately show ?thesis
      using x y e1 e2 h1(1) h2(1,2) Cons on by (subst sort_pass.simps) (simp add: list_end_def)
  qed
qed

context list_order
begin

text \<open>A sorted, stable rearrangement.\<close>

definition sorts :: "'a list \<Rightarrow> 'a list \<Rightarrow> bool" where
  "sorts xs ys \<longleftrightarrow> in_order lt ys \<and> mset ys = mset xs \<and> (\<forall>x. filter (equiv x) ys = filter (equiv x) xs)"

end

text \<open>The insertion sort that the stable merge sort of the code agrees with.\<close>

definition sort_list :: "('a \<Rightarrow> 'a \<Rightarrow> bool) \<Rightarrow> 'a list \<Rightarrow> 'a list" where
  "sort_list lt xs = foldl (\<lambda>ys x. insert_ordered lt x ys) [] xs"

lemma mset_insert_all: "mset (foldl (\<lambda>ys x. insert_ordered lt x ys) acc xs) = mset acc + mset xs"
  by (induction xs arbitrary: acc) auto

lemma mset_sort_list [simp]: "mset (sort_list lt xs) = mset xs"
  by (simp add: sort_list_def mset_insert_all)

lemma set_sort_list [simp]: "set (sort_list lt xs) = set xs"
  by (metis mset_sort_list set_mset_mset)

lemma length_sort_list [simp]: "length (sort_list lt xs) = length xs"
  by (metis mset_sort_list size_mset)

lemma distinct_sort_list [simp]: "distinct (sort_list lt xs) = distinct xs"
  by (metis mset_sort_list mset_eq_imp_distinct_iff)

context list_order
begin

lemma equiv_cong: "equiv x y \<Longrightarrow> equiv x z = equiv y z"
  using negtrans by blast

lemma insert_ordered_class:
  assumes "in_order lt ys"
  shows "filter (equiv x) (insert_ordered lt y ys) = filter (equiv x) ys @ filter (equiv x) [y]"
proof (cases "equiv x y")
  case True
  then have "equiv x = equiv y" using equiv_cong by blast
  with insert_ordered_fifo [OF assms, of y] True show ?thesis by (simp add: irrefl)
next
  case False
  then show ?thesis using insert_ordered_filter_other [of "equiv x" y ys] by simp
qed

lemma insert_all_sorts:
  "in_order lt acc \<Longrightarrow> in_order lt (foldl (\<lambda>ys x. insert_ordered lt x ys) acc xs) \<and>
   filter (equiv x) (foldl (\<lambda>ys x. insert_ordered lt x ys) acc xs) = filter (equiv x) acc @ filter (equiv x) xs"
proof (induction xs arbitrary: acc)
  case (Cons y xs)
  then show ?case using insert_ordered_in_order insert_ordered_class [of acc x y] by simp
qed simp

lemma sort_list_sorts: "sorts xs (sort_list lt xs)"
  using insert_all_sorts [of "[]" xs] by (simp add: sorts_def sort_list_def mset_insert_all)

text \<open>A stable sort is unique.\<close>

lemma stable_unique:
  "\<lbrakk>in_order lt ys; in_order lt zs; \<forall>x. filter (equiv x) ys = filter (equiv x) zs\<rbrakk> \<Longrightarrow> ys = zs"
proof (induction ys arbitrary: zs)
  case Nil
  have "z \<notin> set zs" for z
  proof -
    have "filter (equiv z) zs = []" using Nil.prems(3) by simp
    then show ?thesis using irrefl [of z] by (auto simp: filter_empty_conv)
  qed
  then show ?case by (cases zs) auto
next
  case (Cons y ys)
  have same: "filter (equiv x) zs = filter (equiv x) (y # ys)" for x by (rule Cons.prems(3) [rule_format, symmetric])
  have y: "y \<in> set (filter (equiv y) zs)" unfolding same using irrefl [of y] by simp
  then obtain z zs' where z: "zs = z # zs'" by (cases zs) auto
  have "z \<in> set (filter (equiv z) (y # ys))" unfolding same [symmetric] z using irrefl [of z] by simp
  then have "z \<in> set (y # ys)" by (rule filter_is_subset [THEN subsetD])
  then have "\<not> lt z y" using Cons.prems(1) irrefl [of y] by auto
  moreover have "y \<in> set (z # zs')" using y filter_is_subset [of "equiv y" zs] unfolding z by blast
  then have "\<not> lt y z" using Cons.prems(2) irrefl [of z] unfolding z by auto
  ultimately have e: "equiv y z" by blast
  have "filter (equiv y) (y # ys) = filter (equiv y) (z # zs')" using same [of y] z by simp
  then have yz: "y = z" using e irrefl by simp
  have "filter (equiv x) ys = filter (equiv x) zs'" for x
  proof -
    have "filter (equiv x) (y # ys) = filter (equiv x) (z # zs')" using same [of x] unfolding z by (rule sym)
    then show ?thesis using yz by (cases "equiv x z") simp_all
  qed
  then show ?case using Cons.IH [of zs'] Cons.prems(1,2) yz z by simp
qed

lemma sorts_unique: "sorts xs ys \<Longrightarrow> ys = sort_list lt xs"
  using sort_list_sorts [of xs] stable_unique [of ys "sort_list lt xs"] by (auto simp: sorts_def)

lemma sort_list_hd:
  assumes "xs \<noteq> []"
  shows "hd (sort_list lt xs) \<in> set xs \<and> (\<forall>x \<in> set xs. \<not> lt x (hd (sort_list lt xs)))"
proof -
  obtain y ys where y: "sort_list lt xs = y # ys"
    using assms by (metis length_sort_list length_0_conv neq_Nil_conv)
  have o: "in_order lt (y # ys)" and m: "set xs = set (y # ys)"
    using sort_list_sorts [of xs] y set_sort_list [of lt xs] by (simp_all add: sorts_def)
  show ?thesis unfolding y m using o irrefl [of y] by auto
qed

text \<open>The head of the sorted list is the first of the elements that compare equal to it.\<close>

lemma sort_list_hd_first:
  assumes "xs \<noteq> []"
  shows "hd (sort_list lt xs) = hd (filter (equiv (hd (sort_list lt xs))) xs)"
proof -
  obtain y ys where y: "sort_list lt xs = y # ys"
    using assms by (metis length_sort_list length_0_conv neq_Nil_conv)
  have "filter (equiv y) (sort_list lt xs) = filter (equiv y) xs"
    using sort_list_sorts [of xs] by (simp add: sorts_def)
  then have "filter (equiv y) xs = y # filter (equiv y) ys" unfolding y using irrefl [of y] by simp
  then show ?thesis by (simp add: y)
qed

end

lemma sort_loop_list:
  assumes "list_order lt" "is_list h L xs" "length xs < 2 ^ 32"
  shows "\<exists>ys. list_order.sorts lt xs ys \<and> list_result h (list_nodes L xs) L ys (sort_loop h L lt)"
  using assms(2,3)
proof (induction "descents lt xs" arbitrary: h xs rule: less_induct)
  case less
  obtain out n where o: "merge_pass lt xs = (out, n)" by force
  note d = list_order.merge_pass_descents [OF assms(1) o]
  have ms: "mset out = mset xs" using mset_merge_pass [of lt xs] o by simp
  have st: "filter (\<lambda>b. \<not> lt x b \<and> \<not> lt b x) out = filter (\<lambda>b. \<not> lt x b \<and> \<not> lt b x) xs" for x
    using list_order.merge_pass_stable [OF assms(1), of x xs] o by simp
  obtain h' where h': "sort_pass h L lt (hd (xs @ [tail L])) 0 = Some (h', wrap32 n)" "is_list h' L out"
    "\<forall>a. a \<notin> list_nodes L xs \<longrightarrow> h' a = h a"
    using sort_pass_list [of h L "[]" xs lt out n 0] less.prems o by auto
  have wn: "wrap32 n = n" using d less.prems(2) by simp
  show ?case
  proof (cases "n > 1")
    case True
    then have "descents lt out < descents lt xs" using d by linarith
    from less.hyps [OF this h'(2)] obtain ys where ys: "list_order.sorts lt out ys"
      "list_result h' (list_nodes L out) L ys (sort_loop h' L lt)"
      using less.prems(2) mset_eq_length [OF ms] by auto
    have "list_order.sorts lt xs ys"
      using ys(1) ms st by (simp add: list_order.sorts_def [OF assms(1)])
    moreover have "list_result h (list_nodes L xs) L ys (sort_loop h' L lt)"
      by (rule list_result_trans [OF h'(2,3)]) (use ys(2) list_nodes_mset [OF ms] in simp)
    ultimately show ?thesis
      using h' wn True less.prems by (subst sort_loop.simps) (auto simp: list_begin_list)
  next
    case False
    then have "in_order lt out" using d by (simp add: list_order.in_order_descents [OF assms(1)])
    with ms st have "list_order.sorts lt xs out" by (simp add: list_order.sorts_def [OF assms(1)])
    with h' wn False less.prems show ?thesis
      by (subst sort_loop.simps) (auto simp: list_begin_list list_result_def)
  qed
qed

lemma list_sort_list:
  assumes "list_order lt" "is_list h L xs" "length xs < 2 ^ 32"
  shows "\<exists>ys. list_order.sorts lt xs ys \<and> list_result h (list_nodes L xs) L ys (list_sort h L lt)"
proof -
  obtain ys h' where *: "list_order.sorts lt xs ys" "sort_loop h L lt = Some h'" "is_list h' L ys"
    "\<forall>a. a \<notin> list_nodes L xs \<longrightarrow> h' a = h a"
    using sort_loop_list [OF assms] by (auto simp: list_result_def)
  have "descents lt ys = 0"
    using *(1) list_order.in_order_descents [OF assms(1)] by (simp add: list_order.sorts_def [OF assms(1)])
  then have "is_sorted h' (list_begin h' L) (list_end L) lt = Some True"
    using is_sorted_list [of h' L "[]" ys "[]" lt] *(3) by (simp add: list_begin_list list_end_def)
  with * show ?thesis by (auto simp: list_sort_def list_result_def)
qed

lemma list_sort_result:
  assumes "list_order lt" "is_list h L xs" "length xs < 2 ^ 32"
  shows "list_result h (list_nodes L xs) L (sort_list lt xs) (list_sort h L lt)"
  using list_sort_list [OF assms] list_order.sorts_unique [OF assms(1)] by auto

lemma insert_pos_list:
  "is_list h L (xs @ ys) \<Longrightarrow>
   \<exists>us vs. ys = us @ vs \<and> insert_pos h L e lt (hd (ys @ [tail L])) = Some (hd (vs @ [tail L])) \<and>
     insert_ordered lt e ys = us @ e # vs"
proof (induction ys arbitrary: xs)
  case Nil
  then show ?case by (subst insert_pos.simps) (simp add: list_end_def)
next
  case (Cons y ys)
  have y: "y \<noteq> tail L" using is_list_facts(3) [OF Cons.prems] by auto
  show ?case
  proof (cases "lt e y")
    case True
    then show ?thesis by (subst insert_pos.simps) (rule exI [of _ "[]"], simp)
  next
    case False
    obtain us vs where *: "ys = us @ vs" "insert_pos h L e lt (hd (ys @ [tail L])) = Some (hd (vs @ [tail L]))"
      "insert_ordered lt e ys = us @ e # vs"
      using Cons.IH [of "xs @ [y]"] Cons.prems by auto
    have "insert_pos h L e lt y = Some (hd (vs @ [tail L]))"
      using False y *(2) list_next_list [OF Cons.prems] by (subst insert_pos.simps) (simp add: list_end_def)
    with False *(1,3) show ?thesis by (intro exI [of _ "y # us"] exI [of _ vs]) simp
  qed
qed

lemma list_insert_ordered_list:
  assumes "is_list h L xs" "e \<notin> list_nodes L xs" "e \<noteq> NULL"
  shows "list_result h (insert e (list_nodes L xs)) L (insert_ordered lt e xs) (list_insert_ordered h L e lt)"
proof -
  obtain us vs where *: "xs = us @ vs" "insert_pos h L e lt (hd (xs @ [tail L])) = Some (hd (vs @ [tail L]))"
      "insert_ordered lt e xs = us @ e # vs"
    using insert_pos_list [of h L "[]" xs e lt] assms(1) by auto
  with assms list_insert_list [of h L us vs e] show ?thesis
    by (simp add: list_insert_ordered_def list_begin_list)
qed

section \<open>Properties\<close>

text \<open>
  C6: \<open>list_sort\<close>, a natural merge sort that rearranges links in place, terminates on
  every well-formed list, never fails one of its assertions, and leaves a well-formed list
  of the same elements that is in order and stable (elements that compare equal keep
  their order).  No memory outside the list is written.
\<close>

theorem list_sort_correct:
  assumes "list_order lt" "is_list h L xs" "length xs < 2 ^ 32"
  shows "\<exists>h' ys. list_sort h L lt = Some h' \<and> is_list h' L ys \<and> in_order lt ys \<and> mset ys = mset xs \<and>
     (\<forall>x. filter (\<lambda>y. \<not> lt x y \<and> \<not> lt y x) ys = filter (\<lambda>y. \<not> lt x y \<and> \<not> lt y x) xs) \<and>
     (\<forall>a. a \<notin> list_nodes L xs \<longrightarrow> h' a = h a)"
  using list_sort_list [OF assms] unfolding list_order.sorts_def [OF assms(1)] list_result_def by blast

text \<open>
  C13: inserting into an ordered list keeps it ordered and well-formed, puts the new
  element behind every element it compares equal to, and writes only to the new element
  and the nodes of the list.
\<close>

theorem list_insert_ordered_correct:
  assumes "list_order lt" "is_list h L xs" "in_order lt xs" "e \<notin> list_nodes L xs" "e \<noteq> 0"
  shows "\<exists>h' ys. list_insert_ordered h L e lt = Some h' \<and> is_list h' L ys \<and> in_order lt ys \<and>
     mset ys = add_mset e (mset xs) \<and>
     filter (\<lambda>y. \<not> lt e y \<and> \<not> lt y e) ys = filter (\<lambda>y. \<not> lt e y \<and> \<not> lt y e) xs @ [e] \<and>
     (\<forall>a. a \<notin> insert e (list_nodes L xs) \<longrightarrow> h' a = h a)"
  using list_insert_ordered_list [OF assms(2,4,5), of lt] list_order.insert_ordered_in_order [OF assms(1,3), of e]
    list_order.insert_ordered_fifo [OF assms(1,3), of e]
  by (auto simp: list_result_def intro!: exI [of _ "insert_ordered lt e xs"])

text \<open>
  C14: removing an element of a list returns the element after it, keeps the others in
  their order, leaves the links of the removed element as they were (the idiom
  \<^verbatim>\<open>e = list_next (e)\<close> after a removal relies on it), and writes to no other memory.
\<close>

theorem list_remove_correct:
  assumes "is_list h L (xs @ e # ys)"
  shows "\<exists>h'. list_remove h e = Some (hd (ys @ [tail L]), h') \<and> is_list h' L (xs @ ys) \<and> h' e = h e \<and>
     list_next h' e = Some (hd (ys @ [tail L])) \<and> (\<forall>a. a \<notin> list_nodes L (xs @ ys) \<longrightarrow> h' a = h a)"
proof -
  obtain h' where h': "list_remove h e = Some (hd (ys @ [tail L]), h')" "is_list h' L (xs @ ys)" "h' e = h e"
    "\<forall>a. a \<notin> list_nodes L (xs @ ys) \<longrightarrow> h' a = h a"
    using list_remove_list [OF assms] by blast
  moreover have "list_next h' e = list_next h e"
    using h'(3) by (simp add: list_next_def is_head_def is_interior_def)
  ultimately show ?thesis using list_next_list [OF assms] by auto
qed

text \<open>A list with the elements 5, 3 and 4 for the witnesses.\<close>

definition sample_heap :: heap where
  "sample_heap = (\<lambda>_. \<lparr>e_prev = 0, e_next = 0\<rparr>)
     (1 := \<lparr>e_prev = 0, e_next = 5\<rparr>, 5 := \<lparr>e_prev = 1, e_next = 3\<rparr>, 3 := \<lparr>e_prev = 5, e_next = 4\<rparr>,
      4 := \<lparr>e_prev = 3, e_next = 2\<rparr>, 2 := \<lparr>e_prev = 4, e_next = 0\<rparr>)"

definition sample_list :: klist where
  "sample_list = \<lparr>head = 1, tail = 2\<rparr>"

lemma sample_is_list: "is_list sample_heap sample_list [5, 3, 4]"
  by (simp add: is_list_def is_nodes_def sample_heap_def sample_list_def)

theorem list_sort_correct_witness:
  "\<exists>h' ys. list_sort sample_heap sample_list (<) = Some h' \<and> is_list h' sample_list ys \<and> in_order (<) ys \<and>
     mset ys = mset [5, 3, 4]"
proof -
  have "list_order ((<) :: nat \<Rightarrow> nat \<Rightarrow> bool)" by unfold_locales auto
  moreover have "length [5, 3, 4 :: nat] < 2 ^ 32" by simp
  ultimately show ?thesis using list_sort_correct [OF _ sample_is_list, of "(<)"] by blast
qed

theorem list_insert_ordered_correct_witness:
  "\<exists>h'. list_insert_ordered sample_heap sample_list 7 (\<lambda>a b. False) = Some h' \<and>
     is_list h' sample_list [5, 3, 4, 7]"
proof -
  have "list_order (\<lambda>(a::nat) (b::nat). False)" by unfold_locales auto
  moreover have "in_order (\<lambda>a b. False) [5, 3, 4 :: nat]" by simp
  moreover have "7 \<notin> list_nodes sample_list [5, 3, 4]" by (simp add: list_nodes_def sample_list_def)
  ultimately show ?thesis
    using list_insert_ordered_correct [of "\<lambda>a b. False" sample_heap sample_list "[5, 3, 4]" 7] sample_is_list
    by auto
qed

theorem list_remove_correct_witness:
  "\<exists>h'. list_remove sample_heap 3 = Some (4, h') \<and> is_list h' sample_list [5, 4]"
proof -
  have "is_list sample_heap sample_list ([5] @ 3 # [4])" using sample_is_list by simp
  from list_remove_correct [OF this] show ?thesis by auto
qed

end
