(* ===== verification/Sched.thy ===== *)
theory Sched
  imports Prelude KList
begin

text \<open>
  The scheduler: \<open>threads/thread.c\<close>, the interrupt state of \<open>threads/interrupt.c\<close>, the
  context switch of \<open>threads/switch.S\<close> and the part of \<open>userprog/process.c\<close>,
  \<open>userprog/pagedir.c\<close> and \<open>userprog/tss.c\<close> that every switch runs.

  The kernel lists are HOL lists of thread addresses; \<open>KList\<close> proves that the
  pointer-level operations implement the list operations used here.  A function whose caller has work left after a
  call that may switch threads leaves that work on the kernel stack of the running thread,
  as a \<open>frame\<close>; a thread that is scheduled again continues with its topmost frame.
\<close>

section \<open>Threads, semaphores and the kernel state\<close>

datatype thread_status = THREAD_RUNNING | THREAD_READY | THREAD_BLOCKED | THREAD_DYING

datatype intr_level = INTR_OFF | INTR_ON

definition PRI_MIN :: int where "PRI_MIN = 0"
definition PRI_DEFAULT :: int where "PRI_DEFAULT = 31"
definition PRI_MAX :: int where "PRI_MAX = 63"
definition TIME_SLICE :: nat where "TIME_SLICE = 4"
definition THREAD_MAGIC :: u32 where "THREAD_MAGIC = 0xcd6abf4b"
definition TID_ERROR :: int where "TID_ERROR = -1"
definition NO_PARENT :: int where "NO_PARENT = -1"
definition NOT_LOADED :: int where "NOT_LOADED = 0"
definition LOAD_SUCCESS :: int where "LOAD_SUCCESS = 1"
definition LOAD_FAIL :: int where "LOAD_FAIL = -1"

text \<open>
  The address of a semaphore says which object it is embedded in: a lock, the fields
  \<open>sema_p\<close>, \<open>sema_wait\<close> and \<open>sema_load\<close> of a thread, the field \<open>sema_zombi\<close> of a child
  process record, or the local variable \<open>waiter\<close> of the thread that runs \<open>cond_wait\<close>
  (a thread runs at most one).  \<open>Sema\<close> is a semaphore that stands alone.
\<close>

datatype sema_addr =
    Sema nat | Lock_sema nat | Sema_p nat | Sema_wait nat | Sema_load nat | Sema_zombi nat | Waiter_sema nat

record semaphore =
  sema_value :: u32
  waiters :: "nat list"

record thread =
  tid :: int
  status :: thread_status
  name :: "u8 list"
  stack :: nat
  priority :: int
  original_priority :: int
  donor :: "nat list"
  try_lock :: nat
  fd :: int
  load_status :: int
  file_name :: nat
  parent :: int
  child_proc :: nat
  child_list :: "nat list"
  file_list :: "nat list"
  executable :: nat
  pagedir :: nat
  magic :: u32
  timeChecker :: int
  cur_dir :: nat

text \<open>
  What a thread still has to do when a call returns to it.
  \<open>F_intr_set_level\<close> restores the interrupt level at the end of a function,
  \<open>F_sema_down\<close> is the loop of \<open>sema_down\<close>, \<open>F_lock_acquired\<close> the end of \<open>lock_acquire\<close>,
  \<open>F_call_sema_down\<close> and \<open>F_call_lock_acquire\<close> are the last two calls of \<open>cond_wait\<close>,
  \<open>F_cond_broadcast\<close> is the loop of \<open>cond_broadcast\<close>, \<open>F_iret\<close> the return from an
  interrupt, \<open>F_idle\<close> and \<open>F_idle_hlt\<close> the two halves of the idle loop, and \<open>F_body\<close>
  the function the thread was created with.
\<close>

datatype frame =
    F_intr_set_level intr_level
  | F_sema_down sema_addr intr_level
  | F_lock_acquired nat
  | F_call_sema_down sema_addr
  | F_call_lock_acquire nat
  | F_cond_broadcast nat nat
  | F_iret
  | F_idle
  | F_idle_hlt
  | F_body

text \<open>
  The kernel state: the memory of the thread pages, of the semaphores, of the locks (the
  holder) and of the condition variables; the static variables of \<open>thread.c\<close>,
  \<open>interrupt.c\<close> and \<open>timer.c\<close>; and of the processor the interrupt flag, the page directory
  register and the ring 0 stack pointer of the task state segment.  \<open>running\<close> is the page
  the stack pointer is in.
\<close>

record kernel =
  threads :: "nat \<Rightarrow> thread"
  semas :: "sema_addr \<Rightarrow> semaphore"
  holder :: "nat \<Rightarrow> nat"
  cond_waiters :: "nat \<Rightarrow> nat list"
  kstack :: "nat \<Rightarrow> frame list"
  running :: nat
  ready_list :: "nat list"
  all_list :: "nat list"
  sleep_list :: "nat list"
  idle_thread :: nat
  initial_thread :: nat
  thread_ticks :: nat
  idle_ticks :: nat
  kernel_ticks :: nat
  user_ticks :: nat
  ticks :: int
  next_tid :: int
  intr :: intr_level
  in_external_intr :: bool
  yield_on_return :: bool
  cr3 :: nat
  esp0 :: nat

definition upd_thread :: "nat \<Rightarrow> (thread \<Rightarrow> thread) \<Rightarrow> kernel \<Rightarrow> kernel" where
  "upd_thread t f k = k\<lparr>threads := (threads k)(t := f (threads k t))\<rparr>"

definition set_status :: "nat \<Rightarrow> thread_status \<Rightarrow> kernel \<Rightarrow> kernel" where
  "set_status t s = upd_thread t (\<lambda>th. th\<lparr>status := s\<rparr>)"

definition upd_sema :: "sema_addr \<Rightarrow> (semaphore \<Rightarrow> semaphore) \<Rightarrow> kernel \<Rightarrow> kernel" where
  "upd_sema s f k = k\<lparr>semas := (semas k)(s := f (semas k s))\<rparr>"

definition push_frame :: "frame \<Rightarrow> kernel \<Rightarrow> kernel" where
  "push_frame fr k = k\<lparr>kstack := (kstack k)(running k := fr # kstack k (running k))\<rparr>"

section \<open>Interrupt level\<close>

definition intr_get_level :: "kernel \<Rightarrow> intr_level" where
  "intr_get_level k = intr k"

definition intr_context :: "kernel \<Rightarrow> bool" where
  "intr_context k = in_external_intr k"

definition intr_enable :: "kernel \<Rightarrow> (intr_level \<times> kernel) option" where
  "intr_enable k = do {
     let old_level = intr_get_level k;
     ASSERT (\<not> intr_context k);
     Some (old_level, k\<lparr>intr := INTR_ON\<rparr>) }"

definition intr_disable :: "kernel \<Rightarrow> intr_level \<times> kernel" where
  "intr_disable k = (intr_get_level k, k\<lparr>intr := INTR_OFF\<rparr>)"

definition intr_set_level :: "intr_level \<Rightarrow> kernel \<Rightarrow> (intr_level \<times> kernel) option" where
  "intr_set_level level k = (if level = INTR_ON then intr_enable k else Some (intr_disable k))"

definition intr_yield_on_return :: "kernel \<Rightarrow> kernel option" where
  "intr_yield_on_return k = do {
     ASSERT (intr_context k);
     Some (k\<lparr>yield_on_return := True\<rparr>) }"

section \<open>The running thread and the context switch\<close>

definition running_thread :: "kernel \<Rightarrow> nat" where
  "running_thread k = running k"

definition is_thread :: "kernel \<Rightarrow> nat \<Rightarrow> bool" where
  "is_thread k t \<longleftrightarrow> t \<noteq> NULL \<and> magic (threads k t) = THREAD_MAGIC"

definition thread_current :: "kernel \<Rightarrow> nat option" where
  "thread_current k = do {
     let t = running_thread k;
     ASSERT (is_thread k t);
     ASSERT (status (threads k t) = THREAD_RUNNING);
     Some t }"

definition thread_tid :: "kernel \<Rightarrow> int option" where
  "thread_tid k = do { t \<leftarrow> thread_current k; Some (tid (threads k t)) }"

definition thread_name :: "kernel \<Rightarrow> u8 list option" where
  "thread_name k = do { t \<leftarrow> thread_current k; Some (name (threads k t)) }"

text \<open>
  \<open>process_activate\<close> loads the page directory of the running thread (the kernel-only one,
  here \<open>0\<close>, when it has none) and points the task state segment at its kernel stack.
\<close>

definition cr3_activate :: "nat \<Rightarrow> kernel \<Rightarrow> kernel" where
  "cr3_activate pd k = k\<lparr>cr3 := pd\<rparr>"

definition tss_update :: "kernel \<Rightarrow> kernel option" where
  "tss_update k = do { t \<leftarrow> thread_current k; Some (k\<lparr>esp0 := t + PGSIZE\<rparr>) }"

definition process_activate :: "kernel \<Rightarrow> kernel option" where
  "process_activate k = do {
     t \<leftarrow> thread_current k;
     tss_update (cr3_activate (pagedir (threads k t)) k) }"

text \<open>Freeing a page fills it with \<open>0xcc\<close>, so that it no longer passes \<open>is_thread\<close>.\<close>

definition free_thread_page :: "nat \<Rightarrow> kernel \<Rightarrow> kernel" where
  "free_thread_page t = upd_thread t (\<lambda>th. th\<lparr>magic := 0xcccccccc\<rparr>)"

definition thread_schedule_tail :: "nat \<Rightarrow> kernel \<Rightarrow> kernel option" where
  "thread_schedule_tail prev k = do {
     let cur = running_thread k;
     ASSERT (intr_get_level k = INTR_OFF);
     let k = set_status cur THREAD_RUNNING k;
     let k = k\<lparr>thread_ticks := 0\<rparr>;
     k \<leftarrow> process_activate k;
     if prev \<noteq> NULL \<and> status (threads k prev) = THREAD_DYING \<and> prev \<noteq> initial_thread k
     then do { ASSERT (prev \<noteq> cur); Some (free_thread_page prev k) }
     else Some k }"

definition switch_threads :: "nat \<Rightarrow> nat \<Rightarrow> kernel \<Rightarrow> nat \<times> kernel" where
  "switch_threads cur next_t k = (cur, k\<lparr>running := next_t\<rparr>)"

definition next_thread_to_run :: "kernel \<Rightarrow> nat \<times> kernel" where
  "next_thread_to_run k =
     (if ready_list k = [] then (idle_thread k, k)
      else (hd (ready_list k), k\<lparr>ready_list := tl (ready_list k)\<rparr>))"

definition schedule :: "kernel \<Rightarrow> kernel option" where
  "schedule k = do {
     let cur = running_thread k;
     let (next_t, k) = next_thread_to_run k;
     ASSERT (intr_get_level k = INTR_OFF);
     ASSERT (status (threads k cur) \<noteq> THREAD_RUNNING);
     ASSERT (is_thread k next_t);
     let (prev, k) = (if cur \<noteq> next_t then switch_threads cur next_t k else (NULL, k));
     thread_schedule_tail prev k }"

section \<open>Comparison functions\<close>

text \<open>
  \<open>comparePriority\<close> receives list elements and takes each for the \<open>elem\<close> member of a
  thread.  For the \<open>donor_elem\<close> member, which lies eight bytes before \<open>elem\<close>, the thread
  pointer is eight bytes too low and the field read as the priority (offset 28) is the
  word at offset 20: the last four bytes of \<open>name\<close> (offset 8).
\<close>

datatype thread_elem = Elem nat | Donor_elem nat

definition name_word :: "u8 list \<Rightarrow> int" where
  "name_word n = sint (word_rcat [n ! 15, n ! 14, n ! 13, n ! 12] :: u32)"

fun elem_priority :: "kernel \<Rightarrow> thread_elem \<Rightarrow> int" where
  "elem_priority k (Elem t) = priority (threads k t)"
| "elem_priority k (Donor_elem t) = name_word (name (threads k t))"

definition comparePriority :: "kernel \<Rightarrow> thread_elem \<Rightarrow> thread_elem \<Rightarrow> bool" where
  "comparePriority k current_thread other_thread \<longleftrightarrow>
     elem_priority k current_thread > elem_priority k other_thread"

definition compare_timer :: "kernel \<Rightarrow> nat \<Rightarrow> nat \<Rightarrow> bool" where
  "compare_timer k current_list other_list \<longleftrightarrow>
     timeChecker (threads k current_list) < timeChecker (threads k other_list)"

definition by_priority :: "kernel \<Rightarrow> nat \<Rightarrow> nat \<Rightarrow> bool" where
  "by_priority k a b = comparePriority k (Elem a) (Elem b)"

definition by_donor :: "kernel \<Rightarrow> nat \<Rightarrow> nat \<Rightarrow> bool" where
  "by_donor k a b = comparePriority k (Donor_elem a) (Donor_elem b)"

section \<open>Blocking, unblocking, yielding\<close>

definition thread_block :: "kernel \<Rightarrow> kernel option" where
  "thread_block k = do {
     ASSERT (\<not> intr_context k);
     ASSERT (intr_get_level k = INTR_OFF);
     cur \<leftarrow> thread_current k;
     schedule (set_status cur THREAD_BLOCKED k) }"

definition thread_unblock :: "nat \<Rightarrow> kernel \<Rightarrow> kernel option" where
  "thread_unblock t k = do {
     ASSERT (is_thread k t);
     let (old_level, k) = intr_disable k;
     ASSERT (status (threads k t) = THREAD_BLOCKED);
     let k = k\<lparr>ready_list := insert_ordered (by_priority k) t (ready_list k)\<rparr>;
     let k = set_status t THREAD_READY k;
     (_, k) \<leftarrow> intr_set_level old_level k;
     Some k }"

definition thread_yield :: "kernel \<Rightarrow> kernel option" where
  "thread_yield k = do {
     cur \<leftarrow> thread_current k;
     ASSERT (\<not> intr_context k);
     let (old_level, k) = intr_disable k;
     let k = (if cur \<noteq> idle_thread k
              then k\<lparr>ready_list := insert_ordered (by_priority k) cur (ready_list k)\<rparr> else k);
     let k = set_status cur THREAD_READY k;
     schedule (push_frame (F_intr_set_level old_level) k) }"

definition check_priority :: "kernel \<Rightarrow> kernel option" where
  "check_priority k =
     (if ready_list k \<noteq> [] then do {
        cur \<leftarrow> thread_current k;
        if priority (threads k cur) < priority (threads k (hd (ready_list k))) then thread_yield k else Some k }
      else Some k)"

definition thread_set_priority :: "int \<Rightarrow> kernel \<Rightarrow> kernel option" where
  "thread_set_priority new_priority k = do {
     let (old_level, k) = intr_disable k;
     cur \<leftarrow> thread_current k;
     let k = upd_thread cur (\<lambda>th. th\<lparr>priority := new_priority\<rparr>) k;
     let k = upd_thread cur (\<lambda>th. th\<lparr>original_priority := new_priority\<rparr>) k;
     check_priority (push_frame (F_intr_set_level old_level) k) }"

definition thread_get_priority :: "kernel \<Rightarrow> int option" where
  "thread_get_priority k = do {
     cur \<leftarrow> thread_current k;
     let p = priority (threads k cur);
     if donor (threads k cur) \<noteq> [] then do {
       let other = priority (threads k (last (donor (threads k cur))));
       Some (if other > p then other else p) }
     else Some p }"

definition thread_tick :: "kernel \<Rightarrow> kernel option" where
  "thread_tick k = do {
     t \<leftarrow> thread_current k;
     let k = (if t = idle_thread k then k\<lparr>idle_ticks := idle_ticks k + 1\<rparr>
              else if pagedir (threads k t) \<noteq> NULL then k\<lparr>user_ticks := user_ticks k + 1\<rparr>
              else k\<lparr>kernel_ticks := kernel_ticks k + 1\<rparr>);
     let k = k\<lparr>thread_ticks := wrap32 (thread_ticks k + 1)\<rparr>;
     if thread_ticks k \<ge> TIME_SLICE then intr_yield_on_return k else Some k }"

section \<open>The list of all threads\<close>

primrec exist_loop :: "kernel \<Rightarrow> int \<Rightarrow> nat list \<Rightarrow> bool" where
  "exist_loop k i [] = False"
| "exist_loop k i (t # ts) = (if tid (threads k t) = i then True else exist_loop k i ts)"

definition thread_exist :: "int \<Rightarrow> kernel \<Rightarrow> bool" where
  "thread_exist i k = exist_loop k i (all_list k)"

primrec get_loop :: "kernel \<Rightarrow> int \<Rightarrow> nat list \<Rightarrow> nat" where
  "get_loop k i [] = NULL"
| "get_loop k i (t # ts) = (if tid (threads k t) = i then t else get_loop k i ts)"

definition get_thread :: "int \<Rightarrow> kernel \<Rightarrow> nat" where
  "get_thread i k = get_loop k i (all_list k)"

primrec foreach_loop :: "(nat \<Rightarrow> kernel \<Rightarrow> kernel option) \<Rightarrow> nat list \<Rightarrow> kernel \<Rightarrow> kernel option" where
  "foreach_loop func [] k = Some k"
| "foreach_loop func (t # ts) k = func t k \<bind> foreach_loop func ts"

definition thread_foreach :: "(nat \<Rightarrow> kernel \<Rightarrow> kernel option) \<Rightarrow> kernel \<Rightarrow> kernel option" where
  "thread_foreach func k = do {
     ASSERT (intr_get_level k = INTR_OFF);
     foreach_loop func (all_list k) k }"

section \<open>The idle thread and interrupts\<close>

definition idle_block :: "kernel \<Rightarrow> kernel option" where
  "idle_block k = do {
     let (_, k) = intr_disable k;
     thread_block (push_frame F_idle_hlt k) }"

definition idle_hlt :: "kernel \<Rightarrow> kernel" where
  "idle_hlt k = push_frame F_idle (k\<lparr>intr := INTR_ON\<rparr>)"

text \<open>
  An external interrupt: the gate clears the interrupt flag and saves the old flags, which
  the return from the interrupt restores; only an enabled interrupt is delivered, so the
  saved flag is \<open>INTR_ON\<close>.  \<open>handler\<close> is the entry of \<open>intr_handlers\<close> for the vector.
\<close>

definition intr_handler :: "(kernel \<Rightarrow> kernel option) \<Rightarrow> kernel \<Rightarrow> kernel option" where
  "intr_handler handler k = do {
     let k = push_frame F_iret (k\<lparr>intr := INTR_OFF\<rparr>);
     ASSERT (intr_get_level k = INTR_OFF);
     ASSERT (\<not> intr_context k);
     let k = k\<lparr>in_external_intr := True, yield_on_return := False\<rparr>;
     k \<leftarrow> handler k;
     ASSERT (intr_get_level k = INTR_OFF);
     ASSERT (intr_context k);
     let k = k\<lparr>in_external_intr := False\<rparr>;
     if yield_on_return k then thread_yield k else Some k }"


section \<open>The orders of the kernel lists\<close>

interpretation prio: list_order "by_priority k" for k
  by unfold_locales (auto simp: by_priority_def comparePriority_def)

interpretation donors: list_order "by_donor k" for k
  by unfold_locales (auto simp: by_donor_def comparePriority_def)

interpretation wake: list_order "compare_timer k" for k
  by unfold_locales (auto simp: compare_timer_def)

lemma distinct_insert_ordered [simp]: "distinct (insert_ordered lt x xs) \<longleftrightarrow> x \<notin> set xs \<and> distinct xs"
  by (induction xs) auto

section \<open>The scheduler invariant\<close>

text \<open>
  A semaphore in a thread or on its stack is waited for by that thread only.
\<close>

fun own_sema :: "sema_addr \<Rightarrow> nat \<Rightarrow> bool" where
  "own_sema (Sema_p u) t = (u = t)"
| "own_sema (Waiter_sema u) t = (u = t)"
| "own_sema _ t = True"

fun frame_ok :: "bool \<Rightarrow> nat \<Rightarrow> frame \<Rightarrow> bool" where
  "frame_ok is_idle t (F_intr_set_level l) = True"
| "frame_ok is_idle t F_iret = True"
| "frame_ok is_idle t F_idle = True"
| "frame_ok is_idle t F_idle_hlt = True"
| "frame_ok is_idle t (F_sema_down s l) = (\<not> is_idle \<and> own_sema s t)"
| "frame_ok is_idle t (F_call_sema_down s) = (\<not> is_idle \<and> s = Waiter_sema t)"
| "frame_ok is_idle t _ = (\<not> is_idle)"

fun waits_at :: "frame list \<Rightarrow> sema_addr \<Rightarrow> bool" where
  "waits_at (F_sema_down s l # r) s' = (s = s')"
| "waits_at _ s' = False"

fun is_sema_down :: "frame \<Rightarrow> bool" where
  "is_sema_down (F_sema_down s l) = True"
| "is_sema_down _ = False"

definition stack_ok :: "bool \<Rightarrow> nat \<Rightarrow> frame list \<Rightarrow> bool" where
  "stack_ok is_idle t frs \<longleftrightarrow> (\<forall>fr \<in> set frs. frame_ok is_idle t fr) \<and> (\<forall>fr \<in> set (tl frs). \<not> is_sema_down fr)"

text \<open>
  The ready list holds the threads that are ready, each once, the idle thread apart; the
  list of a semaphore holds exactly the threads blocked in the loop of \<open>sema_down\<close> on it;
  the idle thread never waits on a semaphore.  \<open>active\<close> says whether the running thread
  has its running status: between a change of that status and the end of \<open>schedule\<close> no
  thread has it.
\<close>

definition sched_inv :: "bool \<Rightarrow> kernel \<Rightarrow> bool" where
  "sched_inv active k \<longleftrightarrow>
     is_thread k (running k) \<and>
     is_thread k (idle_thread k) \<and>
     status (threads k (idle_thread k)) \<noteq> THREAD_DYING \<and>
     (\<forall>t. is_thread k t \<longrightarrow> status (threads k t) = THREAD_RUNNING \<longleftrightarrow> active \<and> t = running k) \<and>
     distinct (ready_list k) \<and>
     (\<forall>t. t \<in> set (ready_list k) \<longleftrightarrow>
        is_thread k t \<and> status (threads k t) = THREAD_READY \<and> t \<noteq> idle_thread k) \<and>
     (\<forall>s. distinct (waiters (semas k s))) \<and>
     (\<forall>s t. t \<in> set (waiters (semas k s)) \<longleftrightarrow>
        is_thread k t \<and> status (threads k t) = THREAD_BLOCKED \<and> waits_at (kstack k t) s) \<and>
     (\<forall>t. stack_ok (t = idle_thread k) t (kstack k t))"

lemma sched_invD:
  assumes "sched_inv active k"
  shows "is_thread k (running k)" "is_thread k (idle_thread k)"
    "status (threads k (idle_thread k)) \<noteq> THREAD_DYING"
    "is_thread k t \<Longrightarrow> status (threads k t) = THREAD_RUNNING \<longleftrightarrow> active \<and> t = running k"
    "distinct (ready_list k)"
    "t \<in> set (ready_list k) \<longleftrightarrow> is_thread k t \<and> status (threads k t) = THREAD_READY \<and> t \<noteq> idle_thread k"
    "distinct (waiters (semas k s))"
    "t \<in> set (waiters (semas k s)) \<longleftrightarrow>
       is_thread k t \<and> status (threads k t) = THREAD_BLOCKED \<and> waits_at (kstack k t) s"
    "stack_ok (t = idle_thread k) t (kstack k t)"
  using assms unfolding sched_inv_def by blast+

lemma waits_at_iff: "waits_at frs s \<longleftrightarrow> (\<exists>l r. frs = F_sema_down s l # r)"
  by (cases "(frs, s)" rule: waits_at.cases) auto

lemma waits_at_not_idle: "stack_ok is_idle t frs \<Longrightarrow> waits_at frs s \<Longrightarrow> \<not> is_idle \<and> own_sema s t"
  by (auto simp: waits_at_iff stack_ok_def)

lemma thread_current_active: "sched_inv True k \<Longrightarrow> thread_current k = Some (running k)"
  by (auto simp: thread_current_def running_thread_def sched_inv_def)

lemma thread_current_eq_Some: "thread_current k = Some t \<longleftrightarrow>
   t = running k \<and> is_thread k t \<and> status (threads k t) = THREAD_RUNNING"
  by (auto simp: thread_current_def running_thread_def Let_def)

subsection \<open>Fields that an operation leaves alone\<close>

lemma upd_thread_fields [simp]:
  "threads (upd_thread t f k) = (threads k)(t := f (threads k t))"
  "semas (upd_thread t f k) = semas k" "holder (upd_thread t f k) = holder k"
  "cond_waiters (upd_thread t f k) = cond_waiters k" "kstack (upd_thread t f k) = kstack k"
  "running (upd_thread t f k) = running k" "ready_list (upd_thread t f k) = ready_list k"
  "all_list (upd_thread t f k) = all_list k" "sleep_list (upd_thread t f k) = sleep_list k"
  "idle_thread (upd_thread t f k) = idle_thread k" "initial_thread (upd_thread t f k) = initial_thread k"
  "thread_ticks (upd_thread t f k) = thread_ticks k" "ticks (upd_thread t f k) = ticks k"
  "next_tid (upd_thread t f k) = next_tid k" "intr (upd_thread t f k) = intr k"
  "in_external_intr (upd_thread t f k) = in_external_intr k"
  "yield_on_return (upd_thread t f k) = yield_on_return k" "cr3 (upd_thread t f k) = cr3 k" "esp0 (upd_thread t f k) = esp0 k"
  by (simp_all add: upd_thread_def)

lemma upd_sema_fields [simp]:
  "threads (upd_sema s f k) = threads k"
  "semas (upd_sema s f k) = (semas k)(s := f (semas k s))" "holder (upd_sema s f k) = holder k"
  "cond_waiters (upd_sema s f k) = cond_waiters k" "kstack (upd_sema s f k) = kstack k"
  "running (upd_sema s f k) = running k" "ready_list (upd_sema s f k) = ready_list k"
  "all_list (upd_sema s f k) = all_list k" "sleep_list (upd_sema s f k) = sleep_list k"
  "idle_thread (upd_sema s f k) = idle_thread k" "initial_thread (upd_sema s f k) = initial_thread k"
  "thread_ticks (upd_sema s f k) = thread_ticks k" "ticks (upd_sema s f k) = ticks k"
  "next_tid (upd_sema s f k) = next_tid k" "intr (upd_sema s f k) = intr k"
  "in_external_intr (upd_sema s f k) = in_external_intr k"
  "yield_on_return (upd_sema s f k) = yield_on_return k" "cr3 (upd_sema s f k) = cr3 k" "esp0 (upd_sema s f k) = esp0 k"
  by (simp_all add: upd_sema_def)

lemma push_frame_fields [simp]:
  "threads (push_frame fr k) = threads k" "semas (push_frame fr k) = semas k"
  "holder (push_frame fr k) = holder k" "cond_waiters (push_frame fr k) = cond_waiters k"
  "kstack (push_frame fr k) = (kstack k)(running k := fr # kstack k (running k))"
  "running (push_frame fr k) = running k" "ready_list (push_frame fr k) = ready_list k"
  "all_list (push_frame fr k) = all_list k" "sleep_list (push_frame fr k) = sleep_list k"
  "idle_thread (push_frame fr k) = idle_thread k" "initial_thread (push_frame fr k) = initial_thread k"
  "thread_ticks (push_frame fr k) = thread_ticks k" "ticks (push_frame fr k) = ticks k"
  "next_tid (push_frame fr k) = next_tid k" "intr (push_frame fr k) = intr k"
  "in_external_intr (push_frame fr k) = in_external_intr k"
  "yield_on_return (push_frame fr k) = yield_on_return k" "cr3 (push_frame fr k) = cr3 k" "esp0 (push_frame fr k) = esp0 k"
  by (simp_all add: push_frame_def)

lemma sched_inv_cong:
  assumes "sched_inv active k"
    "\<And>t. magic (threads k' t) = magic (threads k t)" "\<And>t. status (threads k' t) = status (threads k t)"
    "\<And>s. waiters (semas k' s) = waiters (semas k s)" "kstack k' = kstack k" "running k' = running k"
    "ready_list k' = ready_list k" "idle_thread k' = idle_thread k"
  shows "sched_inv active k'"
  using assms(1) unfolding sched_inv_def is_thread_def assms(2-) .

subsection \<open>The context switch\<close>

text \<open>
  \<open>schedule\<close> succeeds whenever the running thread has given up its running status, and
  the thread at the head of the ready list, or else the idle thread, runs.
\<close>

definition next_thread :: "kernel \<Rightarrow> nat" where
  "next_thread k = (if ready_list k = [] then idle_thread k else hd (ready_list k))"

definition switched :: "kernel \<Rightarrow> kernel \<Rightarrow> bool" where
  "switched k k' \<longleftrightarrow>
     running k' = next_thread k \<and> ready_list k' = tl (ready_list k) \<and> intr k' = INTR_OFF \<and>
     semas k' = semas k \<and> holder k' = holder k \<and> cond_waiters k' = cond_waiters k \<and> kstack k' = kstack k \<and>
     sleep_list k' = sleep_list k \<and> all_list k' = all_list k \<and> idle_thread k' = idle_thread k \<and>
     initial_thread k' = initial_thread k \<and> in_external_intr k' = in_external_intr k \<and>
     ticks k' = ticks k \<and> next_tid k' = next_tid k \<and> thread_ticks k' = 0 \<and>
     cr3 k' = pagedir (threads k (next_thread k)) \<and> esp0 k' = next_thread k + PGSIZE \<and>
     (\<forall>t. threads k' t = (threads k t)
        \<lparr>status := if t = next_thread k then THREAD_RUNNING else status (threads k t),
         magic := if t = running k \<and> t \<noteq> next_thread k \<and> status (threads k t) = THREAD_DYING \<and> t \<noteq> initial_thread k
                  then 0xcccccccc else magic (threads k t)\<rparr>)"

lemma switchedD:
  assumes "switched k k'"
  shows "running k' = next_thread k" "ready_list k' = tl (ready_list k)" "intr k' = INTR_OFF"
    "semas k' = semas k" "holder k' = holder k" "cond_waiters k' = cond_waiters k" "kstack k' = kstack k"
    "sleep_list k' = sleep_list k" "all_list k' = all_list k" "idle_thread k' = idle_thread k"
    "in_external_intr k' = in_external_intr k" "ticks k' = ticks k" "thread_ticks k' = 0"
    "cr3 k' = pagedir (threads k (next_thread k))" "esp0 k' = next_thread k + PGSIZE"
    "priority (threads k' t) = priority (threads k t)" "timeChecker (threads k' t) = timeChecker (threads k t)"
    "try_lock (threads k' t) = try_lock (threads k t)" "donor (threads k' t) = donor (threads k t)"
    "original_priority (threads k' t) = original_priority (threads k t)"
  using assms by (simp_all add: switched_def)

lemma thread_schedule_tail_eq:
  assumes "intr k = INTR_OFF" "is_thread k (running k)" "prev \<noteq> running k"
  shows "thread_schedule_tail prev k = Some
    (let k1 = set_status (running k) THREAD_RUNNING k\<lparr>thread_ticks := 0, cr3 := pagedir (threads k (running k)),
                esp0 := running k + PGSIZE\<rparr>
     in if prev \<noteq> NULL \<and> status (threads k prev) = THREAD_DYING \<and> prev \<noteq> initial_thread k
        then free_thread_page prev k1 else k1)"
proof -
  have "process_activate (set_status (running k) THREAD_RUNNING k\<lparr>thread_ticks := 0\<rparr>) =
    Some (set_status (running k) THREAD_RUNNING k\<lparr>thread_ticks := 0, cr3 := pagedir (threads k (running k)),
                esp0 := running k + PGSIZE\<rparr>)"
    using assms(2) by (simp add: process_activate_def tss_update_def cr3_activate_def thread_current_def
        running_thread_def is_thread_def set_status_def upd_thread_def)
  then show ?thesis using assms(1,3)
    by (simp add: thread_schedule_tail_def running_thread_def intr_get_level_def Let_def set_status_def
        upd_thread_def)
qed

lemma schedule_eq:
  assumes "intr k = INTR_OFF" "status (threads k (running k)) \<noteq> THREAD_RUNNING" "is_thread k (next_thread k)"
  shows "schedule k = thread_schedule_tail (if running k = next_thread k then NULL else running k)
     (k\<lparr>ready_list := tl (ready_list k), running := next_thread k\<rparr>)"
proof (cases "running k = next_thread k")
  case True
  then have "snd (next_thread_to_run k) = k\<lparr>ready_list := tl (ready_list k), running := next_thread k\<rparr>"
    "fst (next_thread_to_run k) = next_thread k"
    by (cases k; auto simp: next_thread_to_run_def next_thread_def)+
  then show ?thesis using assms True
    by (simp add: schedule_def running_thread_def intr_get_level_def Let_def is_thread_def split_beta)
next
  case False
  have "snd (next_thread_to_run k) = k\<lparr>ready_list := tl (ready_list k)\<rparr>"
    "fst (next_thread_to_run k) = next_thread k"
    by (cases k; auto simp: next_thread_to_run_def next_thread_def)+
  then show ?thesis using assms False
    by (simp add: schedule_def running_thread_def intr_get_level_def Let_def is_thread_def split_beta
        switch_threads_def)
qed

lemma schedule_switched:
  assumes "intr k = INTR_OFF" "status (threads k (running k)) \<noteq> THREAD_RUNNING" "is_thread k (next_thread k)"
    "running k \<noteq> NULL"
  shows "\<exists>k'. schedule k = Some k' \<and> switched k k'"
proof -
  have "next_thread k \<noteq> NULL" using assms(3) by (simp add: is_thread_def)
  then show ?thesis
    unfolding schedule_eq [OF assms(1-3)]
    using assms by (subst thread_schedule_tail_eq)
      (auto simp: is_thread_def switched_def Let_def set_status_def free_thread_page_def fun_eq_iff)
qed

lemma next_thread_cases:
  assumes "sched_inv active k"
  shows "is_thread k (next_thread k) \<and> status (threads k (next_thread k)) \<noteq> THREAD_DYING"
proof (cases "ready_list k = []")
  case True
  then show ?thesis using sched_invD(2,3) [OF assms] by (simp add: next_thread_def)
next
  case False
  then have "next_thread k \<in> set (ready_list k)" by (simp add: next_thread_def)
  then show ?thesis using sched_invD(6) [OF assms, of "next_thread k"] by simp
qed

lemmas next_thread_is_thread = next_thread_cases [THEN conjunct1]

lemma switched_inv:
  assumes inv: "sched_inv False k" and sw: "switched k k'"
  shows "sched_inv True k'"
proof -
  note D = sched_invD [OF inv]
  let ?n = "next_thread k"
  have n: "is_thread k ?n" "status (threads k ?n) \<noteq> THREAD_DYING"
    using next_thread_cases [OF inv] by simp_all
  have T: "threads k' t = (threads k t)
        \<lparr>status := if t = ?n then THREAD_RUNNING else status (threads k t),
         magic := if t = running k \<and> t \<noteq> ?n \<and> status (threads k t) = THREAD_DYING \<and> t \<noteq> initial_thread k
                  then 0xcccccccc else magic (threads k t)\<rparr>" for t
    using sw by (simp add: switched_def)
  have thr: "is_thread k' t \<longleftrightarrow> is_thread k t \<and>
      \<not> (t = running k \<and> t \<noteq> ?n \<and> status (threads k t) = THREAD_DYING \<and> t \<noteq> initial_thread k)" for t
    by (auto simp: is_thread_def T THREAD_MAGIC_def)
  have st: "status (threads k' t) = (if t = ?n then THREAD_RUNNING else status (threads k t))" for t
    by (simp add: T)
  have ready: "t \<in> set (tl (ready_list k)) \<longleftrightarrow> t \<in> set (ready_list k) \<and> t \<noteq> ?n" for t
    using D(5,6) by (cases "ready_list k") (auto simp: next_thread_def)
  have nowait: "?n \<notin> set (waiters (semas k s))" for s
  proof (cases "ready_list k = []")
    case True
    then show ?thesis using D(8) waits_at_not_idle [OF D(9)] by (auto simp: next_thread_def)
  next
    case False
    then have "?n \<in> set (ready_list k)" by (simp add: next_thread_def)
    then show ?thesis using D(6) [of ?n] D(8) [of ?n s] by simp
  qed
  have w: "t \<in> set (waiters (semas k s)) \<longleftrightarrow> is_thread k' t \<and> status (threads k' t) = THREAD_BLOCKED \<and>
      waits_at (kstack k t) s" for s t
    unfolding thr st using D(8) [of t s] nowait [of s] by auto
  have r: "t \<in> set (tl (ready_list k)) \<longleftrightarrow>
      is_thread k' t \<and> status (threads k' t) = THREAD_READY \<and> t \<noteq> idle_thread k" for t
    unfolding ready thr st using D(6) [of t] by auto
  have other: "running k' = ?n" "ready_list k' = tl (ready_list k)" "semas k' = semas k" "kstack k' = kstack k"
    "idle_thread k' = idle_thread k"
    using sw by (simp_all add: switched_def)
  show ?thesis
    unfolding sched_inv_def other
    using D(2,3,5,7,9) n D(4) r w by (auto simp: thr st distinct_tl)
qed

lemma schedule_inv:
  assumes "sched_inv False k" "intr k = INTR_OFF"
  shows "\<exists>k'. schedule k = Some k' \<and> switched k k' \<and> sched_inv True k'"
proof -
  have "running k \<noteq> NULL" "status (threads k (running k)) \<noteq> THREAD_RUNNING"
    using sched_invD(1,4) [OF assms(1)] by (auto simp: is_thread_def)
  then show ?thesis
    using schedule_switched [OF assms(2) _ next_thread_is_thread [OF assms(1)]] switched_inv [OF assms(1)] by blast
qed

subsection \<open>Status changes\<close>

text \<open>The state in which \<open>thread_yield\<close> calls \<open>schedule\<close>.\<close>

definition yielding :: "kernel \<Rightarrow> kernel" where
  "yielding k =
     push_frame (F_intr_set_level (intr k)) (set_status (running k) THREAD_READY (k\<lparr>intr := INTR_OFF,
       ready_list := if running k \<noteq> idle_thread k then insert_ordered (by_priority k) (running k) (ready_list k)
                     else ready_list k\<rparr>))"

lemma stack_ok_push:
  "stack_ok i t frs \<Longrightarrow> frame_ok i t fr \<Longrightarrow> (\<forall>x \<in> set frs. \<not> is_sema_down x) \<Longrightarrow> stack_ok i t (fr # frs)"
  by (auto simp: stack_ok_def)

lemma by_priority_cong [simp]:
  "by_priority (push_frame fr k) = by_priority k" "by_priority (upd_sema s g k) = by_priority k"
  "by_priority (semas_update f1 k) = by_priority k" "by_priority (holder_update f2 k) = by_priority k"
  "by_priority (cond_waiters_update f3 k) = by_priority k"
  "by_priority (kstack_update f4 k) = by_priority k" "by_priority (running_update f5 k) = by_priority k"
  "by_priority (ready_list_update f6 k) = by_priority k"
  "by_priority (all_list_update f7 k) = by_priority k"
  "by_priority (sleep_list_update f8 k) = by_priority k"
  "by_priority (idle_thread_update f9 k) = by_priority k"
  "by_priority (thread_ticks_update f10 k) = by_priority k"
  "by_priority (ticks_update f11 k) = by_priority k" "by_priority (intr_update f12 k) = by_priority k"
  "by_priority (in_external_intr_update f13 k) = by_priority k"
  "by_priority (yield_on_return_update f14 k) = by_priority k"
  by (simp_all add: by_priority_def comparePriority_def fun_eq_iff)

lemma is_thread_cong [simp]:
  "is_thread (push_frame fr k) t = is_thread k t" "is_thread (upd_sema s g k) t = is_thread k t"
  "is_thread (set_status u st k) t = is_thread k t"
  "is_thread (semas_update f15 k) t = is_thread k t" "is_thread (holder_update f16 k) t = is_thread k t"
  "is_thread (cond_waiters_update f17 k) t = is_thread k t"
  "is_thread (kstack_update f18 k) t = is_thread k t" "is_thread (running_update f19 k) t = is_thread k t"
  "is_thread (ready_list_update f20 k) t = is_thread k t"
  "is_thread (all_list_update f21 k) t = is_thread k t"
  "is_thread (sleep_list_update f22 k) t = is_thread k t"
  "is_thread (idle_thread_update f23 k) t = is_thread k t"
  "is_thread (thread_ticks_update f24 k) t = is_thread k t"
  "is_thread (ticks_update f25 k) t = is_thread k t" "is_thread (intr_update f26 k) t = is_thread k t"
  "is_thread (in_external_intr_update f27 k) t = is_thread k t"
  "is_thread (yield_on_return_update f28 k) t = is_thread k t"
  by (simp_all add: is_thread_def set_status_def)

lemma thread_current_cong [simp]:
  "thread_current (push_frame fr k) = thread_current k" "thread_current (upd_sema s g k) = thread_current k"
  "thread_current (semas_update f1 k) = thread_current k"
  "thread_current (holder_update f2 k) = thread_current k"
  "thread_current (cond_waiters_update f3 k) = thread_current k"
  "thread_current (kstack_update f4 k) = thread_current k"
  "thread_current (ready_list_update f5 k) = thread_current k"
  "thread_current (all_list_update f6 k) = thread_current k"
  "thread_current (sleep_list_update f7 k) = thread_current k"
  "thread_current (idle_thread_update f8 k) = thread_current k"
  "thread_current (thread_ticks_update f9 k) = thread_current k"
  "thread_current (ticks_update f10 k) = thread_current k"
  "thread_current (intr_update f11 k) = thread_current k"
  "thread_current (in_external_intr_update f12 k) = thread_current k"
  "thread_current (yield_on_return_update f13 k) = thread_current k"
  by (simp_all add: thread_current_def running_thread_def is_thread_def)

definition unguarded :: "kernel \<Rightarrow> bool" where
  "unguarded k \<longleftrightarrow> (\<forall>fr \<in> set (kstack k (running k)). \<not> is_sema_down fr)"

lemma yielding_inv:
  assumes inv: "sched_inv True k" and u: "unguarded k"
  shows "sched_inv False (yielding k)"
proof -
  note D = sched_invD [OF inv]
  have cur: "is_thread k (running k)" "status (threads k (running k)) = THREAD_RUNNING"
    using D(1,4) by auto
  have notin: "running k \<notin> set (ready_list k)" "running k \<notin> set (waiters (semas k s))" for s
    using D(6,8) cur by auto
  have [simp]: "is_thread (yielding k) t = is_thread k t"
    "status (threads (yielding k) t) = (if t = running k then THREAD_READY else status (threads k t))" for t
    by (auto simp: yielding_def is_thread_def set_status_def)
  have [simp]: "running (yielding k) = running k" "idle_thread (yielding k) = idle_thread k"
    "semas (yielding k) = semas k"
    by (simp_all add: yielding_def set_status_def)
  have st: "stack_ok (t = idle_thread k) t (kstack (yielding k) t)" for t
    using D(9) [of t] u by (auto simp: yielding_def set_status_def unguarded_def intro!: stack_ok_push)
  have w: "t \<in> set (waiters (semas k s)) \<longleftrightarrow> is_thread k t \<and> status (threads (yielding k) t) = THREAD_BLOCKED \<and>
      waits_at (kstack (yielding k) t) s" for t s
    using D(8) [of t s] notin(2) [of s] cur by (auto simp: yielding_def set_status_def)
  have r: "t \<in> set (ready_list (yielding k)) \<longleftrightarrow>
      is_thread k t \<and> status (threads (yielding k) t) = THREAD_READY \<and> t \<noteq> idle_thread k" for t
    using D(6) [of t] cur by (auto simp: yielding_def set_status_def)
  have d: "distinct (ready_list (yielding k))"
    using D(5) notin by (simp add: yielding_def set_status_def)
  show ?thesis unfolding sched_inv_def
    using D(1,2,3,4,7) st w r d by auto
qed

lemma thread_yield_eq:
  assumes "sched_inv True k" "\<not> in_external_intr k"
  shows "thread_yield k = schedule (yielding k)"
  using thread_current_active [OF assms(1)] assms(2)
  by (simp add: thread_yield_def yielding_def intr_disable_def intr_context_def intr_get_level_def Let_def)

text \<open>
  The states between two steps: a thread runs, no interrupt handler is active, and with
  interrupts enabled the running thread is not in the loop of \<open>sema_down\<close>.
\<close>

definition kernel_ok :: "kernel \<Rightarrow> bool" where
  "kernel_ok k \<longleftrightarrow> sched_inv True k \<and> \<not> in_external_intr k \<and> (unguarded k \<or> intr k = INTR_OFF)"

lemma kernel_okI: "sched_inv True k \<Longrightarrow> \<not> in_external_intr k \<Longrightarrow> unguarded k \<Longrightarrow> kernel_ok k"
  by (simp add: kernel_ok_def)

lemma unguarded_cong [simp]:
  "unguarded (k\<lparr>intr := l\<rparr>) = unguarded k" "unguarded (upd_sema s f k) = unguarded k"
  "unguarded (upd_thread t g k) = unguarded k" "unguarded (k\<lparr>ready_list := xs\<rparr>) = unguarded k"
  "unguarded (push_frame fr k) \<longleftrightarrow> \<not> is_sema_down fr \<and> unguarded k"
  by (auto simp: unguarded_def)

lemma schedule_kernel_ok:
  assumes "sched_inv False k" "intr k = INTR_OFF" "\<not> in_external_intr k"
  shows "\<exists>k'. schedule k = Some k' \<and> switched k k' \<and> kernel_ok k'"
proof -
  obtain k' where "schedule k = Some k'" "switched k k'" "sched_inv True k'"
    using schedule_inv [OF assms(1,2)] by blast
  moreover have "intr k' = INTR_OFF" "in_external_intr k' = in_external_intr k"
    using switchedD [OF \<open>switched k k'\<close>] by blast+
  ultimately show ?thesis using assms(3) by (auto simp: kernel_ok_def)
qed

lemma thread_yield_switched:
  assumes "sched_inv True k" "unguarded k" "\<not> in_external_intr k"
  shows "\<exists>k'. thread_yield k = Some k' \<and> switched (yielding k) k' \<and> kernel_ok k'"
  unfolding thread_yield_eq [OF assms(1,3)]
  using assms by (intro schedule_kernel_ok yielding_inv) (auto simp: yielding_def set_status_def)

text \<open>\<open>check_priority\<close> yields exactly when the head of the ready list has a higher priority.\<close>

definition outranked :: "kernel \<Rightarrow> bool" where
  "outranked k \<longleftrightarrow> ready_list k \<noteq> [] \<and> by_priority k (hd (ready_list k)) (running k)"

lemma check_priority_eq:
  assumes "sched_inv True k"
  shows "check_priority k = (if outranked k then thread_yield k else Some k)"
  using thread_current_active [OF assms]
  by (simp add: check_priority_def outranked_def by_priority_def comparePriority_def)

lemma check_priority_ok:
  assumes "sched_inv True k" "unguarded k" "\<not> in_external_intr k"
  shows "\<exists>k'. check_priority k = Some k' \<and> kernel_ok k' \<and> (if outranked k then switched (yielding k) k' else k' = k)"
  unfolding check_priority_eq [OF assms(1)]
  using thread_yield_switched [OF assms] kernel_okI [OF assms(1,3,2)] by auto

text \<open>What yielding leaves alone, whether or not another thread then runs.\<close>

definition preempted :: "kernel \<Rightarrow> kernel \<Rightarrow> bool" where
  "preempted k k' \<longleftrightarrow>
     semas k' = semas k \<and> holder k' = holder k \<and> cond_waiters k' = cond_waiters k \<and> sleep_list k' = sleep_list k \<and>
     idle_thread k' = idle_thread k \<and> ticks k' = ticks k \<and>
     (\<forall>t. timeChecker (threads k' t) = timeChecker (threads k t) \<and> priority (threads k' t) = priority (threads k t) \<and>
        try_lock (threads k' t) = try_lock (threads k t) \<and> donor (threads k' t) = donor (threads k t) \<and>
        original_priority (threads k' t) = original_priority (threads k t)) \<and>
     (kstack k' = kstack k \<or> (\<exists>l. kstack k' = (kstack k)(running k := F_intr_set_level l # kstack k (running k))))"

lemma preempted_refl [simp]: "preempted k k"
  by (simp add: preempted_def)

lemma yield_preempted:
  assumes "switched (yielding k) k'"
  shows "preempted k k'"
  unfolding preempted_def switchedD [OF assms]
  by (auto simp: yielding_def set_status_def)

lemma check_priority_preempted:
  assumes "sched_inv True k" "unguarded k" "\<not> in_external_intr k"
  shows "\<exists>k'. check_priority k = Some k' \<and> kernel_ok k' \<and> preempted k k'"
  using check_priority_ok [OF assms] by (auto split: if_splits intro: yield_preempted)

subsection \<open>Waking a thread\<close>

definition woken :: "nat \<Rightarrow> kernel \<Rightarrow> kernel" where
  "woken t k = set_status t THREAD_READY (k\<lparr>ready_list := insert_ordered (by_priority k) t (ready_list k)\<rparr>)"

lemma intr_restore:
  assumes "intr k = INTR_ON \<longrightarrow> \<not> in_external_intr k'" "intr k' = INTR_OFF"
  shows "intr_set_level (intr k) k' = Some (INTR_OFF, k'\<lparr>intr := intr k\<rparr>)"
  using assms by (cases "intr k") (auto simp: intr_set_level_def intr_enable_def intr_disable_def intr_context_def
      intr_get_level_def)

lemma thread_unblock_eq:
  assumes "is_thread k t" "status (threads k t) = THREAD_BLOCKED" "intr k = INTR_ON \<longrightarrow> \<not> in_external_intr k"
  shows "thread_unblock t k = Some (woken t k)"
proof -
  let ?k = "woken t (k\<lparr>intr := INTR_OFF\<rparr>)"
  have "intr_set_level (intr k) ?k = Some (INTR_OFF, ?k\<lparr>intr := intr k\<rparr>)"
    using assms(3) by (intro intr_restore) (simp_all add: woken_def set_status_def)
  moreover have "?k\<lparr>intr := intr k\<rparr> = woken t k"
    by (rule kernel.equality) (simp_all add: woken_def set_status_def upd_thread_def)
  ultimately show ?thesis using assms
    by (simp add: thread_unblock_def intr_disable_def intr_get_level_def Let_def woken_def)
qed

lemma woken_fields [simp]:
  "semas (woken t k) = semas k" "kstack (woken t k) = kstack k" "running (woken t k) = running k"
  "idle_thread (woken t k) = idle_thread k" "holder (woken t k) = holder k" "intr (woken t k) = intr k"
  "in_external_intr (woken t k) = in_external_intr k" "cond_waiters (woken t k) = cond_waiters k"
  "sleep_list (woken t k) = sleep_list k" "is_thread (woken t k) u = is_thread k u"
  "ready_list (woken t k) = insert_ordered (by_priority k) t (ready_list k)"
  "status (threads (woken t k) u) = (if u = t then THREAD_READY else status (threads k u))"
  "priority (threads (woken t k) u) = priority (threads k u)"
  "timeChecker (threads (woken t k) u) = timeChecker (threads k u)"
  by (auto simp: woken_def set_status_def is_thread_def)

lemma woken_inv:
  assumes inv: "sched_inv active k" and t: "t \<in> set (waiters (semas k s))"
    and ws: "distinct ws" "set ws = set (waiters (semas k s)) - {t}"
  shows "sched_inv active (upd_sema s (\<lambda>sm. sm\<lparr>waiters := ws, sema_value := v sm\<rparr>) (woken t k))"
    (is "sched_inv active ?k")
proof -
  note D = sched_invD [OF inv]
  have T: "is_thread k t" "status (threads k t) = THREAD_BLOCKED" "waits_at (kstack k t) s"
    using D(8) [of t s] t by auto
  have ne: "t \<noteq> idle_thread k" "t \<notin> set (ready_list k)" "t = running k \<Longrightarrow> \<not> active"
    using waits_at_not_idle [OF D(9) T(3)] D(6) [of t] D(4) [of t] T by auto
  have w: "u \<in> set (waiters (semas k s')) \<and> u \<noteq> t \<longleftrightarrow> is_thread k u \<and>
     (if u = t then THREAD_READY else status (threads k u)) = THREAD_BLOCKED \<and> waits_at (kstack k u) s'" for u s'
    using D(8) [of u s'] by auto
  have "s' \<noteq> s \<Longrightarrow> t \<notin> set (waiters (semas k s'))" for s'
    using D(8) [of t s'] T(3) by (auto simp: waits_at_iff)
  then have w': "u \<in> set (waiters (semas ?k s')) \<longleftrightarrow>
     is_thread ?k u \<and> status (threads ?k u) = THREAD_BLOCKED \<and> waits_at (kstack ?k u) s'" for u s'
    using w [of u s'] ws(2) by auto
  have d: "distinct (waiters (semas ?k s'))" for s'
    using D(7) ws(1) by simp
  have r: "u \<in> set (ready_list ?k) \<longleftrightarrow> is_thread ?k u \<and> status (threads ?k u) = THREAD_READY \<and> u \<noteq> idle_thread ?k" for u
    using D(6) [of u] T(1) ne(1) by simp
  have run: "status (threads ?k u) = THREAD_RUNNING \<longleftrightarrow> active \<and> u = running ?k" if "is_thread ?k u" for u
    using D(4) [of u] that ne(3) by auto
  show ?thesis unfolding sched_inv_def
    using D(1,2,3,5,9) ne(1,2) w' d r run by (intro conjI allI impI) (simp_all del: upd_sema_fields(2))
qed

subsection \<open>Pushing and popping frames\<close>

definition pop_frame :: "kernel \<Rightarrow> kernel" where
  "pop_frame k = k\<lparr>kstack := (kstack k)(running k := tl (kstack k (running k)))\<rparr>"

lemma restack_inv:
  assumes inv: "sched_inv True k" and ok: "stack_ok (running k = idle_thread k) (running k) frs"
  shows "sched_inv True (k\<lparr>kstack := (kstack k)(running k := frs)\<rparr>)" (is "sched_inv True ?k")
proof -
  note D = sched_invD [OF inv]
  have "status (threads k (running k)) = THREAD_RUNNING" using D(1,4) by blast
  then have w: "t \<in> set (waiters (semas k s)) \<longleftrightarrow> is_thread k t \<and> status (threads k t) = THREAD_BLOCKED \<and>
     waits_at (kstack ?k t) s" for t s
    using D(8) [of t s] by auto
  have st: "stack_ok (t = idle_thread k) t (kstack ?k t)" for t
    using D(9) [of t] ok by auto
  show ?thesis unfolding sched_inv_def
    using D(1-7) w st by (intro conjI allI impI) simp_all
qed

lemma push_frame_inv:
  assumes "sched_inv True k" "unguarded k" "frame_ok (running k = idle_thread k) (running k) fr"
  shows "sched_inv True (push_frame fr k)"
  unfolding push_frame_def
  by (rule restack_inv [OF assms(1)]) (use assms sched_invD(9) [OF assms(1)] in \<open>auto simp: unguarded_def intro!: stack_ok_push\<close>)

lemma pop_frame_inv:
  assumes "sched_inv True k" "kstack k (running k) = fr # r"
  shows "sched_inv True (pop_frame k)" "unguarded (pop_frame k)" "frame_ok (running k = idle_thread k) (running k) fr"
proof -
  have st: "stack_ok (running k = idle_thread k) (running k) (fr # r)"
    using sched_invD(9) [OF assms(1), of "running k"] assms(2) by simp
  then have "stack_ok (running k = idle_thread k) (running k) r"
    by (cases r) (auto simp: stack_ok_def)
  then show "sched_inv True (pop_frame k)"
    using restack_inv [OF assms(1), of r] assms(2) by (simp add: pop_frame_def)
  show "unguarded (pop_frame k)" "frame_ok (running k = idle_thread k) (running k) fr"
    using st assms(2) by (auto simp: pop_frame_def unguarded_def stack_ok_def)
qed

lemma pop_frame_fields [simp]:
  "threads (pop_frame k) = threads k" "semas (pop_frame k) = semas k" "holder (pop_frame k) = holder k"
  "cond_waiters (pop_frame k) = cond_waiters k" "running (pop_frame k) = running k"
  "kstack (pop_frame k) = (kstack k)(running k := tl (kstack k (running k)))"
  "ready_list (pop_frame k) = ready_list k" "sleep_list (pop_frame k) = sleep_list k"
  "idle_thread (pop_frame k) = idle_thread k" "intr (pop_frame k) = intr k"
  "in_external_intr (pop_frame k) = in_external_intr k" "ticks (pop_frame k) = ticks k"
  by (simp_all add: pop_frame_def)

text \<open>A thread that blocks outside \<open>sema_down\<close>: the idle thread, and a process that has exited.\<close>

lemma blocked_inv:
  assumes inv: "sched_inv True k" and u: "unguarded k"
  shows "sched_inv False (set_status (running k) THREAD_BLOCKED k)" (is "sched_inv False ?k")
proof -
  note D = sched_invD [OF inv]
  have cur: "is_thread k (running k)" "status (threads k (running k)) = THREAD_RUNNING"
    using D(1,4) by auto
  have nw: "\<not> waits_at (kstack k (running k)) s" for s
    using u by (auto simp: unguarded_def waits_at_iff)
  have st: "status (threads ?k t) = (if t = running k then THREAD_BLOCKED else status (threads k t))" for t
    by (simp add: set_status_def)
  have f: "semas ?k = semas k" "kstack ?k = kstack k" "running ?k = running k" "ready_list ?k = ready_list k"
    "idle_thread ?k = idle_thread k"
    by (simp_all add: set_status_def)
  have w: "t \<in> set (waiters (semas k s)) \<longleftrightarrow> is_thread k t \<and> status (threads ?k t) = THREAD_BLOCKED \<and>
      waits_at (kstack k t) s" for t s
    using D(8) [of t s] nw [of s] cur by (auto simp: st)
  have r: "t \<in> set (ready_list k) \<longleftrightarrow>
      is_thread k t \<and> status (threads ?k t) = THREAD_READY \<and> t \<noteq> idle_thread k" for t
    using D(6) [of t] cur by (auto simp: st)
  have n: "\<not> status (threads ?k t) = THREAD_RUNNING" if "is_thread k t" for t
    using D(4) [of t] that by (auto simp: st)
  have i: "status (threads ?k (idle_thread k)) \<noteq> THREAD_DYING" using D(3) by (simp add: st)
  show ?thesis unfolding sched_inv_def f is_thread_cong
    using D(1,2,5,7,9) w r n i by (intro conjI allI impI) simp_all
qed

lemma thread_block_ok:
  assumes "sched_inv True k" "unguarded k" "\<not> in_external_intr k" "intr k = INTR_OFF"
  shows "\<exists>k'. thread_block k = Some k' \<and> kernel_ok k' \<and> switched (set_status (running k) THREAD_BLOCKED k) k'"
proof -
  have "thread_block k = schedule (set_status (running k) THREAD_BLOCKED k)"
    using thread_current_active [OF assms(1)] assms(3,4)
    by (simp add: thread_block_def intr_context_def intr_get_level_def)
  then show ?thesis
    using schedule_kernel_ok [OF blocked_inv [OF assms(1,2)]] assms(3,4) by (auto simp: set_status_def)
qed

end
