(* ===== verification/Synch.thy ===== *)
theory Synch
  imports Sched
begin

text \<open>
  Semaphores, locks with priority donation, and condition variables:
  \<open>threads/synch.c\<close>.  A call that may put the running thread to sleep first leaves the
  rest of its caller on the kernel stack of the thread.
\<close>

section \<open>Semaphores\<close>

definition sema_init :: "sema_addr \<Rightarrow> u32 \<Rightarrow> kernel \<Rightarrow> kernel" where
  "sema_init s v = upd_sema s (\<lambda>_. \<lparr>sema_value = v, waiters = []\<rparr>)"

text \<open>The loop of \<open>sema_down\<close>, entered at the test of its condition.\<close>

definition sema_down_loop :: "sema_addr \<Rightarrow> intr_level \<Rightarrow> kernel \<Rightarrow> kernel option" where
  "sema_down_loop s old_level k =
     (if sema_value (semas k s) = 0 then do {
        cur \<leftarrow> thread_current k;
        let k = upd_sema s (\<lambda>sm. sm\<lparr>waiters := insert_ordered (by_priority k) cur (waiters sm)\<rparr>) k;
        thread_block (push_frame (F_sema_down s old_level) k) }
      else do {
        let k = upd_sema s (\<lambda>sm. sm\<lparr>sema_value := sema_value sm - 1\<rparr>) k;
        (_, k) \<leftarrow> intr_set_level old_level k;
        Some k })"

definition sema_down :: "sema_addr \<Rightarrow> kernel \<Rightarrow> kernel option" where
  "sema_down s k = do {
     ASSERT (\<not> intr_context k);
     let (old_level, k) = intr_disable k;
     sema_down_loop s old_level k }"

definition sema_try_down :: "sema_addr \<Rightarrow> kernel \<Rightarrow> (bool \<times> kernel) option" where
  "sema_try_down s k = do {
     let (old_level, k) = intr_disable k;
     let (success, k) =
       (if sema_value (semas k s) > 0
        then (True, upd_sema s (\<lambda>sm. sm\<lparr>sema_value := sema_value sm - 1\<rparr>) k)
        else (False, k));
     (_, k) \<leftarrow> intr_set_level old_level k;
     Some (success, k) }"

text \<open>\<open>list_sort\<close> is stable, so its result is \<open>sort_list\<close>.\<close>

definition sema_up :: "sema_addr \<Rightarrow> kernel \<Rightarrow> kernel option" where
  "sema_up s k = do {
     let (old_level, k) = intr_disable k;
     k \<leftarrow> (if waiters (semas k s) \<noteq> [] then do {
              let ws = sort_list (by_priority k) (waiters (semas k s));
              let k = upd_sema s (\<lambda>sm. sm\<lparr>waiters := tl ws\<rparr>) k;
              thread_unblock (hd ws) k }
           else Some k);
     let k = upd_sema s (\<lambda>sm. sm\<lparr>sema_value := sema_value sm + 1\<rparr>) k;
     (_, k) \<leftarrow> intr_set_level old_level k;
     if \<not> intr_context k then check_priority k else Some k }"

section \<open>Locks and priority donation\<close>

definition lock_init :: "nat \<Rightarrow> kernel \<Rightarrow> kernel option" where
  "lock_init l k = do {
     ASSERT (l \<noteq> NULL);
     Some (sema_init (Lock_sema l) 1 (k\<lparr>holder := (holder k)(l := NULL)\<rparr>)) }"

definition lock_held_by_current_thread :: "nat \<Rightarrow> kernel \<Rightarrow> bool option" where
  "lock_held_by_current_thread l k = do {
     ASSERT (l \<noteq> NULL);
     cur \<leftarrow> thread_current k;
     Some (holder k l = cur) }"

partial_function (option) donation_loop :: "nat \<Rightarrow> nat \<Rightarrow> kernel \<Rightarrow> kernel option" where
  "donation_loop cur curr_lock k =
     (if curr_lock \<noteq> NULL then
        if holder k curr_lock = NULL then Some k
        else if priority (threads k (holder k curr_lock)) < priority (threads k cur) then
          donation_loop (holder k curr_lock) (try_lock (threads k (holder k curr_lock)))
            (upd_thread (holder k curr_lock) (\<lambda>th. th\<lparr>priority := priority (threads k cur)\<rparr>) k)
        else Some k
      else Some k)"

definition priority_donation :: "kernel \<Rightarrow> kernel option" where
  "priority_donation k = do {
     cur \<leftarrow> thread_current k;
     donation_loop cur (try_lock (threads k cur)) k }"

definition lock_acquire :: "nat \<Rightarrow> kernel \<Rightarrow> kernel option" where
  "lock_acquire l k = do {
     ASSERT (l \<noteq> NULL);
     ASSERT (\<not> intr_context k);
     held \<leftarrow> lock_held_by_current_thread l k;
     ASSERT (\<not> held);
     cur \<leftarrow> thread_current k;
     k \<leftarrow> (if holder k l \<noteq> NULL then do {
              let k = upd_thread cur (\<lambda>th. th\<lparr>try_lock := l\<rparr>) k;
              k \<leftarrow> priority_donation k;
              Some (upd_thread (holder k l)
                (\<lambda>th. th\<lparr>donor := insert_ordered (by_donor k) cur (donor th)\<rparr>) k) }
           else Some k);
     sema_down (Lock_sema l) (push_frame (F_lock_acquired l) k) }"

text \<open>The last two assignments of \<open>lock_acquire\<close>, run once \<open>sema_down\<close> has returned.\<close>

definition lock_acquired :: "nat \<Rightarrow> kernel \<Rightarrow> kernel option" where
  "lock_acquired l k = do {
     let cur = running_thread k;
     let k = upd_thread cur (\<lambda>th. th\<lparr>try_lock := NULL\<rparr>) k;
     cur \<leftarrow> thread_current k;
     Some (k\<lparr>holder := (holder k)(l := cur)\<rparr>) }"

definition lock_try_acquire :: "nat \<Rightarrow> kernel \<Rightarrow> (bool \<times> kernel) option" where
  "lock_try_acquire l k = do {
     ASSERT (l \<noteq> NULL);
     held \<leftarrow> lock_held_by_current_thread l k;
     ASSERT (\<not> held);
     (success, k) \<leftarrow> sema_try_down (Lock_sema l) k;
     if success then do {
       cur \<leftarrow> thread_current k;
       Some (success, k\<lparr>holder := (holder k)(l := cur)\<rparr>) }
     else Some (success, k) }"

text \<open>
  \<open>donation_back\<close> removes elements while it walks the list: \<open>list_remove\<close> leaves the links
  of the removed element in place, so \<open>list_next\<close> of it is the element that followed.
\<close>

primrec donation_back_loop :: "nat \<Rightarrow> kernel \<Rightarrow> nat list \<Rightarrow> nat list" where
  "donation_back_loop l k [] = []"
| "donation_back_loop l k (t # ts) =
     (if try_lock (threads k t) = l then donation_back_loop l k ts else t # donation_back_loop l k ts)"

definition donation_back :: "nat \<Rightarrow> kernel \<Rightarrow> kernel option" where
  "donation_back l k = do {
     cur \<leftarrow> thread_current k;
     Some (upd_thread cur (\<lambda>th. th\<lparr>donor := donation_back_loop l k (donor th)\<rparr>) k) }"

definition priority_recheck :: "kernel \<Rightarrow> kernel option" where
  "priority_recheck k = do {
     cur \<leftarrow> thread_current k;
     if donor (threads k cur) \<noteq> []
     then Some (upd_thread cur (\<lambda>th. th\<lparr>priority := priority (threads k (hd (donor th)))\<rparr>) k)
     else Some (upd_thread cur (\<lambda>th. th\<lparr>priority := original_priority th\<rparr>) k) }"

definition lock_release :: "nat \<Rightarrow> kernel \<Rightarrow> kernel option" where
  "lock_release l k = do {
     ASSERT (l \<noteq> NULL);
     held \<leftarrow> lock_held_by_current_thread l k;
     ASSERT held;
     k \<leftarrow> donation_back l k;
     k \<leftarrow> priority_recheck k;
     sema_up (Lock_sema l) (k\<lparr>holder := (holder k)(l := NULL)\<rparr>) }"

section \<open>Condition variables\<close>

text \<open>
  The list of a condition variable holds the local \<open>semaphore_elem\<close> of every waiting
  thread, named by the address of the thread.
\<close>

definition cond_init :: "nat \<Rightarrow> kernel \<Rightarrow> kernel option" where
  "cond_init c k = do {
     ASSERT (c \<noteq> NULL);
     Some (k\<lparr>cond_waiters := (cond_waiters k)(c := [])\<rparr>) }"

definition cond_wait :: "nat \<Rightarrow> nat \<Rightarrow> kernel \<Rightarrow> kernel option" where
  "cond_wait c l k = do {
     ASSERT (c \<noteq> NULL);
     ASSERT (l \<noteq> NULL);
     ASSERT (\<not> intr_context k);
     held \<leftarrow> lock_held_by_current_thread l k;
     ASSERT held;
     let w = running_thread k;
     let k = sema_init (Waiter_sema w) 0 k;
     let k = k\<lparr>cond_waiters := (cond_waiters k)(c := cond_waiters k c @ [w])\<rparr>;
     let k = push_frame (F_call_lock_acquire l) k;
     let k = push_frame (F_call_sema_down (Waiter_sema w)) k;
     lock_release l k }"

text \<open>
  \<open>convar_compare\<close> compares the threads at the front of the two semaphores.
  \<open>list_front\<close> panics on an empty list.
\<close>

definition waiter_front :: "kernel \<Rightarrow> nat \<Rightarrow> nat option" where
  "waiter_front k w = do {
     ASSERT (waiters (semas k (Waiter_sema w)) \<noteq> []);
     Some (hd (waiters (semas k (Waiter_sema w)))) }"

definition convar_compare :: "kernel \<Rightarrow> nat \<Rightarrow> nat \<Rightarrow> bool option" where
  "convar_compare k a b = do {
     curr_thread \<leftarrow> waiter_front k a;
     other_thread \<leftarrow> waiter_front k b;
     Some (priority (threads k curr_thread) > priority (threads k other_thread)) }"

text \<open>
  Sorting with \<open>convar_compare\<close>.  The first pass of \<open>list_sort\<close> compares every pair of
  neighbours, so with two or more elements each of them is compared and must have a
  thread waiting; with fewer nothing is compared.
\<close>

definition sort_waiters :: "kernel \<Rightarrow> nat list \<Rightarrow> nat list option" where
  "sort_waiters k ws = do {
     ASSERT (length ws \<ge> 2 \<longrightarrow> (\<forall>w \<in> set ws. waiter_front k w \<noteq> None));
     Some (sort_list (\<lambda>a b. convar_compare k a b = Some True) ws) }"

definition cond_signal :: "nat \<Rightarrow> nat \<Rightarrow> kernel \<Rightarrow> kernel option" where
  "cond_signal c l k = do {
     ASSERT (c \<noteq> NULL);
     ASSERT (l \<noteq> NULL);
     ASSERT (\<not> intr_context k);
     held \<leftarrow> lock_held_by_current_thread l k;
     ASSERT held;
     if cond_waiters k c \<noteq> [] then do {
       ws \<leftarrow> sort_waiters k (cond_waiters k c);
       sema_up (Waiter_sema (hd ws)) (k\<lparr>cond_waiters := (cond_waiters k)(c := tl ws)\<rparr>) }
     else Some k }"

text \<open>The loop of \<open>cond_broadcast\<close>, entered at the test of its condition.\<close>

definition cond_broadcast_loop :: "nat \<Rightarrow> nat \<Rightarrow> kernel \<Rightarrow> kernel option" where
  "cond_broadcast_loop c l k =
     (if cond_waiters k c \<noteq> [] then cond_signal c l (push_frame (F_cond_broadcast c l) k) else Some k)"

definition cond_broadcast :: "nat \<Rightarrow> nat \<Rightarrow> kernel \<Rightarrow> kernel option" where
  "cond_broadcast c l k = do {
     ASSERT (c \<noteq> NULL);
     ASSERT (l \<noteq> NULL);
     cond_broadcast_loop c l k }"

section \<open>Semaphores keep the scheduler invariant\<close>

text \<open>The state after the value has been incremented, with interrupts at their old level.\<close>

definition sema_upped :: "sema_addr \<Rightarrow> kernel \<Rightarrow> kernel" where
  "sema_upped s k =
     (if waiters (semas k s) = [] then upd_sema s (\<lambda>sm. sm\<lparr>sema_value := sema_value sm + 1\<rparr>) k
      else let ws = sort_list (by_priority k) (waiters (semas k s))
           in upd_sema s (\<lambda>sm. sm\<lparr>waiters := tl ws, sema_value := sema_value sm + 1\<rparr>) (woken (hd ws) k))"

lemma sort_list_hd_tl:
  "xs \<noteq> [] \<Longrightarrow> distinct xs \<Longrightarrow> hd (sort_list lt xs) \<in> set xs \<and> distinct (tl (sort_list lt xs)) \<and>
     set (tl (sort_list lt xs)) = set xs - {hd (sort_list lt xs)}"
  using set_sort_list [of lt xs] distinct_sort_list [of lt xs] length_sort_list [of lt xs]
  by (cases "sort_list lt xs") (auto simp del: set_sort_list distinct_sort_list length_sort_list)

lemma sema_upped_inv:
  assumes "sched_inv active k"
  shows "sched_inv active (sema_upped s k)"
proof (cases "waiters (semas k s) = []")
  case True
  then show ?thesis by (intro sched_inv_cong [OF assms]) (auto simp: sema_upped_def)
next
  case False
  note * = sort_list_hd_tl [OF False sched_invD(7) [OF assms], of "by_priority k"]
  from woken_inv [OF assms, of _ s "tl (sort_list (by_priority k) (waiters (semas k s)))"] *
  show ?thesis using False by (simp add: sema_upped_def Let_def)
qed

lemma sema_upped_fields [simp]:
  "kstack (sema_upped s k) = kstack k" "running (sema_upped s k) = running k" "holder (sema_upped s k) = holder k"
  "idle_thread (sema_upped s k) = idle_thread k" "intr (sema_upped s k) = intr k"
  "in_external_intr (sema_upped s k) = in_external_intr k" "sleep_list (sema_upped s k) = sleep_list k"
  "cond_waiters (sema_upped s k) = cond_waiters k" "is_thread (sema_upped s k) t = is_thread k t"
  "sema_value (semas (sema_upped s k) s') = sema_value (semas k s') + (if s' = s then 1 else 0)"
  "priority (threads (sema_upped s k) t) = priority (threads k t)"
  "timeChecker (threads (sema_upped s k) t) = timeChecker (threads k t)"
  by (auto simp: sema_upped_def Let_def)

lemma unguarded_sema_upped [simp]: "unguarded (sema_upped s k) = unguarded k"
  by (simp add: unguarded_def)

lemma sema_up_eq:
  assumes "sched_inv active k" "intr k = INTR_ON \<longrightarrow> \<not> in_external_intr k"
  shows "sema_up s k = (if in_external_intr k then Some (sema_upped s k) else check_priority (sema_upped s k))"
proof (cases "waiters (semas k s) = []")
  case True
  let ?k = "upd_sema s (\<lambda>sm. sm\<lparr>sema_value := sema_value sm + 1\<rparr>) (k\<lparr>intr := INTR_OFF\<rparr>)"
  have "intr_set_level (intr k) ?k = Some (INTR_OFF, ?k\<lparr>intr := intr k\<rparr>)"
    using assms(2) by (intro intr_restore) simp_all
  moreover have "?k\<lparr>intr := intr k\<rparr> = sema_upped s k"
    using True by (intro kernel.equality) (simp_all add: sema_upped_def upd_sema_def)
  ultimately show ?thesis using True
    by (simp add: sema_up_def intr_disable_def intr_get_level_def Let_def intr_context_def)
next
  case False
  let ?ws = "sort_list (by_priority k) (waiters (semas k s))"
  let ?k1 = "upd_sema s (\<lambda>sm. sm\<lparr>waiters := tl ?ws\<rparr>) (k\<lparr>intr := INTR_OFF\<rparr>)"
  let ?k = "upd_sema s (\<lambda>sm. sm\<lparr>sema_value := sema_value sm + 1\<rparr>) (woken (hd ?ws) ?k1)"
  have "hd ?ws \<in> set (waiters (semas k s))"
    using sort_list_hd_tl [OF False sched_invD(7) [OF assms(1)]] by blast
  then have "is_thread k (hd ?ws)" "status (threads k (hd ?ws)) = THREAD_BLOCKED"
    using sched_invD(8) [OF assms(1)] by blast+
  then have "thread_unblock (hd ?ws) ?k1 = Some (woken (hd ?ws) ?k1)"
    by (intro thread_unblock_eq) simp_all
  moreover have "intr_set_level (intr k) ?k = Some (INTR_OFF, ?k\<lparr>intr := intr k\<rparr>)"
    using assms(2) by (intro intr_restore) simp_all
  moreover have "?k\<lparr>intr := intr k\<rparr> = sema_upped s k"
    using False by (intro kernel.equality)
      (simp_all add: sema_upped_def upd_sema_def woken_def set_status_def upd_thread_def Let_def)
  ultimately show ?thesis using False
    by (simp add: sema_up_def intr_disable_def intr_get_level_def Let_def intr_context_def)
qed

text \<open>The state in which a thread that has to wait calls \<open>schedule\<close>.\<close>

definition waiting :: "sema_addr \<Rightarrow> intr_level \<Rightarrow> kernel \<Rightarrow> kernel" where
  "waiting s l k =
     set_status (running k) THREAD_BLOCKED (push_frame (F_sema_down s l)
       (upd_sema s (\<lambda>sm. sm\<lparr>waiters := insert_ordered (by_priority k) (running k) (waiters sm)\<rparr>)
         (k\<lparr>intr := INTR_OFF\<rparr>)))"

lemma waiting_inv:
  assumes inv: "sched_inv True k" and u: "unguarded k" and own: "running k \<noteq> idle_thread k" "own_sema s (running k)"
  shows "sched_inv False (waiting s l k)" (is "sched_inv False ?k")
proof -
  note D = sched_invD [OF inv]
  have cur: "is_thread k (running k)" "status (threads k (running k)) = THREAD_RUNNING"
    using D(1,4) by auto
  have notin: "running k \<notin> set (ready_list k)" "running k \<notin> set (waiters (semas k s'))" for s'
    using D(6,8) cur by auto
  have [simp]: "is_thread ?k t = is_thread k t"
    "status (threads ?k t) = (if t = running k then THREAD_BLOCKED else status (threads k t))" for t
    by (auto simp: waiting_def is_thread_def set_status_def)
  have [simp]: "running ?k = running k" "idle_thread ?k = idle_thread k" "ready_list ?k = ready_list k"
    by (simp_all add: waiting_def set_status_def)
  have st: "stack_ok (t = idle_thread k) t (kstack ?k t)" for t
    using D(9) [of t] u own by (auto simp: waiting_def set_status_def unguarded_def intro!: stack_ok_push)
  have w: "t \<in> set (waiters (semas ?k s')) \<longleftrightarrow> is_thread k t \<and> status (threads ?k t) = THREAD_BLOCKED \<and>
      waits_at (kstack ?k t) s'" for t s'
    using D(8) [of t s'] notin(2) [of s'] cur by (auto simp: waiting_def set_status_def)
  have d: "distinct (waiters (semas ?k s'))" for s'
    using D(7) notin(2) by (simp add: waiting_def set_status_def)
  have r: "t \<in> set (ready_list ?k) \<longleftrightarrow> is_thread ?k t \<and> status (threads ?k t) = THREAD_READY \<and> t \<noteq> idle_thread ?k" for t
    using D(6) [of t] notin(1) by auto
  have n: "\<not> status (threads ?k t) = THREAD_RUNNING" if "is_thread ?k t" for t
    using D(4) [of t] that by auto
  show ?thesis unfolding sched_inv_def
    using D(1,2,3,5) st w r d n by (intro conjI allI impI) simp_all
qed

lemma sema_down_loop_ok:
  assumes "sched_inv True k" "unguarded k" "\<not> in_external_intr k" "intr k = INTR_OFF"
    "running k \<noteq> idle_thread k" "own_sema s (running k)"
  shows "\<exists>k'. sema_down_loop s l k = Some k' \<and> kernel_ok k' \<and>
     (if sema_value (semas k s) = 0 then switched (waiting s l k) k'
      else k' = upd_sema s (\<lambda>sm. sm\<lparr>sema_value := sema_value sm - 1\<rparr>) k\<lparr>intr := l\<rparr>)"
proof (cases "sema_value (semas k s) = 0")
  case True
  have off: "k\<lparr>intr := INTR_OFF\<rparr> = k" using assms(4) by (intro kernel.equality) simp_all
  have "sema_down_loop s l k = schedule (waiting s l k)"
    unfolding waiting_def off using True thread_current_active [OF assms(1)] assms(3,4)
    by (simp add: sema_down_loop_def thread_block_def intr_context_def intr_get_level_def Let_def)
  moreover have "\<exists>k'. schedule (waiting s l k) = Some k' \<and> switched (waiting s l k) k' \<and> kernel_ok k'"
    using waiting_inv [OF assms(1,2,5,6), of l] assms(3)
    by (intro schedule_kernel_ok) (simp_all add: waiting_def set_status_def)
  ultimately show ?thesis using True by auto
next
  case False
  let ?k = "upd_sema s (\<lambda>sm. sm\<lparr>sema_value := sema_value sm - 1\<rparr>) k"
  have "intr_set_level l ?k = Some (INTR_OFF, ?k\<lparr>intr := l\<rparr>)"
    using assms(3,4) intr_restore [of "k\<lparr>intr := l\<rparr>" ?k] by simp
  moreover have "sched_inv True (?k\<lparr>intr := l\<rparr>)"
    by (intro sched_inv_cong [OF assms(1)]) auto
  ultimately show ?thesis using False assms(2,3)
    by (auto simp: sema_down_loop_def Let_def intro!: kernel_okI)
qed

lemma sema_down_ok:
  assumes "sched_inv True k" "unguarded k" "\<not> in_external_intr k" "running k \<noteq> idle_thread k"
    "own_sema s (running k)"
  shows "\<exists>k'. sema_down s k = Some k' \<and> kernel_ok k' \<and>
     (if sema_value (semas k s) = 0 then switched (waiting s (intr k) k) k'
      else k' = upd_sema s (\<lambda>sm. sm\<lparr>sema_value := sema_value sm - 1\<rparr>) k)"
proof -
  have inv: "sched_inv True (k\<lparr>intr := INTR_OFF\<rparr>)" by (intro sched_inv_cong [OF assms(1)]) auto
  have eq: "waiting s l (k\<lparr>intr := INTR_OFF\<rparr>) = waiting s l k" for l by (simp add: waiting_def)
  have "upd_sema s f (k\<lparr>intr := INTR_OFF\<rparr>)\<lparr>intr := intr k\<rparr> = upd_sema s f k" for f
    by (intro kernel.equality) (simp_all add: upd_sema_def)
  then show ?thesis using sema_down_loop_ok [OF inv, of s "intr k"] assms(2-)
    by (cases "sema_value (semas k s) = 0")
      (simp_all add: sema_down_def intr_context_def intr_disable_def intr_get_level_def eq)
qed

lemma sema_up_ok:
  assumes "sched_inv True k" "unguarded k" "\<not> in_external_intr k"
  shows "\<exists>k'. sema_up s k = Some k' \<and> kernel_ok k' \<and>
     (if outranked (sema_upped s k) then switched (yielding (sema_upped s k)) k' else k' = sema_upped s k)"
  using check_priority_ok [OF sema_upped_inv [OF assms(1), of s]] sema_up_eq [OF assms(1), of s] assms(2,3) by simp

lemma sema_try_down_ok:
  assumes "intr k = INTR_ON \<longrightarrow> \<not> in_external_intr k"
  shows "sema_try_down s k =
    (if sema_value (semas k s) = 0 then Some (False, k)
     else Some (True, upd_sema s (\<lambda>sm. sm\<lparr>sema_value := sema_value sm - 1\<rparr>) k))"
proof -
  have "intr_set_level (intr k) (k\<lparr>intr := INTR_OFF\<rparr>) = Some (INTR_OFF, k)"
    using intr_restore [of k "k\<lparr>intr := INTR_OFF\<rparr>"] assms by simp
  moreover have "upd_sema s f (k\<lparr>intr := INTR_OFF\<rparr>)\<lparr>intr := intr k\<rparr> = upd_sema s f k" for f
    by (intro kernel.equality) (simp_all add: upd_sema_def)
  then have "intr_set_level (intr k) (upd_sema s f (k\<lparr>intr := INTR_OFF\<rparr>)) = Some (INTR_OFF, upd_sema s f k)" for f
    using intr_restore [of k "upd_sema s f (k\<lparr>intr := INTR_OFF\<rparr>)"] assms by simp
  ultimately show ?thesis
    by (simp add: sema_try_down_def intr_disable_def intr_get_level_def Let_def word_neq_0_conv)
qed

section \<open>Priority donation\<close>

text \<open>Donation changes priorities and nothing else, and only raises them.\<close>

definition set_priorities :: "(nat \<Rightarrow> int) \<Rightarrow> kernel \<Rightarrow> kernel" where
  "set_priorities f k = k\<lparr>threads := \<lambda>t. (threads k t)\<lparr>priority := f t\<rparr>\<rparr>"

definition priorities_raised :: "kernel \<Rightarrow> kernel \<Rightarrow> bool" where
  "priorities_raised k k' \<longleftrightarrow> (\<exists>f. k' = set_priorities f k \<and> (\<forall>t. priority (threads k t) \<le> f t))"

lemma priorities_raised_refl [simp]: "priorities_raised k k"
  unfolding priorities_raised_def
  by (rule exI [of _ "\<lambda>t. priority (threads k t)"]) (simp add: set_priorities_def)

lemma priorities_raised_fields:
  assumes "priorities_raised k k'"
  shows "semas k' = semas k" "holder k' = holder k" "kstack k' = kstack k" "running k' = running k"
    "ready_list k' = ready_list k" "idle_thread k' = idle_thread k" "intr k' = intr k"
    "in_external_intr k' = in_external_intr k" "cond_waiters k' = cond_waiters k" "sleep_list k' = sleep_list k"
    "status (threads k' t) = status (threads k t)" "magic (threads k' t) = magic (threads k t)"
    "try_lock (threads k' t) = try_lock (threads k t)" "donor (threads k' t) = donor (threads k t)"
    "name (threads k' t) = name (threads k t)" "original_priority (threads k' t) = original_priority (threads k t)"
    "priority (threads k t) \<le> priority (threads k' t)"
  using assms by (auto simp: priorities_raised_def set_priorities_def)

lemma raise_priority:
  assumes "priority (threads k t) \<le> p"
  shows "priorities_raised k (upd_thread t (\<lambda>th. th\<lparr>priority := p\<rparr>) k)"
proof -
  have "upd_thread t (\<lambda>th. th\<lparr>priority := p\<rparr>) k = set_priorities (\<lambda>u. if u = t then p else priority (threads k u)) k"
    by (intro kernel.equality) (auto simp: upd_thread_def set_priorities_def)
  then show ?thesis using assms
    unfolding priorities_raised_def by (intro exI [of _ "\<lambda>u. if u = t then p else priority (threads k u)"]) simp
qed

lemma priorities_raised_trans:
  assumes "priorities_raised k k1" "priorities_raised k1 k2"
  shows "priorities_raised k k2"
proof -
  obtain f g where k1: "k1 = set_priorities f k" "\<forall>t. priority (threads k t) \<le> f t"
    and k2: "k2 = set_priorities g k1" "\<forall>t. priority (threads k1 t) \<le> g t"
    using assms by (auto simp: priorities_raised_def)
  have "k2 = set_priorities g k" by (simp add: k1 k2 set_priorities_def)
  moreover have "priority (threads k t) \<le> g t" for t
    using k1 k2(2) [rule_format, of t] by (auto simp: set_priorities_def intro: order_trans)
  ultimately show ?thesis by (auto simp: priorities_raised_def)
qed

lemma priorities_raised_inv:
  assumes "sched_inv active k" "priorities_raised k k'"
  shows "sched_inv active k'"
  by (rule sched_inv_cong [OF assms(1)]) (simp_all add: priorities_raised_fields [OF assms(2)])

lemmas donation_loop_induct = donation_loop.raw_induct [rotated, consumes 1, case_names step]

lemma donation_loop_raises: "donation_loop cur l k = Some k' \<Longrightarrow> priorities_raised k k'"
proof (induction rule: donation_loop_induct)
  case (step loop cur l k r)
  then show ?case
    using priorities_raised_trans [OF raise_priority [of k "holder k l" "priority (threads k cur)"]]
    by (auto split: if_splits simp: less_imp_le)
qed

text \<open>
  A thread has been donated to when no thread waits for one of its locks with a higher
  priority.  \<open>waits_for k t u\<close>: thread \<open>t\<close> tries to acquire a lock that \<open>u\<close> holds.
\<close>

definition waits_for :: "kernel \<Rightarrow> nat \<Rightarrow> nat \<Rightarrow> bool" where
  "waits_for k t u \<longleftrightarrow> try_lock (threads k t) \<noteq> NULL \<and> u = holder k (try_lock (threads k t)) \<and> u \<noteq> NULL"

definition donated :: "kernel \<Rightarrow> nat \<Rightarrow> bool" where
  "donated k t \<longleftrightarrow> (\<forall>u. waits_for k t u \<longrightarrow> priority (threads k t) \<le> priority (threads k u))"

lemma donation_loop_donates:
  "\<lbrakk>donation_loop cur l k = Some k'; l = try_lock (threads k cur); \<forall>t. t \<noteq> cur \<longrightarrow> donated k t\<rbrakk> \<Longrightarrow> \<forall>t. donated k' t"
proof (induction rule: donation_loop_induct)
  case (step loop cur l k r)
  let ?h = "holder k l" and ?p = "priority (threads k cur)"
  let ?k = "upd_thread ?h (\<lambda>th. th\<lparr>priority := ?p\<rparr>) k"
  show ?case
  proof (cases "l \<noteq> NULL \<and> ?h \<noteq> NULL \<and> priority (threads k ?h) < ?p")
    case True
    then have "loop ?h (try_lock (threads k ?h)) ?k = Some r" using step(2) by simp
    moreover have "donated ?k t" if "t \<noteq> ?h" for t
      unfolding donated_def
    proof (intro allI impI)
      fix u
      assume "waits_for ?k t u"
      then have w: "waits_for k t u" using that by (simp add: waits_for_def)
      show "priority (threads ?k t) \<le> priority (threads ?k u)"
      proof (cases "t = cur")
        case True
        then have "u = ?h" using w step(3) by (simp add: waits_for_def)
        then show ?thesis using True that by simp
      next
        case False
        then have "priority (threads k t) \<le> priority (threads k u)" using step(4) w by (simp add: donated_def)
        then show ?thesis using that \<open>l \<noteq> NULL \<and> _\<close> by auto
      qed
    qed
    moreover have "try_lock (threads k ?h) = try_lock (threads ?k ?h)" by simp
    ultimately show ?thesis using step(1) by blast
  next
    case False
    then have "r = k" using step(2) by (auto split: if_splits)
    moreover have "donated k cur" using False step(3) by (auto simp: donated_def waits_for_def)
    ultimately show ?thesis using step(4) by (metis)
  qed
qed

lemma donation_first:
  assumes "donation_loop cur l k = Some k'" "l \<noteq> NULL" "holder k l \<noteq> NULL"
  shows "priority (threads k cur) \<le> priority (threads k' (holder k l))"
proof (cases "priority (threads k (holder k l)) < priority (threads k cur)")
  case True
  let ?k = "upd_thread (holder k l) (\<lambda>th. th\<lparr>priority := priority (threads k cur)\<rparr>) k"
  have "donation_loop (holder k l) (try_lock (threads k (holder k l))) ?k = Some k'"
    using assms True by (subst (asm) donation_loop.simps) simp
  then show ?thesis using priorities_raised_fields(17) [OF donation_loop_raises, of _ _ ?k k' "holder k l"] by simp
next
  case False
  then have "k' = k" using assms by (subst (asm) donation_loop.simps) simp
  then show ?thesis using False by simp
qed

text \<open>
  Every round raises a holder to the priority of the donor, so the loop ends even when the
  threads wait for each other in a circle.
\<close>

lemma donation_loop_terminates:
  assumes "finite (range (holder k))"
  shows "\<exists>k'. donation_loop cur l k = Some k'"
  using assms
proof (induction "card {t \<in> range (holder k). priority (threads k t) < priority (threads k cur)}"
    arbitrary: cur l k rule: less_induct)
  case less
  let ?h = "holder k l" and ?p = "priority (threads k cur)"
  let ?k = "upd_thread ?h (\<lambda>th. th\<lparr>priority := ?p\<rparr>) k"
  show ?case
  proof (cases "l \<noteq> NULL \<and> ?h \<noteq> NULL \<and> priority (threads k ?h) < ?p")
    case True
    have "{t \<in> range (holder k). priority (threads ?k t) < ?p} \<subset> {t \<in> range (holder k). priority (threads k t) < ?p}"
      using True by (auto split: if_splits)
    then have "card {t \<in> range (holder k). priority (threads ?k t) < ?p} < card {t \<in> range (holder k). priority (threads k t) < ?p}"
      using less.prems by (intro psubset_card_mono) simp_all
    then have "\<exists>k'. donation_loop ?h (try_lock (threads k ?h)) ?k = Some k'"
      using less.prems by (intro less.hyps) simp_all
    with True show ?thesis by (subst donation_loop.simps) simp
  next
    case False
    then show ?thesis by (subst donation_loop.simps) auto
  qed
qed

section \<open>Locks and condition variables keep the scheduler invariant\<close>

text \<open>The state in which \<open>lock_acquire\<close> waits for the semaphore of the lock.\<close>

definition donating :: "nat \<Rightarrow> kernel \<Rightarrow> kernel \<Rightarrow> bool" where
  "donating l k k1 \<longleftrightarrow>
     (if holder k l = NULL then k1 = k
      else \<exists>k2. priorities_raised (upd_thread (running k) (\<lambda>th. th\<lparr>try_lock := l\<rparr>) k) k2 \<and>
        donation_loop (running k) l (upd_thread (running k) (\<lambda>th. th\<lparr>try_lock := l\<rparr>) k) = Some k2 \<and>
        k1 = upd_thread (holder k l) (\<lambda>th. th\<lparr>donor := insert_ordered (by_donor k2) (running k) (donor th)\<rparr>) k2)"

lemma thread_current_upd:
  assumes "thread_current k = Some t" "\<And>th. magic (f th) = magic th" "\<And>th. status (f th) = status th"
  shows "thread_current (upd_thread u f k) = Some t"
  using assms by (auto simp: thread_current_eq_Some is_thread_def)

lemma lock_acquire_eq:
  assumes "sched_inv True k" "lock_acquire l k = Some k'"
  shows "\<exists>k1. donating l k k1 \<and> sema_down (Lock_sema l) (push_frame (F_lock_acquired l) k1) = Some k' \<and>
     l \<noteq> NULL \<and> \<not> in_external_intr k \<and> holder k l \<noteq> running k"
proof -
  note cur = thread_current_active [OF assms(1)]
  let ?k = "upd_thread (running k) (\<lambda>th. th\<lparr>try_lock := l\<rparr>) k"
  have cur': "thread_current ?k = Some (running k)" by (rule thread_current_upd [OF cur]) simp_all
  have g: "l \<noteq> NULL" "\<not> in_external_intr k" "holder k l \<noteq> running k"
    using assms(2) cur by (auto simp: lock_acquire_def lock_held_by_current_thread_def intr_context_def)
  show ?thesis
  proof (cases "holder k l = NULL")
    case True
    then show ?thesis using assms(2) cur g
      by (auto simp: lock_acquire_def lock_held_by_current_thread_def intr_context_def donating_def)
  next
    case False
    obtain k2 where k2: "donation_loop (running k) l ?k = Some k2"
      "sema_down (Lock_sema l) (push_frame (F_lock_acquired l)
         (upd_thread (holder k2 l) (\<lambda>th. th\<lparr>donor := insert_ordered (by_donor k2) (running k) (donor th)\<rparr>) k2)) = Some k'"
      using False assms(2) cur cur' g
      by (auto simp: lock_acquire_def lock_held_by_current_thread_def intr_context_def priority_donation_def
          bind_eq_Some_conv)
    have "priorities_raised ?k k2" using donation_loop_raises [OF k2(1)] .
    moreover from this have "holder k2 = holder k" using priorities_raised_fields(2) by fastforce
    ultimately show ?thesis using k2 False g by (auto simp: donating_def)
  qed
qed

lemma lock_acquire_total:
  assumes "sched_inv True k" "unguarded k" "\<not> in_external_intr k" "running k \<noteq> idle_thread k"
    "l \<noteq> NULL" "holder k l \<noteq> running k" "finite (range (holder k))"
  shows "\<exists>k1. donating l k k1 \<and> lock_acquire l k = sema_down (Lock_sema l) (push_frame (F_lock_acquired l) k1)"
proof -
  note cur = thread_current_active [OF assms(1)]
  let ?k = "upd_thread (running k) (\<lambda>th. th\<lparr>try_lock := l\<rparr>) k"
  have cur': "thread_current ?k = Some (running k)" by (rule thread_current_upd [OF cur]) simp_all
  obtain k2 where k2: "donation_loop (running k) l ?k = Some k2"
    using donation_loop_terminates [of ?k "running k" l] assms(7) by auto
  have r: "priorities_raised ?k k2" using donation_loop_raises [OF k2] .
  then have "holder k2 = holder k" using priorities_raised_fields(2) by fastforce
  then show ?thesis
    using k2 r assms(3,5,6) cur cur'
    by (auto simp: donating_def lock_acquire_def lock_held_by_current_thread_def intr_context_def
        priority_donation_def)
qed

lemma donating_fields:
  assumes "donating l k k1"
  shows "semas k1 = semas k" "holder k1 = holder k" "kstack k1 = kstack k" "running k1 = running k"
    "ready_list k1 = ready_list k" "idle_thread k1 = idle_thread k" "intr k1 = intr k"
    "in_external_intr k1 = in_external_intr k" "cond_waiters k1 = cond_waiters k" "sleep_list k1 = sleep_list k"
    "status (threads k1 t) = status (threads k t)" "magic (threads k1 t) = magic (threads k t)"
  using assms by (auto simp: donating_def priorities_raised_fields split: if_splits)

lemma donating_inv: "sched_inv active k \<Longrightarrow> donating l k k1 \<Longrightarrow> sched_inv active k1"
  by (rule sched_inv_cong) (simp_all add: donating_fields)

lemma lock_acquire_ok:
  assumes "sched_inv True k" "unguarded k" "running k \<noteq> idle_thread k" "lock_acquire l k = Some k'"
  shows "kernel_ok k'"
proof -
  obtain k1 where k1: "donating l k k1" "sema_down (Lock_sema l) (push_frame (F_lock_acquired l) k1) = Some k'"
    and ext: "\<not> in_external_intr k"
    using lock_acquire_eq [OF assms(1,4)] by blast
  have "unguarded k1" using assms(2) by (simp add: unguarded_def donating_fields [OF k1(1)])
  moreover have "sched_inv True (push_frame (F_lock_acquired l) k1)"
    using calculation assms(3) by (intro push_frame_inv donating_inv [OF assms(1) k1(1)]) (simp_all add: donating_fields [OF k1(1)])
  ultimately show ?thesis
    using sema_down_ok [of "push_frame (F_lock_acquired l) k1" "Lock_sema l"] k1(2) ext assms(3)
    by (auto simp: donating_fields [OF k1(1)])
qed

text \<open>The state in which \<open>lock_release\<close> calls \<open>sema_up\<close>.\<close>

definition rechecked :: "nat \<Rightarrow> kernel \<Rightarrow> int" where
  "rechecked l k =
     (let ds = donation_back_loop l k (donor (threads k (running k)))
      in if ds \<noteq> [] then priority (threads k (hd ds)) else original_priority (threads k (running k)))"

definition released :: "nat \<Rightarrow> kernel \<Rightarrow> kernel" where
  "released l k =
     upd_thread (running k) (\<lambda>th. th\<lparr>donor := donation_back_loop l k (donor th), priority := rechecked l k\<rparr>) k
       \<lparr>holder := (holder k)(l := NULL)\<rparr>"

lemma released_fields [simp]:
  "semas (released l k) = semas k" "holder (released l k) = (holder k)(l := NULL)"
  "kstack (released l k) = kstack k" "running (released l k) = running k"
  "ready_list (released l k) = ready_list k" "idle_thread (released l k) = idle_thread k"
  "intr (released l k) = intr k" "in_external_intr (released l k) = in_external_intr k"
  "cond_waiters (released l k) = cond_waiters k" "sleep_list (released l k) = sleep_list k"
  "status (threads (released l k) t) = status (threads k t)" "magic (threads (released l k) t) = magic (threads k t)"
  "unguarded (released l k) = unguarded k"
  by (simp_all add: released_def unguarded_def)

lemma released_inv: "sched_inv active k \<Longrightarrow> sched_inv active (released l k)"
  by (rule sched_inv_cong) simp_all

lemma lock_release_eq:
  assumes "sched_inv True k"
  shows "lock_release l k =
    (if l \<noteq> NULL \<and> holder k l = running k then sema_up (Lock_sema l) (released l k) else None)"
proof -
  note cur = thread_current_active [OF assms]
  let ?k1 = "upd_thread (running k) (\<lambda>th. th\<lparr>donor := donation_back_loop l k (donor th)\<rparr>) k"
  have cur1: "thread_current ?k1 = Some (running k)" by (rule thread_current_upd [OF cur]) simp_all
  have "priority_recheck ?k1 = Some (upd_thread (running k) (\<lambda>th. th\<lparr>priority := rechecked l k\<rparr>) ?k1)"
    using cur1 by (simp add: priority_recheck_def rechecked_def Let_def upd_thread_def)
  moreover have "upd_thread (running k) (\<lambda>th. th\<lparr>priority := rechecked l k\<rparr>) ?k1\<lparr>holder := (holder k)(l := NULL)\<rparr> = released l k"
    by (intro kernel.equality) (simp_all add: released_def upd_thread_def)
  ultimately show ?thesis using cur
    by (simp add: lock_release_def lock_held_by_current_thread_def donation_back_def)
qed

lemma lock_release_ok:
  assumes "sched_inv True k" "unguarded k" "\<not> in_external_intr k" "l \<noteq> NULL" "holder k l = running k"
  shows "\<exists>k'. lock_release l k = Some k' \<and> kernel_ok k' \<and>
    (let k1 = sema_upped (Lock_sema l) (released l k) in if outranked k1 then switched (yielding k1) k' else k' = k1)"
  using lock_release_eq [OF assms(1), of l] sema_up_ok [OF released_inv [OF assms(1)], of l "Lock_sema l"] assms(2-5)
  by (simp add: Let_def)

lemma lock_acquired_eq:
  assumes "sched_inv True k"
  shows "lock_acquired l k =
    Some (upd_thread (running k) (\<lambda>th. th\<lparr>try_lock := NULL\<rparr>) k\<lparr>holder := (holder k)(l := running k)\<rparr>)"
  using thread_current_upd [OF thread_current_active [OF assms], of "\<lambda>th. th\<lparr>try_lock := NULL\<rparr>" "running k"]
  by (simp add: lock_acquired_def running_thread_def)

lemma lock_acquired_ok:
  assumes "sched_inv True k" "unguarded k" "\<not> in_external_intr k" "lock_acquired l k = Some k'"
  shows "kernel_ok k'"
proof -
  have k': "k' = upd_thread (running k) (\<lambda>th. th\<lparr>try_lock := NULL\<rparr>) k\<lparr>holder := (holder k)(l := running k)\<rparr>"
    using lock_acquired_eq [OF assms(1), of l] assms(4) by simp
  have "sched_inv True k'" unfolding k' by (rule sched_inv_cong [OF assms(1)]) auto
  then show ?thesis using assms(2,3) k' by (intro kernel_okI) (simp_all add: unguarded_def)
qed

lemma lock_try_acquire_eq:
  assumes "sched_inv True k" "intr k = INTR_ON \<longrightarrow> \<not> in_external_intr k"
  shows "lock_try_acquire l k =
    (if l = NULL \<or> holder k l = running k then None
     else if sema_value (semas k (Lock_sema l)) = 0 then Some (False, k)
     else Some (True, upd_sema (Lock_sema l) (\<lambda>sm. sm\<lparr>sema_value := sema_value sm - 1\<rparr>) k
                        \<lparr>holder := (holder k)(l := running k)\<rparr>))"
  using thread_current_active [OF assms(1)] sema_try_down_ok [OF assms(2), of "Lock_sema l"]
  by (auto simp: lock_try_acquire_def lock_held_by_current_thread_def ASSERT_def)

lemma lock_try_acquire_ok:
  assumes "sched_inv True k" "unguarded k" "\<not> in_external_intr k" "lock_try_acquire l k = Some (b, k')"
  shows "kernel_ok k'"
proof -
  let ?k = "upd_sema (Lock_sema l) (\<lambda>sm. sm\<lparr>sema_value := sema_value sm - 1\<rparr>) k\<lparr>holder := (holder k)(l := running k)\<rparr>"
  have "k' = k \<or> k' = ?k"
    using lock_try_acquire_eq [OF assms(1), of l] assms(3,4) by (auto split: if_splits)
  moreover have "sched_inv True ?k" by (rule sched_inv_cong [OF assms(1)]) auto
  ultimately show ?thesis using assms(1-3) by (auto intro!: kernel_okI simp: unguarded_def)
qed

text \<open>The state in which \<open>cond_wait\<close> releases the lock.\<close>

definition cond_waiting :: "nat \<Rightarrow> nat \<Rightarrow> kernel \<Rightarrow> kernel" where
  "cond_waiting c l k =
     push_frame (F_call_sema_down (Waiter_sema (running k))) (push_frame (F_call_lock_acquire l)
       (sema_init (Waiter_sema (running k)) 0 k\<lparr>cond_waiters := (cond_waiters k)(c := cond_waiters k c @ [running k])\<rparr>))"

lemma cond_wait_eq:
  assumes "sched_inv True k"
  shows "cond_wait c l k =
    (if c \<noteq> NULL \<and> l \<noteq> NULL \<and> \<not> in_external_intr k \<and> holder k l = running k
     then lock_release l (cond_waiting c l k) else None)"
  using thread_current_active [OF assms]
  by (simp add: cond_wait_def lock_held_by_current_thread_def intr_context_def running_thread_def Let_def
      cond_waiting_def sema_init_def)

text \<open>Only its own thread waits on a semaphore inside a thread, so the running thread may reset it.\<close>

lemma own_sema_idle:
  assumes "sched_inv True k" "s = Sema_p (running k) \<or> s = Waiter_sema (running k)"
  shows "waiters (semas k s) = []"
proof -
  have "t \<notin> set (waiters (semas k s))" for t
  proof
    assume t: "t \<in> set (waiters (semas k s))"
    note * = sched_invD(8) [OF assms(1), of t s, THEN iffD1, OF t]
    have "own_sema s t" using waits_at_not_idle [OF sched_invD(9) [OF assms(1)]] * by blast
    then have "t = running k" using assms(2) by auto
    then show False using * sched_invD(1) [OF assms(1)] sched_invD(4) [OF assms(1), of "running k"] by simp
  qed
  then show ?thesis by (cases "waiters (semas k s)") auto
qed

lemma sema_init_own_inv:
  assumes "sched_inv True k" "s = Sema_p (running k) \<or> s = Waiter_sema (running k)"
  shows "sched_inv True (sema_init s v k)"
  using own_sema_idle [OF assms]
  by (intro sched_inv_cong [OF assms(1)]) (auto simp: sema_init_def)

lemma sema_init_fields [simp]:
  "threads (sema_init s v k) = threads k" "holder (sema_init s v k) = holder k" "kstack (sema_init s v k) = kstack k"
  "running (sema_init s v k) = running k" "idle_thread (sema_init s v k) = idle_thread k"
  "intr (sema_init s v k) = intr k" "in_external_intr (sema_init s v k) = in_external_intr k"
  "cond_waiters (sema_init s v k) = cond_waiters k" "sleep_list (sema_init s v k) = sleep_list k"
  "ready_list (sema_init s v k) = ready_list k" "ticks (sema_init s v k) = ticks k"
  "semas (sema_init s v k) = (semas k)(s := \<lparr>sema_value = v, waiters = []\<rparr>)"
  "unguarded (sema_init s v k) = unguarded k"
  by (simp_all add: sema_init_def)

lemma cond_waiting_inv:
  assumes "sched_inv True k" "unguarded k" "running k \<noteq> idle_thread k"
  shows "sched_inv True (cond_waiting c l k)" "unguarded (cond_waiting c l k)"
proof -
  have "sched_inv True (sema_init (Waiter_sema (running k)) 0 k
      \<lparr>cond_waiters := (cond_waiters k)(c := cond_waiters k c @ [running k])\<rparr>)"
    by (rule sched_inv_cong [OF sema_init_own_inv [OF assms(1)]]) simp_all
  then show "sched_inv True (cond_waiting c l k)"
    unfolding cond_waiting_def using assms by (intro push_frame_inv) (simp_all add: unguarded_def)
  show "unguarded (cond_waiting c l k)" using assms(2) by (auto simp: cond_waiting_def unguarded_def)
qed

lemma cond_waiting_fields [simp]:
  "threads (cond_waiting c l k) = threads k" "holder (cond_waiting c l k) = holder k"
  "running (cond_waiting c l k) = running k" "in_external_intr (cond_waiting c l k) = in_external_intr k"
  "idle_thread (cond_waiting c l k) = idle_thread k"
  by (simp_all add: cond_waiting_def)

lemma cond_wait_ok:
  assumes "sched_inv True k" "unguarded k" "running k \<noteq> idle_thread k" "cond_wait c l k = Some k'"
  shows "kernel_ok k'"
  using cond_wait_eq [OF assms(1), of c l] lock_release_ok [OF cond_waiting_inv [OF assms(1-3)], of c l l] assms(4)
  by (auto split: if_splits)

lemma cond_signal_eq:
  assumes "sched_inv True k"
  shows "cond_signal c l k =
    (if c \<noteq> NULL \<and> l \<noteq> NULL \<and> \<not> in_external_intr k \<and> holder k l = running k
     then if cond_waiters k c = [] then Some k
          else do {
            ws \<leftarrow> sort_waiters k (cond_waiters k c);
            sema_up (Waiter_sema (hd ws)) (k\<lparr>cond_waiters := (cond_waiters k)(c := tl ws)\<rparr>) }
     else None)"
  using thread_current_active [OF assms]
  by (simp add: cond_signal_def lock_held_by_current_thread_def intr_context_def)

lemma cond_signal_ok:
  assumes "sched_inv True k" "unguarded k" "cond_signal c l k = Some k'"
  shows "kernel_ok k'"
proof -
  have ext: "\<not> in_external_intr k" using assms(3) cond_signal_eq [OF assms(1), of c l] by (auto split: if_splits)
  show ?thesis
  proof (cases "cond_waiters k c = []")
    case True
    then have "k' = k" using assms(3) cond_signal_eq [OF assms(1), of c l] by (auto split: if_splits)
    then show ?thesis using assms ext by (auto intro: kernel_okI)
  next
    case False
    then obtain ws where ws: "sema_up (Waiter_sema (hd ws)) (k\<lparr>cond_waiters := (cond_waiters k)(c := tl ws)\<rparr>) = Some k'"
      using assms(3) cond_signal_eq [OF assms(1), of c l] by (auto split: if_splits simp: bind_eq_Some_conv)
    have "sched_inv True (k\<lparr>cond_waiters := (cond_waiters k)(c := tl ws)\<rparr>)"
      by (rule sched_inv_cong [OF assms(1)]) simp_all
    from sema_up_ok [OF this, of "Waiter_sema (hd ws)"] ws assms(2) ext show ?thesis by (auto simp: unguarded_def)
  qed
qed

lemma cond_broadcast_loop_ok:
  assumes "sched_inv True k" "unguarded k" "\<not> in_external_intr k" "running k \<noteq> idle_thread k"
    "cond_broadcast_loop c l k = Some k'"
  shows "kernel_ok k'"
proof (cases "cond_waiters k c = []")
  case True
  then show ?thesis using assms by (auto simp: cond_broadcast_loop_def intro: kernel_okI)
next
  case False
  have "sched_inv True (push_frame (F_cond_broadcast c l) k)"
    using assms by (intro push_frame_inv) simp_all
  then show ?thesis
    using False assms cond_signal_ok [of "push_frame (F_cond_broadcast c l) k" c l k']
    by (simp add: cond_broadcast_loop_def)
qed

end
