(* ===== verification/Timer.thy ===== *)
theory Timer
  imports Synch
begin

text \<open>
  Timer ticks and sleeping threads: \<open>devices/timer.c\<close>.
\<close>

definition TIMER_FREQ :: int where "TIMER_FREQ = 100"

text \<open>Arithmetic on \<open>int64_t\<close>: the two's complement value of a result.\<close>

definition i64 :: "int \<Rightarrow> int" where
  "i64 x = (x + 2 ^ 63) mod 2 ^ 64 - 2 ^ 63"

lemma i64_id: "- (2 ^ 63) \<le> x \<Longrightarrow> x < 2 ^ 63 \<Longrightarrow> i64 x = x"
  by (simp add: i64_def)

definition timer_ticks :: "kernel \<Rightarrow> (int \<times> kernel) option" where
  "timer_ticks k = do {
     let (old_level, k) = intr_disable k;
     let t = ticks k;
     (_, k) \<leftarrow> intr_set_level old_level k;
     Some (t, k) }"

definition timer_elapsed :: "int \<Rightarrow> kernel \<Rightarrow> (int \<times> kernel) option" where
  "timer_elapsed since k = do {
     (t, k) \<leftarrow> timer_ticks k;
     Some (i64 (t - since), k) }"

definition timer_sleep :: "int \<Rightarrow> kernel \<Rightarrow> kernel option" where
  "timer_sleep n k = do {
     (start, k) \<leftarrow> timer_ticks k;
     curr_thread \<leftarrow> thread_current k;
     ASSERT (intr_get_level k = INTR_ON);
     let (old_level, k) = intr_disable k;
     let k = upd_thread curr_thread (\<lambda>th. th\<lparr>timeChecker := i64 (start + n)\<rparr>) k;
     let k = k\<lparr>sleep_list := insert_ordered (compare_timer k) curr_thread (sleep_list k)\<rparr>;
     let k = sema_init (Sema_p curr_thread) 0 k;
     sema_down (Sema_p curr_thread) (push_frame (F_intr_set_level old_level) k) }"

text \<open>The walk along the sleep list; \<open>list_remove\<close> returns the next element.\<close>

primrec wakeup_loop :: "int \<Rightarrow> nat list \<Rightarrow> kernel \<Rightarrow> kernel option" where
  "wakeup_loop now [] k = Some k"
| "wakeup_loop now (t # ts) k =
     (if now \<ge> timeChecker (threads k t) then do {
        k \<leftarrow> sema_up (Sema_p t) k;
        wakeup_loop now ts (k\<lparr>sleep_list := remove1 t (sleep_list k)\<rparr>) }
      else Some k)"

definition timer_wakeup :: "int \<Rightarrow> kernel \<Rightarrow> kernel option" where
  "timer_wakeup now k = wakeup_loop now (sleep_list k) k"

definition timer_interrupt :: "kernel \<Rightarrow> kernel option" where
  "timer_interrupt k = do {
     let k = k\<lparr>ticks := i64 (ticks k + 1)\<rparr>;
     k \<leftarrow> timer_wakeup (ticks k) k;
     thread_tick k }"

section \<open>The sleep list\<close>

text \<open>
  The sleep list is ordered by wake-up time and holds exactly the threads that wait on
  their own timer semaphore, whose value is zero.  A thread that has been woken, but has
  not run yet, finds the value positive.
\<close>

definition sleep_inv :: "kernel \<Rightarrow> bool" where
  "sleep_inv k \<longleftrightarrow> distinct (sleep_list k) \<and> in_order (compare_timer k) (sleep_list k) \<and>
     (\<forall>t. t \<in> set (sleep_list k) \<longleftrightarrow> t \<in> set (waiters (semas k (Sema_p t)))) \<and>
     (\<forall>t. t \<in> set (sleep_list k) \<longrightarrow> sema_value (semas k (Sema_p t)) = 0) \<and>
     (\<forall>t. waits_at (kstack k t) (Sema_p t) \<and> t \<notin> set (sleep_list k) \<longrightarrow> sema_value (semas k (Sema_p t)) \<noteq> 0)"

lemma sleep_invD:
  assumes "sleep_inv k"
  shows "distinct (sleep_list k)" "in_order (compare_timer k) (sleep_list k)"
    "t \<in> set (sleep_list k) \<longleftrightarrow> t \<in> set (waiters (semas k (Sema_p t)))"
    "t \<in> set (sleep_list k) \<Longrightarrow> sema_value (semas k (Sema_p t)) = 0"
    "waits_at (kstack k t) (Sema_p t) \<Longrightarrow> t \<notin> set (sleep_list k) \<Longrightarrow> sema_value (semas k (Sema_p t)) \<noteq> 0"
  using assms unfolding sleep_inv_def by blast+

lemma sleep_inv_cong:
  assumes "sleep_inv k" "sleep_list k' = sleep_list k" "\<And>t. semas k' (Sema_p t) = semas k (Sema_p t)"
    "\<And>t. timeChecker (threads k' t) = timeChecker (threads k t)"
    "\<And>t. waits_at (kstack k' t) (Sema_p t) \<Longrightarrow> waits_at (kstack k t) (Sema_p t)"
  shows "sleep_inv k'"
proof -
  have "compare_timer k' = compare_timer k" by (simp add: compare_timer_def fun_eq_iff assms(4))
  then show ?thesis using assms(1,5) unfolding sleep_inv_def assms(2,3) by auto
qed

lemma single_list: "distinct xs \<Longrightarrow> \<forall>u \<in> set xs. t = u \<Longrightarrow> xs = (if t \<in> set xs then [t] else [])"
proof (induction xs)
  case (Cons x xs)
  then show ?case by (cases xs) auto
qed simp

lemma own_waiters:
  assumes "sched_inv active k"
  shows "waiters (semas k (Sema_p t)) = (if t \<in> set (waiters (semas k (Sema_p t))) then [t] else [])"
proof -
  have "own_sema (Sema_p t) u" if "u \<in> set (waiters (semas k (Sema_p t)))" for u
    using waits_at_not_idle [OF sched_invD(9) [OF assms], of u "Sema_p t"] sched_invD(8) [OF assms, of u "Sema_p t"] that
    by blast
  then have "\<forall>u \<in> set (waiters (semas k (Sema_p t))). t = u" by simp
  then show ?thesis using single_list [OF sched_invD(7) [OF assms, of "Sema_p t"]] by blast
qed

lemma sort_list_single [simp]: "sort_list lt [x] = [x]"
  by (simp add: sort_list_def)

lemma sema_upped_sleeper:
  assumes "waiters (semas k (Sema_p t)) = [t]"
  shows "status (threads (sema_upped (Sema_p t) k) u) = (if u = t then THREAD_READY else status (threads k u))"
    "waiters (semas (sema_upped (Sema_p t) k) s) = (if s = Sema_p t then [] else waiters (semas k s))"
  using assms by (simp_all add: sema_upped_def)

lemma compare_timer_cong [simp]:
  "compare_timer (sema_upped s k) = compare_timer k" "compare_timer (k\<lparr>sleep_list := ts\<rparr>) = compare_timer k"
  by (simp_all add: compare_timer_def fun_eq_iff)

text \<open>Waking the head of the sleep list.\<close>

definition wake_first :: "nat \<Rightarrow> kernel \<Rightarrow> kernel" where
  "wake_first t k = sema_upped (Sema_p t) k\<lparr>sleep_list := remove1 t (sleep_list k)\<rparr>"

lemma wake_first_fields [simp]:
  "kstack (wake_first t k) = kstack k" "running (wake_first t k) = running k" "holder (wake_first t k) = holder k"
  "idle_thread (wake_first t k) = idle_thread k" "intr (wake_first t k) = intr k"
  "in_external_intr (wake_first t k) = in_external_intr k" "sleep_list (wake_first t k) = remove1 t (sleep_list k)"
  "priority (threads (wake_first t k) u) = priority (threads k u)"
  "timeChecker (threads (wake_first t k) u) = timeChecker (threads k u)"
  "is_thread (wake_first t k) u = is_thread k u"
  "s \<noteq> Sema_p t \<Longrightarrow> semas (wake_first t k) s = semas k s"
  by (simp_all add: wake_first_def sema_upped_def Let_def)

lemma wake_first_inv:
  assumes "sched_inv active k" "sleep_inv k" "sleep_list k = t # ts"
  shows "sched_inv active (wake_first t k)" "sleep_inv (wake_first t k)"
    "status (threads (wake_first t k) u) = (if u = t then THREAD_READY else status (threads k u))"
proof -
  show "sched_inv active (wake_first t k)"
    unfolding wake_first_def by (rule sched_inv_cong [OF sema_upped_inv [OF assms(1)]]) simp_all
  have "t \<in> set (waiters (semas k (Sema_p t)))" using sleep_invD(3) [OF assms(2), of t] assms(3) by simp
  then have w: "waiters (semas k (Sema_p t)) = [t]" using own_waiters [OF assms(1), of t] by argo
  note S = sleep_invD [OF assms(2)]
  have "\<forall>u \<in> set (sleep_list k). sema_value (semas k (Sema_p u)) = 0" using S(4) by blast
  then show "sleep_inv (wake_first t k)"
    using S(1,2,5) S(3) assms(3) sema_upped_sleeper(2) [OF w]
    by (auto simp: sleep_inv_def wake_first_def)
  show "status (threads (wake_first t k) u) = (if u = t then THREAD_READY else status (threads k u))"
    using sema_upped_sleeper(1) [OF w] by (simp add: wake_first_def)
qed

definition woken_sleepers :: "int \<Rightarrow> kernel \<Rightarrow> kernel \<Rightarrow> bool" where
  "woken_sleepers now k k' \<longleftrightarrow>
     sleep_list k' = filter (\<lambda>t. now < timeChecker (threads k t)) (sleep_list k) \<and>
     (\<forall>t. status (threads k' t) =
        (if t \<in> set (sleep_list k) \<and> timeChecker (threads k t) \<le> now then THREAD_READY else status (threads k t))) \<and>
     (\<forall>t. priority (threads k' t) = priority (threads k t) \<and> timeChecker (threads k' t) = timeChecker (threads k t)) \<and>
     kstack k' = kstack k \<and> running k' = running k \<and> holder k' = holder k \<and> idle_thread k' = idle_thread k \<and>
     intr k' = intr k \<and> in_external_intr k' = in_external_intr k \<and> (\<forall>s. (\<forall>t. s \<noteq> Sema_p t) \<longrightarrow> semas k' s = semas k s)"

lemma wakeup_loop_ok:
  assumes "sched_inv True k" "sleep_inv k" "in_external_intr k" "intr k = INTR_OFF"
  shows "\<exists>k'. wakeup_loop now (sleep_list k) k = Some k' \<and> sched_inv True k' \<and> sleep_inv k' \<and> woken_sleepers now k k'"
  using assms
proof (induction "sleep_list k" arbitrary: k)
  case Nil
  show ?case unfolding Nil(1) [symmetric] using Nil by (simp add: woken_sleepers_def)
next
  case (Cons t ts)
  note sl = Cons(2) [symmetric]
  show ?case
  proof (cases "timeChecker (threads k t) \<le> now")
    case True
    let ?k = "wake_first t k"
    note W = wake_first_inv [OF Cons(3,4) sl]
    have ts: "ts = sleep_list ?k" using sl by simp
    obtain k' where k': "wakeup_loop now ts ?k = Some k'" "sched_inv True k'" "sleep_inv k'" "woken_sleepers now ?k k'"
      using Cons(1) [OF ts W(1,2)] Cons(5,6) unfolding ts by auto
    have "sema_up (Sema_p t) k = Some (sema_upped (Sema_p t) k)"
      using sema_up_eq [OF Cons(3)] Cons(5,6) by simp
    then have "wakeup_loop now (sleep_list k) k = Some k'"
      using True k'(1) sl by (simp add: wake_first_def)
    moreover have "woken_sleepers now k k'"
      using k'(4) W(3) True sl by (auto simp: woken_sleepers_def)
    ultimately show ?thesis using k' by blast
  next
    case False
    then have all: "\<forall>u \<in> set (sleep_list k). now < timeChecker (threads k u)"
      using Cons(4) sl by (auto simp: sleep_inv_def compare_timer_def)
    then have "woken_sleepers now k k" by (auto simp: woken_sleepers_def)
    with False sl Cons(3,4) show ?thesis by simp
  qed
qed

text \<open>The state in which \<open>timer_sleep\<close> waits for its semaphore.\<close>

definition going_to_sleep :: "int \<Rightarrow> kernel \<Rightarrow> kernel" where
  "going_to_sleep n k =
     (let k1 = upd_thread (running k) (\<lambda>th. th\<lparr>timeChecker := i64 (ticks k + n)\<rparr>) (k\<lparr>intr := INTR_OFF\<rparr>)
      in push_frame (F_intr_set_level (intr k)) (sema_init (Sema_p (running k)) 0
           (k1\<lparr>sleep_list := insert_ordered (compare_timer k1) (running k) (sleep_list k)\<rparr>)))"

lemma going_to_sleep_fields [simp]:
  "running (going_to_sleep n k) = running k" "idle_thread (going_to_sleep n k) = idle_thread k"
  "intr (going_to_sleep n k) = INTR_OFF" "in_external_intr (going_to_sleep n k) = in_external_intr k"
  "holder (going_to_sleep n k) = holder k" "unguarded (going_to_sleep n k) = unguarded k"
  "kstack (going_to_sleep n k) = (kstack k)(running k := F_intr_set_level (intr k) # kstack k (running k))"
  "semas (going_to_sleep n k) = (semas k)(Sema_p (running k) := \<lparr>sema_value = 0, waiters = []\<rparr>)"
  by (simp_all add: going_to_sleep_def Let_def unguarded_def)

lemma going_to_sleep_inv:
  assumes "sched_inv True k" "unguarded k"
  shows "sched_inv True (going_to_sleep n k)"
proof -
  have "sched_inv True (sema_init (Sema_p (running k)) 0 k)" by (rule sema_init_own_inv [OF assms(1)]) simp
  then have "sched_inv True (push_frame (F_intr_set_level (intr k)) (sema_init (Sema_p (running k)) 0 k))"
    using assms(2) by (intro push_frame_inv) simp_all
  from sched_inv_cong [OF this] show ?thesis by (simp add: going_to_sleep_def Let_def)
qed

lemma timer_ticks_eq:
  assumes "\<not> in_external_intr k"
  shows "timer_ticks k = Some (ticks k, k)"
  using intr_restore [of k "k\<lparr>intr := INTR_OFF\<rparr>"] assms
  by (simp add: timer_ticks_def intr_disable_def intr_get_level_def Let_def)

lemma timer_sleep_eq:
  assumes "sched_inv True k" "\<not> in_external_intr k"
  shows "timer_sleep n k =
    (if intr k = INTR_ON then sema_down (Sema_p (running k)) (going_to_sleep n k) else None)"
  using thread_current_active [OF assms(1)] timer_ticks_eq [OF assms(2)]
  by (simp add: timer_sleep_def going_to_sleep_def intr_get_level_def intr_disable_def Let_def)

lemma in_order_timer_cong:
  "(\<forall>t \<in> set ts. timeChecker (threads k' t) = timeChecker (threads k t)) \<Longrightarrow>
   in_order (compare_timer k') ts = in_order (compare_timer k) ts"
  by (induction ts) (auto simp: compare_timer_def)

lemma going_to_sleep_sleep_inv:
  assumes "sched_inv True k" "unguarded k" "sleep_inv k"
  shows "sleep_inv (waiting (Sema_p (running k)) l (going_to_sleep n k))" (is "sleep_inv ?k")
proof -
  let ?k1 = "upd_thread (running k) (\<lambda>th. th\<lparr>timeChecker := i64 (ticks k + n)\<rparr>) (k\<lparr>intr := INTR_OFF\<rparr>)"
  have "running k \<notin> set (waiters (semas k (Sema_p (running k))))"
    using own_sema_idle [OF assms(1)] by simp
  then have n: "running k \<notin> set (sleep_list k)" using assms(3) by (simp add: sleep_inv_def)
  have sl: "sleep_list ?k = insert_ordered (compare_timer ?k1) (running k) (sleep_list k)"
    by (simp add: waiting_def going_to_sleep_def set_status_def Let_def)
  have tc: "timeChecker (threads ?k t) = timeChecker (threads ?k1 t)" for t
    by (simp add: waiting_def going_to_sleep_def set_status_def Let_def)
  have "in_order (compare_timer ?k1) (sleep_list k)"
    using in_order_timer_cong [of "sleep_list k" ?k1 k] assms(3) n by (auto simp: sleep_inv_def)
  then have "in_order (compare_timer ?k) (sleep_list ?k)"
    unfolding sl
    by (subst in_order_timer_cong [of _ ?k ?k1]) (simp_all only: tc wake.insert_ordered_in_order ball_triv simp_thms)
  moreover have "waiters (semas ?k (Sema_p t)) = (if t = running k then [running k] else waiters (semas k (Sema_p t)))" for t
    by (simp add: waiting_def going_to_sleep_def set_status_def Let_def)
  moreover have "sema_value (semas ?k (Sema_p t)) = (if t = running k then 0 else sema_value (semas k (Sema_p t)))" for t
    by (simp add: waiting_def going_to_sleep_def set_status_def Let_def)
  moreover have "waits_at (kstack ?k t) (Sema_p t) \<Longrightarrow> t \<noteq> running k \<Longrightarrow> waits_at (kstack k t) (Sema_p t)" for t
    by (simp add: waiting_def going_to_sleep_def set_status_def Let_def)
  ultimately show ?thesis
    using assms(3) n unfolding sleep_inv_def sl by auto
qed

lemma timer_sleep_ok:
  assumes "sched_inv True k" "unguarded k" "\<not> in_external_intr k" "running k \<noteq> idle_thread k" "intr k = INTR_ON"
  shows "\<exists>k'. timer_sleep n k = Some k' \<and> kernel_ok k' \<and>
     switched (waiting (Sema_p (running k)) INTR_OFF (going_to_sleep n k)) k'"
  using timer_sleep_eq [OF assms(1,3), of n] assms(2-)
    sema_down_ok [OF going_to_sleep_inv [OF assms(1,2)], of n "Sema_p (running k)"]
  by simp

lemma thread_tick_fields:
  assumes "thread_tick k = Some k'"
  shows "threads k' = threads k \<and> semas k' = semas k \<and> kstack k' = kstack k \<and> running k' = running k \<and>
    ready_list k' = ready_list k \<and> sleep_list k' = sleep_list k \<and> holder k' = holder k \<and>
    idle_thread k' = idle_thread k \<and> intr k' = intr k \<and> in_external_intr k' = in_external_intr k \<and>
    ticks k' = ticks k \<and> cond_waiters k' = cond_waiters k"
proof -
  obtain t where t: "thread_current k = Some t" using assms by (auto simp: thread_tick_def bind_eq_Some_conv)
  define k1 where "k1 = (if t = idle_thread k then k\<lparr>idle_ticks := idle_ticks k + 1\<rparr>
              else if pagedir (threads k t) \<noteq> NULL then k\<lparr>user_ticks := user_ticks k + 1\<rparr>
              else k\<lparr>kernel_ticks := kernel_ticks k + 1\<rparr>)"
  have f: "threads k1 = threads k" "semas k1 = semas k" "kstack k1 = kstack k" "running k1 = running k"
    "ready_list k1 = ready_list k" "sleep_list k1 = sleep_list k" "holder k1 = holder k" "idle_thread k1 = idle_thread k"
    "intr k1 = intr k" "in_external_intr k1 = in_external_intr k" "ticks k1 = ticks k" "cond_waiters k1 = cond_waiters k"
    by (simp_all add: k1_def)
  let ?k2 = "k1\<lparr>thread_ticks := wrap32 (thread_ticks k1 + 1)\<rparr>"
  have "k' = ?k2 \<or> k' = ?k2\<lparr>yield_on_return := True\<rparr>"
    using assms t unfolding thread_tick_def Let_def
    by (auto simp: k1_def [symmetric] intr_yield_on_return_def simp del: kernel.update_convs split: if_splits)
  then show ?thesis using f by auto
qed

lemma thread_tick_ok:
  assumes "sched_inv True k" "in_external_intr k"
  shows "\<exists>k'. thread_tick k = Some k' \<and> sched_inv True k'"
proof -
  have "\<exists>k'. thread_tick k = Some k'"
    using thread_current_active [OF assms(1)] assms(2)
    by (simp add: thread_tick_def intr_yield_on_return_def intr_context_def Let_def)
  then obtain k' where k': "thread_tick k = Some k'" ..
  note f = thread_tick_fields [OF k']
  have "sched_inv True k'" by (rule sched_inv_cong [OF assms(1)]) (simp_all add: f)
  with k' show ?thesis by blast
qed

text \<open>
  A tick wakes exactly the sleepers whose time has come, and they are ready afterwards.
\<close>

lemma timer_interrupt_ok:
  assumes "sched_inv True k" "sleep_inv k" "in_external_intr k" "intr k = INTR_OFF"
  shows "\<exists>k'. timer_interrupt k = Some k' \<and> sched_inv True k' \<and> sleep_inv k' \<and> woken_sleepers (i64 (ticks k + 1)) k k'"
proof -
  let ?k0 = "k\<lparr>ticks := i64 (ticks k + 1)\<rparr>" and ?now = "i64 (ticks k + 1)"
  have "sched_inv True ?k0" by (rule sched_inv_cong [OF assms(1)]) simp_all
  moreover have "sleep_inv ?k0" by (rule sleep_inv_cong [OF assms(2)]) simp_all
  ultimately obtain k1 where k1: "wakeup_loop ?now (sleep_list ?k0) ?k0 = Some k1" "sched_inv True k1" "sleep_inv k1"
    "woken_sleepers ?now ?k0 k1"
    using wakeup_loop_ok [of ?k0 ?now] assms(3,4) by auto
  have ext: "in_external_intr k1" using k1(4) assms(3) by (simp add: woken_sleepers_def)
  obtain k2 where k2: "thread_tick k1 = Some k2" "sched_inv True k2" using thread_tick_ok [OF k1(2) ext] by blast
  note f = thread_tick_fields [OF k2(1)]
  have "sleep_inv k2" by (rule sleep_inv_cong [OF k1(3)]) (simp_all add: f)
  moreover have "woken_sleepers ?now k k2"
    using k1(4) by (simp add: woken_sleepers_def f)
  moreover have "timer_interrupt k = Some k2"
    using k1(1) k2(1) by (simp add: timer_interrupt_def timer_wakeup_def)
  ultimately show ?thesis using k2 by blast
qed

end
