(* ===== verification/KernelSteps.thy ===== *)
theory KernelSteps
  imports Timer
begin

text \<open>
  The kernel as a transition system: a thread calls a kernel function, continues with the
  topmost frame of its stack, or is interrupted by the timer.  The theory proves the
  invariants of the reachable states: the scheduler invariant, the order of the sleep
  list, and mutual exclusion.
\<close>

section \<open>Steps\<close>

datatype kcall =
    Sema_down nat | Sema_up nat | Sema_try_down nat
  | Lock_acquire nat | Lock_try_acquire nat | Lock_release nat
  | Cond_wait nat nat | Cond_signal nat nat | Cond_broadcast nat nat
  | Thread_yield | Thread_set_priority int | Timer_sleep int

fun run_call :: "kcall \<Rightarrow> kernel \<Rightarrow> kernel option" where
  "run_call (Sema_down i) k = sema_down (Sema i) k"
| "run_call (Sema_up i) k = sema_up (Sema i) k"
| "run_call (Sema_try_down i) k = map_option snd (sema_try_down (Sema i) k)"
| "run_call (Lock_acquire l) k = lock_acquire l k"
| "run_call (Lock_try_acquire l) k = map_option snd (lock_try_acquire l k)"
| "run_call (Lock_release l) k = lock_release l k"
| "run_call (Cond_wait c l) k = cond_wait c l k"
| "run_call (Cond_signal c l) k = cond_signal c l k"
| "run_call (Cond_broadcast c l) k = cond_broadcast c l k"
| "run_call Thread_yield k = thread_yield k"
| "run_call (Thread_set_priority p) k = thread_set_priority p k"
| "run_call (Timer_sleep n) k = timer_sleep n k"

fun run_frame :: "frame \<Rightarrow> kernel \<Rightarrow> kernel option" where
  "run_frame (F_intr_set_level l) k = map_option snd (intr_set_level l k)"
| "run_frame (F_sema_down s l) k = sema_down_loop s l k"
| "run_frame (F_lock_acquired l) k = lock_acquired l k"
| "run_frame (F_call_sema_down s) k = sema_down s k"
| "run_frame (F_call_lock_acquire l) k = lock_acquire l k"
| "run_frame (F_cond_broadcast c l) k = cond_broadcast_loop c l k"
| "run_frame F_iret k = Some (k\<lparr>intr := INTR_ON\<rparr>)"
| "run_frame F_idle k = idle_block k"
| "run_frame F_idle_hlt k = Some (idle_hlt k)"
| "run_frame F_body k = None"

inductive kstep :: "kernel \<Rightarrow> kernel \<Rightarrow> bool" where
  call: "\<lbrakk>kstack k (running k) = F_body # r; run_call c k = Some k'\<rbrakk> \<Longrightarrow> kstep k k'"
| frame: "\<lbrakk>kstack k (running k) = fr # r; run_frame fr (pop_frame k) = Some k'\<rbrakk> \<Longrightarrow> kstep k k'"
| timer: "\<lbrakk>intr k = INTR_ON; intr_handler timer_interrupt k = Some k'\<rbrakk> \<Longrightarrow> kstep k k'"

text \<open>What every reachable state satisfies.\<close>

definition kernel_inv :: "kernel \<Rightarrow> bool" where
  "kernel_inv k \<longleftrightarrow> kernel_ok k \<and> sleep_inv k"

lemma yield_sleep_inv:
  assumes "sleep_inv k" "switched (yielding k) k'"
  shows "sleep_inv k'"
  by (rule sleep_inv_cong [OF assms(1)])
    (auto simp: switchedD [OF assms(2)] yielding_def set_status_def split: if_splits)

lemma switched_sleep_inv:
  assumes "sleep_inv k" "switched k k'"
  shows "sleep_inv k'"
  by (rule sleep_inv_cong [OF assms(1)]) (simp_all add: switchedD [OF assms(2)])

section \<open>The timer interrupt\<close>

text \<open>The state in which the interrupt handler calls \<open>timer_interrupt\<close>.\<close>

definition interrupted :: "kernel \<Rightarrow> kernel" where
  "interrupted k = push_frame F_iret (k\<lparr>intr := INTR_OFF\<rparr>)\<lparr>in_external_intr := True, yield_on_return := False\<rparr>"

lemma interrupted_fields [simp]:
  "threads (interrupted k) = threads k" "semas (interrupted k) = semas k" "holder (interrupted k) = holder k"
  "running (interrupted k) = running k" "sleep_list (interrupted k) = sleep_list k" "ticks (interrupted k) = ticks k"
  "ready_list (interrupted k) = ready_list k" "idle_thread (interrupted k) = idle_thread k"
  "intr (interrupted k) = INTR_OFF" "in_external_intr (interrupted k)"
  "kstack (interrupted k) = (kstack k)(running k := F_iret # kstack k (running k))"
  by (simp_all add: interrupted_def)

text \<open>
  Under the invariant the interrupt handler cannot fail: it wakes the sleepers whose time
  has come and, when the time slice is used up, yields.
\<close>

lemma intr_handler_ok:
  assumes "kernel_inv k" "intr k = INTR_ON"
  shows "\<exists>k1 k'. intr_handler timer_interrupt k = Some k' \<and> kernel_inv k' \<and>
    timer_interrupt (interrupted k) = Some k1 \<and> sched_inv True k1 \<and>
    woken_sleepers (i64 (ticks k + 1)) (interrupted k) k1 \<and>
    (k' = k1\<lparr>in_external_intr := False\<rparr> \<or> switched (yielding (k1\<lparr>in_external_intr := False\<rparr>)) k')"
proof -
  have k: "sched_inv True k" "\<not> in_external_intr k" "unguarded k" "sleep_inv k"
    using assms by (simp_all add: kernel_inv_def kernel_ok_def)
  have "sched_inv True (push_frame F_iret k)" using k by (intro push_frame_inv) simp_all
  from sched_inv_cong [OF this] have "sched_inv True (interrupted k)" by (simp add: interrupted_def)
  moreover have "sleep_inv (interrupted k)" by (rule sleep_inv_cong [OF k(4)]) (auto split: if_splits)
  ultimately obtain k1 where k1: "timer_interrupt (interrupted k) = Some k1" "sched_inv True k1" "sleep_inv k1"
    "woken_sleepers (i64 (ticks k + 1)) (interrupted k) k1"
    using timer_interrupt_ok [of "interrupted k"] by auto
  let ?k2 = "k1\<lparr>in_external_intr := False\<rparr>"
  have lev: "intr k1 = INTR_OFF" "in_external_intr k1" "kstack k1 = kstack (interrupted k)" "running k1 = running k"
    using k1(4) by (simp_all add: woken_sleepers_def)
  have k2: "sched_inv True ?k2" "sleep_inv ?k2"
    using sched_inv_cong [OF k1(2), of ?k2] sleep_inv_cong [OF k1(3), of ?k2] by simp_all
  have u: "unguarded ?k2" using k(3) lev(3,4) by (simp add: unguarded_def)
  have h: "intr_handler timer_interrupt k = (if yield_on_return k1 then thread_yield ?k2 else Some ?k2)"
    using k(2) k1(1) lev by (simp add: intr_handler_def intr_get_level_def intr_context_def Let_def
        interrupted_def [symmetric])
  show ?thesis
  proof (cases "yield_on_return k1")
    case True
    obtain k' where k': "thread_yield ?k2 = Some k'" "switched (yielding ?k2) k'" "kernel_ok k'"
      using thread_yield_switched [OF k2(1) u] by auto
    have "sleep_inv k'"
      by (rule yield_sleep_inv [OF k2(2) k'(2)])
    then show ?thesis using True h k' k1 by (auto simp: kernel_inv_def)
  next
    case False
    have "kernel_inv ?k2" using k2 lev by (simp add: kernel_inv_def kernel_ok_def)
    then show ?thesis using False h k1 by auto
  qed
qed

section \<open>The scheduler invariant\<close>

lemma run_call_ok:
  assumes "kernel_ok k" "kstack k (running k) = F_body # r" "run_call c k = Some k'"
  shows "kernel_ok k'"
proof -
  have k: "sched_inv True k" "\<not> in_external_intr k" using assms(1) by (simp_all add: kernel_ok_def)
  note f = pop_frame_inv [OF k(1) assms(2)]
  have u: "unguarded k" using f(2) assms(2) by (auto simp: unguarded_def)
  have idle: "running k \<noteq> idle_thread k" using f(3) by simp
  show ?thesis
  proof (cases c)
    case (Sema_try_down i)
    then have "k' = k \<or> k' = upd_sema (Sema i) (\<lambda>sm. sm\<lparr>sema_value := sema_value sm - 1\<rparr>) k"
      using assms(3) sema_try_down_ok [of k "Sema i"] k(2) by (auto split: if_splits)
    moreover have "sched_inv True (upd_sema (Sema i) (\<lambda>sm. sm\<lparr>sema_value := sema_value sm - 1\<rparr>) k)"
      by (rule sched_inv_cong [OF k(1)]) auto
    ultimately show ?thesis using k u by (auto intro!: kernel_okI)
  next
    case (Thread_set_priority p)
    let ?k = "push_frame (F_intr_set_level (intr k)) (upd_thread (running k) (\<lambda>th. th\<lparr>original_priority := p\<rparr>)
      (upd_thread (running k) (\<lambda>th. th\<lparr>priority := p\<rparr>) (k\<lparr>intr := INTR_OFF\<rparr>)))"
    have "sched_inv True (push_frame (F_intr_set_level (intr k)) k)"
      using k u by (intro push_frame_inv) simp_all
    from sched_inv_cong [OF this] have "sched_inv True ?k" by simp
    moreover have "check_priority ?k = Some k'"
      using Thread_set_priority assms(3) thread_current_active [OF k(1)]
      by (simp add: thread_set_priority_def intr_disable_def intr_get_level_def Let_def)
    ultimately show ?thesis using check_priority_ok [of ?k] k(2) u by auto
  next
    case (Sema_down i)
    then show ?thesis using assms(3) sema_down_ok [OF k(1) u k(2) idle, of "Sema i"] by auto
  next
    case (Sema_up i)
    then show ?thesis using assms(3) sema_up_ok [OF k(1) u k(2), of "Sema i"] by auto
  next
    case (Lock_acquire l)
    then show ?thesis using assms(3) lock_acquire_ok [OF k(1) u idle, of l] by auto
  next
    case (Lock_try_acquire l)
    then show ?thesis using assms(3) lock_try_acquire_ok [OF k(1) u k(2), of l] by auto
  next
    case (Lock_release l)
    then have "l \<noteq> NULL \<and> holder k l = running k"
      using assms(3) lock_release_eq [OF k(1), of l] by (auto split: if_splits)
    then show ?thesis using Lock_release assms(3) lock_release_ok [OF k(1) u k(2), of l] by auto
  next
    case (Cond_wait c l)
    then show ?thesis using assms(3) cond_wait_ok [OF k(1) u idle, of c l] by auto
  next
    case (Cond_signal c l)
    then show ?thesis using assms(3) cond_signal_ok [OF k(1) u, of c l] by auto
  next
    case (Cond_broadcast c l)
    then show ?thesis using assms(3) cond_broadcast_loop_ok [OF k(1) u k(2) idle, of c l]
      by (auto simp: cond_broadcast_def)
  next
    case Thread_yield
    then show ?thesis using assms(3) thread_yield_switched [OF k(1) u k(2)] by auto
  next
    case (Timer_sleep n)
    then have "intr k = INTR_ON" using assms(3) timer_sleep_eq [OF k(1,2), of n] by (auto split: if_splits)
    then show ?thesis using Timer_sleep assms(3) timer_sleep_ok [OF k(1) u k(2) idle, of n] by auto
  qed
qed

lemma run_frame_ok:
  assumes "kernel_ok k" "kstack k (running k) = fr # r" "run_frame fr (pop_frame k) = Some k'"
  shows "kernel_ok k'"
proof -
  let ?k = "pop_frame k"
  have "sched_inv True k" and ext: "\<not> in_external_intr ?k" using assms(1) by (simp_all add: kernel_ok_def)
  note f = pop_frame_inv [OF this(1) assms(2)]
  have cur: "running ?k = running k" by simp
  show ?thesis
  proof (cases fr)
    case (F_intr_set_level l)
    then obtain l' where "k' = ?k\<lparr>intr := l'\<rparr>"
      using assms(3) by (auto simp: intr_set_level_def intr_enable_def intr_disable_def split: if_splits)
    moreover have "sched_inv True (?k\<lparr>intr := l'\<rparr>)" by (rule sched_inv_cong [OF f(1)]) simp_all
    ultimately show ?thesis using f(2) ext by (intro kernel_okI) simp_all
  next
    case (F_sema_down s l)
    have "\<not> unguarded k" using F_sema_down assms(2) by (simp add: unguarded_def)
    then have "intr ?k = INTR_OFF" using assms(1) by (simp add: kernel_ok_def)
    then show ?thesis using F_sema_down assms(3) f(3) sema_down_loop_ok [OF f(1,2) ext, of s l] by auto
  next
    case (F_lock_acquired l)
    then show ?thesis using assms(3) lock_acquired_ok [OF f(1,2) ext, of l] by auto
  next
    case (F_call_sema_down s)
    then show ?thesis using assms(3) f(3) sema_down_ok [OF f(1,2) ext, of s] by auto
  next
    case (F_call_lock_acquire l)
    then show ?thesis using assms(3) f(3) lock_acquire_ok [OF f(1,2), of l] by auto
  next
    case (F_cond_broadcast c l)
    then show ?thesis using assms(3) f(3) cond_broadcast_loop_ok [OF f(1,2) ext, of c l] by auto
  next
    case F_iret
    have "sched_inv True (?k\<lparr>intr := INTR_ON\<rparr>)" by (rule sched_inv_cong [OF f(1)]) simp_all
    then show ?thesis using F_iret assms(3) f(2) ext by (auto intro!: kernel_okI)
  next
    case F_idle
    let ?k1 = "push_frame F_idle_hlt (?k\<lparr>intr := INTR_OFF\<rparr>)"
    have "sched_inv True (push_frame F_idle_hlt ?k)" using f by (intro push_frame_inv) simp_all
    from sched_inv_cong [OF this] have "sched_inv True ?k1" by simp
    then show ?thesis using F_idle assms(3) f(2) ext thread_block_ok [of ?k1]
      by (auto simp: idle_block_def intr_disable_def)
  next
    case F_idle_hlt
    have "sched_inv True (push_frame F_idle ?k)" using f by (intro push_frame_inv) simp_all
    from sched_inv_cong [OF this] have "sched_inv True (idle_hlt ?k)" by (simp add: idle_hlt_def)
    then show ?thesis using F_idle_hlt assms(3) f(2) ext by (auto intro!: kernel_okI simp: idle_hlt_def)
  next
    case F_body
    then show ?thesis using assms(3) by simp
  qed
qed

section \<open>The sleep list\<close>

text \<open>
  Every operation but \<open>timer_sleep\<close> and the timer interrupt leaves the sleep list, the
  timer semaphores and the wake-up times alone.
\<close>

abbreviation timer_sema :: "sema_addr \<Rightarrow> bool" where
  "timer_sema s \<equiv> \<exists>t. s = Sema_p t"

lemma sema_upped_other: "s' \<noteq> s \<Longrightarrow> semas (sema_upped s k) s' = semas k s'"
  by (simp add: sema_upped_def Let_def)

lemma sema_up_sleep_inv:
  assumes "sched_inv True k" "unguarded k" "\<not> in_external_intr k" "sleep_inv k" "\<not> timer_sema s" "sema_up s k = Some k'"
  shows "sleep_inv k'"
proof -
  have "Sema_p t \<noteq> s" for t using assms(5) by blast
  then have "sleep_inv (sema_upped s k)"
    by (intro sleep_inv_cong [OF assms(4)]) (simp_all add: sema_upped_other)
  then show ?thesis
    using sema_up_ok [OF assms(1-3), of s] assms(6) yield_sleep_inv by (auto split: if_splits)
qed

lemma waiting_sleep_inv:
  assumes "sleep_inv k" "\<not> timer_sema s"
  shows "sleep_inv (waiting s l k)"
  using assms(2) by (intro sleep_inv_cong [OF assms(1)]) (auto simp: waiting_def set_status_def split: if_splits)

lemma sema_down_sleep_inv:
  assumes "sched_inv True k" "unguarded k" "\<not> in_external_intr k" "running k \<noteq> idle_thread k"
    "own_sema s (running k)" "sleep_inv k" "\<not> timer_sema s" "sema_down s k = Some k'"
  shows "sleep_inv k'"
proof (cases "sema_value (semas k s) = 0")
  case True
  then have "switched (waiting s (intr k) k) k'"
    using sema_down_ok [OF assms(1-5)] assms(8) by auto
  then show ?thesis using switched_sleep_inv waiting_sleep_inv [OF assms(6,7)] by blast
next
  case False
  then have "k' = upd_sema s (\<lambda>sm. sm\<lparr>sema_value := sema_value sm - 1\<rparr>) k"
    using sema_down_ok [OF assms(1-5)] assms(8) by auto
  then show ?thesis using assms(7) by (intro sleep_inv_cong [OF assms(6)]) auto
qed

lemma push_sleep_inv:
  assumes "sleep_inv k" "\<not> is_sema_down fr"
  shows "sleep_inv (push_frame fr k)"
  using assms(2) by (intro sleep_inv_cong [OF assms(1)]) (cases fr; auto split: if_splits)+

lemma donating_sleep_inv:
  assumes "donating l k k1" "sleep_inv k"
  shows "sleep_inv k1"
proof -
  have "timeChecker (threads k1 t) = timeChecker (threads k t)" for t
    using assms(1) by (auto simp: donating_def priorities_raised_def set_priorities_def split: if_splits)
  then show ?thesis
    by (intro sleep_inv_cong [OF assms(2)]) (simp_all add: donating_fields [OF assms(1)])
qed

lemma lock_acquire_sleep_inv:
  assumes "sched_inv True k" "unguarded k" "running k \<noteq> idle_thread k" "sleep_inv k" "lock_acquire l k = Some k'"
  shows "sleep_inv k'"
proof -
  obtain k1 where k1: "donating l k k1" "sema_down (Lock_sema l) (push_frame (F_lock_acquired l) k1) = Some k'"
    and ext: "\<not> in_external_intr k"
    using lock_acquire_eq [OF assms(1,5)] by blast
  have u: "unguarded k1" using assms(2) by (simp add: unguarded_def donating_fields [OF k1(1)])
  have "sched_inv True (push_frame (F_lock_acquired l) k1)"
    using u assms(3) by (intro push_frame_inv donating_inv [OF assms(1) k1(1)]) (simp_all add: donating_fields [OF k1(1)])
  moreover have "sleep_inv (push_frame (F_lock_acquired l) k1)"
    using donating_sleep_inv [OF k1(1) assms(4)] by (intro push_sleep_inv) simp_all
  ultimately show ?thesis
    using sema_down_sleep_inv [of "push_frame (F_lock_acquired l) k1" "Lock_sema l" k'] k1(2) u ext assms(3)
    by (simp add: donating_fields [OF k1(1)])
qed

lemma lock_release_sleep_inv:
  assumes "sched_inv True k" "unguarded k" "\<not> in_external_intr k" "sleep_inv k" "lock_release l k = Some k'"
  shows "sleep_inv k'"
proof -
  have "sema_up (Lock_sema l) (released l k) = Some k'"
    using lock_release_eq [OF assms(1), of l] assms(5) by (auto split: if_splits)
  moreover have "sleep_inv (released l k)"
    by (intro sleep_inv_cong [OF assms(4)]) (simp_all add: released_def)
  ultimately show ?thesis
    using sema_up_sleep_inv [OF released_inv [OF assms(1)], of l "Lock_sema l"] assms(2,3) by simp
qed

lemma cond_wait_sleep_inv:
  assumes "sched_inv True k" "unguarded k" "running k \<noteq> idle_thread k" "sleep_inv k" "cond_wait c l k = Some k'"
  shows "sleep_inv k'"
proof -
  have r: "lock_release l (cond_waiting c l k) = Some k'" "\<not> in_external_intr k"
    using cond_wait_eq [OF assms(1), of c l] assms(5) by (auto split: if_splits)
  have "sleep_inv (cond_waiting c l k)"
    by (intro sleep_inv_cong [OF assms(4)]) (auto simp: cond_waiting_def split: if_splits)
  then show ?thesis
    using lock_release_sleep_inv [OF cond_waiting_inv [OF assms(1-3)] _ _ r(1)] r(2) by simp
qed

lemma cond_signal_sleep_inv:
  assumes "sched_inv True k" "unguarded k" "sleep_inv k" "cond_signal c l k = Some k'"
  shows "sleep_inv k'"
proof (cases "cond_waiters k c = []")
  case True
  then show ?thesis using assms cond_signal_eq [OF assms(1), of c l] by (auto split: if_splits)
next
  case False
  then obtain ws where ws: "sema_up (Waiter_sema (hd ws)) (k\<lparr>cond_waiters := (cond_waiters k)(c := tl ws)\<rparr>) = Some k'"
    and ext: "\<not> in_external_intr k"
    using assms(4) cond_signal_eq [OF assms(1), of c l] by (auto split: if_splits simp: bind_eq_Some_conv)
  let ?k = "k\<lparr>cond_waiters := (cond_waiters k)(c := tl ws)\<rparr>"
  have "sched_inv True ?k" by (rule sched_inv_cong [OF assms(1)]) simp_all
  moreover have "sleep_inv ?k" by (rule sleep_inv_cong [OF assms(3)]) simp_all
  ultimately show ?thesis
    using sema_up_sleep_inv [of ?k "Waiter_sema (hd ws)" k'] ws ext assms(2) by (simp add: unguarded_def)
qed

lemma cond_broadcast_sleep_inv:
  assumes "sched_inv True k" "unguarded k" "running k \<noteq> idle_thread k" "sleep_inv k"
    "cond_broadcast_loop c l k = Some k'"
  shows "sleep_inv k'"
proof (cases "cond_waiters k c = []")
  case True
  then show ?thesis using assms by (auto simp: cond_broadcast_loop_def)
next
  case False
  have "sched_inv True (push_frame (F_cond_broadcast c l) k)"
    using assms by (intro push_frame_inv) simp_all
  then show ?thesis
    using False assms(2,5) push_sleep_inv [OF assms(4), of "F_cond_broadcast c l"]
      cond_signal_sleep_inv [of "push_frame (F_cond_broadcast c l) k" c l k']
    by (simp add: cond_broadcast_loop_def)
qed

lemma sleep_inv_value:
  assumes "sleep_inv k" "t \<notin> set (sleep_list k)" "\<not> waits_at (kstack k t) (Sema_p t)"
  shows "sleep_inv (upd_sema (Sema_p t) (\<lambda>sm. sm\<lparr>sema_value := f sm\<rparr>) k)"
proof -
  have "compare_timer (upd_sema (Sema_p t) (\<lambda>sm. sm\<lparr>sema_value := f sm\<rparr>) k) = compare_timer k"
    by (simp add: compare_timer_def fun_eq_iff)
  then show ?thesis using assms unfolding sleep_inv_def by auto
qed

lemma running_facts:
  assumes "kernel_ok k" "kstack k (running k) = fr # r"
  shows "sched_inv True k" "\<not> in_external_intr k"
    "sched_inv True (pop_frame k)" "unguarded (pop_frame k)" "\<not> in_external_intr (pop_frame k)"
    "frame_ok (running k = idle_thread k) (running k) fr"
    "fr = F_body \<Longrightarrow> unguarded k" "fr = F_body \<Longrightarrow> running k \<noteq> idle_thread k"
proof -
  show k: "sched_inv True k" "\<not> in_external_intr k" using assms(1) by (simp_all add: kernel_ok_def)
  show "\<not> in_external_intr (pop_frame k)" using k by simp
  show f: "sched_inv True (pop_frame k)" "unguarded (pop_frame k)" "frame_ok (running k = idle_thread k) (running k) fr"
    using pop_frame_inv [OF k(1) assms(2)] by blast+
  show "fr = F_body \<Longrightarrow> unguarded k" using f(2) assms(2) by (auto simp: unguarded_def)
  show "fr = F_body \<Longrightarrow> running k \<noteq> idle_thread k" using f(3) by auto
qed

lemma run_call_sleep_inv:
  assumes "kernel_ok k" "sleep_inv k" "kstack k (running k) = F_body # r" "run_call c k = Some k'"
  shows "sleep_inv k'"
proof -
  note k = running_facts [OF assms(1,3)]
  note u = k(7) [OF refl] and idle = k(8) [OF refl]
  show ?thesis
  proof (cases c)
    case (Sema_down i)
    then show ?thesis using sema_down_sleep_inv [OF k(1) u k(2) idle _ assms(2), of "Sema i"] assms(4) by simp
  next
    case (Sema_up i)
    then show ?thesis using sema_up_sleep_inv [OF k(1) u k(2) assms(2), of "Sema i"] assms(4) by simp
  next
    case (Sema_try_down i)
    then have "k' = k \<or> k' = upd_sema (Sema i) (\<lambda>sm. sm\<lparr>sema_value := sema_value sm - 1\<rparr>) k"
      using assms(4) sema_try_down_ok [of k "Sema i"] k(2) by (auto split: if_splits)
    moreover have "sleep_inv (upd_sema (Sema i) (\<lambda>sm. sm\<lparr>sema_value := sema_value sm - 1\<rparr>) k)"
      by (rule sleep_inv_cong [OF assms(2)]) simp_all
    ultimately show ?thesis using assms(2) by auto
  next
    case (Lock_acquire l)
    then show ?thesis using lock_acquire_sleep_inv [OF k(1) u idle assms(2), of l] assms(4) by simp
  next
    case (Lock_try_acquire l)
    let ?k = "upd_sema (Lock_sema l) (\<lambda>sm. sm\<lparr>sema_value := sema_value sm - 1\<rparr>) k\<lparr>holder := (holder k)(l := running k)\<rparr>"
    have "k' = k \<or> k' = ?k"
      using Lock_try_acquire assms(4) lock_try_acquire_eq [OF k(1), of l] k(2) by (auto split: if_splits)
    moreover have "sleep_inv ?k" by (rule sleep_inv_cong [OF assms(2)]) simp_all
    ultimately show ?thesis using assms(2) by auto
  next
    case (Lock_release l)
    then show ?thesis using lock_release_sleep_inv [OF k(1) u k(2) assms(2), of l] assms(4) by simp
  next
    case (Cond_wait c l)
    then show ?thesis using cond_wait_sleep_inv [OF k(1) u idle assms(2), of c l] assms(4) by simp
  next
    case (Cond_signal c l)
    then show ?thesis using cond_signal_sleep_inv [OF k(1) u assms(2), of c l] assms(4) by simp
  next
    case (Cond_broadcast c l)
    then show ?thesis using cond_broadcast_sleep_inv [OF k(1) u idle assms(2), of c l] assms(4)
      by (auto simp: cond_broadcast_def)
  next
    case Thread_yield
    then show ?thesis using thread_yield_switched [OF k(1) u k(2)] yield_sleep_inv [OF assms(2)] assms(4) by auto
  next
    case (Thread_set_priority p)
    let ?k = "push_frame (F_intr_set_level (intr k)) (upd_thread (running k) (\<lambda>th. th\<lparr>original_priority := p\<rparr>)
      (upd_thread (running k) (\<lambda>th. th\<lparr>priority := p\<rparr>) (k\<lparr>intr := INTR_OFF\<rparr>)))"
    have "sched_inv True (push_frame (F_intr_set_level (intr k)) k)"
      using k u by (intro push_frame_inv) simp_all
    from sched_inv_cong [OF this] have "sched_inv True ?k" by simp
    moreover have "check_priority ?k = Some k'"
      using Thread_set_priority assms(4) thread_current_active [OF k(1)]
      by (simp add: thread_set_priority_def intr_disable_def intr_get_level_def Let_def)
    moreover have "sleep_inv ?k" by (rule sleep_inv_cong [OF assms(2)]) (auto split: if_splits)
    ultimately show ?thesis using check_priority_ok [of ?k] yield_sleep_inv [of ?k k'] k(2) u by (auto split: if_splits)
  next
    case (Timer_sleep n)
    then have "intr k = INTR_ON" using assms(4) timer_sleep_eq [OF k(1,2), of n] by (auto split: if_splits)
    then show ?thesis
      using Timer_sleep assms(4) timer_sleep_ok [OF k(1) u k(2) idle, of n]
        switched_sleep_inv [OF going_to_sleep_sleep_inv [OF k(1) u assms(2)]] by auto
  qed
qed

lemma run_frame_sleep_inv:
  assumes "kernel_ok k" "sleep_inv k" "kstack k (running k) = fr # r" "run_frame fr (pop_frame k) = Some k'"
  shows "sleep_inv k'"
proof -
  let ?k = "pop_frame k"
  note k = running_facts [OF assms(1,3)]
  have "waits_at (kstack ?k t) (Sema_p t) \<Longrightarrow> waits_at (kstack k t) (Sema_p t)" for t
    using k(4) by (cases "t = running k") (auto simp: unguarded_def waits_at_iff)
  then have sl: "sleep_inv ?k" by (intro sleep_inv_cong [OF assms(2)]) simp_all
  show ?thesis
  proof (cases fr)
    case (F_intr_set_level l)
    then obtain l' where "k' = ?k\<lparr>intr := l'\<rparr>"
      using assms(4) by (auto simp: intr_set_level_def intr_enable_def intr_disable_def split: if_splits)
    then show ?thesis by (intro sleep_inv_cong [OF sl]) simp_all
  next
    case (F_sema_down s l)
    have off: "intr ?k = INTR_OFF" using assms(1,3) F_sema_down by (simp add: kernel_ok_def unguarded_def)
    note ok = sema_down_loop_ok [OF k(3-5) off, of s l]
    show ?thesis
    proof (cases "timer_sema s")
      case True
      then have s: "s = Sema_p (running k)" using k(6) F_sema_down by auto
      have "running k \<notin> set (sleep_list k)"
        using sleep_invD(3) [OF assms(2)] own_sema_idle [OF k(1)] by simp
      then have "sema_value (semas k s) \<noteq> 0"
        using sleep_invD(5) [OF assms(2), of "running k"] assms(3) F_sema_down s by simp
      then have k': "k' = upd_sema s (\<lambda>sm. sm\<lparr>sema_value := sema_value sm - 1\<rparr>) ?k\<lparr>intr := l\<rparr>"
        using ok assms(4) k(6) F_sema_down by auto
      have "\<not> waits_at (kstack ?k (running k)) (Sema_p (running k))"
        using k(4) by (auto simp: unguarded_def waits_at_iff)
      then have "sleep_inv (upd_sema s (\<lambda>sm. sm\<lparr>sema_value := sema_value sm - 1\<rparr>) ?k)"
        unfolding s using \<open>running k \<notin> set (sleep_list k)\<close> by (intro sleep_inv_value [OF sl]) simp_all
      then show ?thesis unfolding k' by (rule sleep_inv_cong) simp_all
    next
      case False
      then have "Sema_p t \<noteq> s" for t by blast
      then have "sleep_inv (upd_sema s (\<lambda>sm. sm\<lparr>sema_value := sema_value sm - 1\<rparr>) ?k\<lparr>intr := l\<rparr>)"
        by (intro sleep_inv_cong [OF sl]) simp_all
      then show ?thesis
        using ok assms(4) k(6) F_sema_down switched_sleep_inv waiting_sleep_inv [OF sl False]
        by (auto split: if_splits)
    qed
  next
    case (F_lock_acquired l)
    then show ?thesis using assms(4) lock_acquired_eq [OF k(3), of l] by (intro sleep_inv_cong [OF sl]) auto
  next
    case (F_call_sema_down s)
    then show ?thesis using sema_down_sleep_inv [OF k(3-5) _ _ sl, of s] assms(4) k(6) by auto
  next
    case (F_call_lock_acquire l)
    then show ?thesis using lock_acquire_sleep_inv [OF k(3,4) _ sl, of l] assms(4) k(6) by auto
  next
    case (F_cond_broadcast c l)
    then show ?thesis using cond_broadcast_sleep_inv [OF k(3,4) _ sl, of c l] assms(4) k(6) by auto
  next
    case F_iret
    then show ?thesis using assms(4) by (intro sleep_inv_cong [OF sl]) auto
  next
    case F_idle
    let ?k1 = "push_frame F_idle_hlt (?k\<lparr>intr := INTR_OFF\<rparr>)"
    have "sched_inv True (push_frame F_idle_hlt ?k)" using k(3,4) by (intro push_frame_inv) simp_all
    from sched_inv_cong [OF this] have "sched_inv True ?k1" by simp
    then have "switched (set_status (running ?k1) THREAD_BLOCKED ?k1) k'"
      using F_idle assms(4) k(4,5) thread_block_ok [of ?k1] by (auto simp: idle_block_def intr_disable_def)
    moreover have "sleep_inv (set_status (running ?k1) THREAD_BLOCKED ?k1)"
      by (intro sleep_inv_cong [OF sl]) (auto simp: set_status_def split: if_splits)
    ultimately show ?thesis using switched_sleep_inv by blast
  next
    case F_idle_hlt
    then show ?thesis using assms(4) by (intro sleep_inv_cong [OF sl]) (auto simp: idle_hlt_def split: if_splits)
  next
    case F_body
    then show ?thesis using assms(4) by simp
  qed
qed

section \<open>Reachable states\<close>

text \<open>A run of the kernel from a state in which the invariant holds.\<close>

definition reachable :: "kernel \<Rightarrow> kernel \<Rightarrow> bool" where
  "reachable k0 k \<longleftrightarrow> kstep\<^sup>*\<^sup>* k0 k"

lemma kernel_inv_kstep:
  assumes "kstep k k'" "kernel_inv k"
  shows "kernel_inv k'"
  using assms
proof cases
  case (call r c)
  then show ?thesis using run_call_ok run_call_sleep_inv assms(2) unfolding kernel_inv_def by blast
next
  case (frame fr r)
  then show ?thesis using run_frame_ok run_frame_sleep_inv assms(2) unfolding kernel_inv_def by blast
next
  case timer
  then show ?thesis using intr_handler_ok [OF assms(2)] by auto
qed

lemma kernel_inv_reachable:
  assumes "reachable k0 k" "kernel_inv k0"
  shows "kernel_inv k"
  using assms unfolding reachable_def
  by (induction rule: rtranclp_induct) (auto intro: kernel_inv_kstep)

end
