(* ===== verification/Mutex.thy ===== *)
theory Mutex
  imports KernelSteps
begin

text \<open>
  Mutual exclusion: in every reachable state a lock is free, or one thread holds it, or
  one thread has taken its semaphore and is about to record itself as the holder.
\<close>

section \<open>The phases of a lock\<close>

text \<open>
  A thread between the return of \<open>sema_down\<close> and the assignment of the holder in
  \<open>lock_acquire\<close> has the frame \<open>F_lock_acquired\<close> on its stack, and not below a
  \<open>sema_down\<close> on the semaphore of the lock.
\<close>

fun pend :: "nat \<Rightarrow> frame list \<Rightarrow> nat" where
  "pend l (F_sema_down s lev # r) = count_list (if s = Lock_sema l then tl r else r) (F_lock_acquired l)"
| "pend l frs = count_list frs (F_lock_acquired l)"

definition lock_stack_ok :: "frame list \<Rightarrow> bool" where
  "lock_stack_ok frs \<longleftrightarrow> (\<forall>l lev r. frs = F_sema_down (Lock_sema l) lev # r \<longrightarrow> (\<exists>r'. r = F_lock_acquired l # r'))"

definition lock_free :: "kernel \<Rightarrow> nat \<Rightarrow> bool" where
  "lock_free k l \<longleftrightarrow> sema_value (semas k (Lock_sema l)) = 1 \<and> holder k l = NULL \<and> (\<forall>t. pend l (kstack k t) = 0)"

definition lock_held :: "kernel \<Rightarrow> nat \<Rightarrow> bool" where
  "lock_held k l \<longleftrightarrow> sema_value (semas k (Lock_sema l)) = 0 \<and> holder k l \<noteq> NULL \<and> (\<forall>t. pend l (kstack k t) = 0)"

definition lock_taken :: "kernel \<Rightarrow> nat \<Rightarrow> bool" where
  "lock_taken k l \<longleftrightarrow> sema_value (semas k (Lock_sema l)) = 0 \<and> holder k l = NULL \<and>
     (\<exists>t. pend l (kstack k t) = 1 \<and> (\<forall>u. u \<noteq> t \<longrightarrow> pend l (kstack k u) = 0))"

definition lock_inv :: "nat set \<Rightarrow> kernel \<Rightarrow> bool" where
  "lock_inv L k \<longleftrightarrow> (\<forall>t. lock_stack_ok (kstack k t)) \<and> (\<forall>l \<in> L. lock_free k l \<or> lock_held k l \<or> lock_taken k l)"

lemma lock_inv_cong:
  assumes "lock_inv L k" "\<And>l. sema_value (semas k' (Lock_sema l)) = sema_value (semas k (Lock_sema l))"
    "holder k' = holder k" "\<And>l t. pend l (kstack k' t) = pend l (kstack k t)" "\<And>t. lock_stack_ok (kstack k' t)"
  shows "lock_inv L k'"
  using assms(1) unfolding lock_inv_def lock_free_def lock_held_def lock_taken_def assms(2-4) using assms(5) by blast

lemma lock_inv_same:
  assumes "lock_inv L k" "\<And>l. sema_value (semas k' (Lock_sema l)) = sema_value (semas k (Lock_sema l))"
    "holder k' = holder k" "kstack k' = kstack k"
  shows "lock_inv L k'"
  using assms(1) by (intro lock_inv_cong [OF assms(1-3)]) (simp_all add: assms(4) lock_inv_def)

lemma pend_unguarded: "\<forall>fr \<in> set frs. \<not> is_sema_down fr \<Longrightarrow> pend l frs = count_list frs (F_lock_acquired l)"
  by (cases "(l, frs)" rule: pend.cases) auto

lemma lock_stack_unguarded: "\<forall>fr \<in> set frs. \<not> is_sema_down fr \<Longrightarrow> lock_stack_ok frs"
  by (auto simp: lock_stack_ok_def)

fun plain :: "frame \<Rightarrow> bool" where
  "plain (F_sema_down s l) = False"
| "plain (F_lock_acquired l) = False"
| "plain _ = True"

lemma pend_plain: "plain fr \<Longrightarrow> pend l (fr # frs) = count_list frs (F_lock_acquired l)"
  by (cases fr) auto

lemma plain_not_sema_down: "plain fr \<Longrightarrow> \<not> is_sema_down fr"
  by (cases fr) auto

text \<open>Replacing the stack of the running thread.\<close>

lemma restack_lock_inv:
  assumes "lock_inv L k" "\<And>l. sema_value (semas k' (Lock_sema l)) = sema_value (semas k (Lock_sema l))"
    "holder k' = holder k" "kstack k' = (kstack k)(running k := frs)" "lock_stack_ok frs"
    "\<And>l. pend l frs = pend l (kstack k (running k))"
  shows "lock_inv L k'"
  using assms by (intro lock_inv_cong [OF assms(1-3)]) (simp_all add: lock_inv_def)

lemma push_lock_inv:
  assumes "lock_inv L k" "unguarded k" "plain fr"
  shows "lock_inv L (push_frame fr k)"
  using assms(2) pend_unguarded [of "kstack k (running k)"]
  by (intro restack_lock_inv [OF assms(1), of _ "fr # kstack k (running k)"])
    (simp_all add: unguarded_def lock_stack_unguarded pend_plain [OF assms(3)] plain_not_sema_down [OF assms(3)])

lemma switched_lock_inv:
  assumes "lock_inv L k" "switched k k'"
  shows "lock_inv L k'"
  by (rule lock_inv_same [OF assms(1)]) (simp_all add: switchedD [OF assms(2)])

lemma yield_lock_inv:
  assumes "lock_inv L k" "unguarded k" "switched (yielding k) k'"
  shows "lock_inv L k'"
proof -
  have "lock_inv L (push_frame (F_intr_set_level (intr k)) k)" by (rule push_lock_inv [OF assms(1,2)]) simp
  then have "lock_inv L (yielding k)" by (rule lock_inv_same) (simp_all add: yielding_def set_status_def)
  then show ?thesis using switched_lock_inv assms(3) by blast
qed

lemma pop_plain_lock_inv:
  assumes "lock_inv L k" "sched_inv True k" "kstack k (running k) = fr # r" "plain fr"
  shows "lock_inv L (pop_frame k)"
proof -
  have "\<forall>fr \<in> set r. \<not> is_sema_down fr"
    using pop_frame_inv(2) [OF assms(2,3)] assms(3) by (simp add: unguarded_def)
  then show ?thesis
    using assms(3,4) by (intro restack_lock_inv [OF assms(1), of _ r])
      (simp_all add: pend_unguarded lock_stack_unguarded pend_plain)
qed

section \<open>Operations that leave the locks alone\<close>

abbreviation lock_sema :: "sema_addr \<Rightarrow> bool" where
  "lock_sema s \<equiv> \<exists>l. s = Lock_sema l"

lemma sema_up_lock_inv:
  assumes "sched_inv True k" "unguarded k" "\<not> in_external_intr k" "lock_inv L k" "\<not> lock_sema s" "sema_up s k = Some k'"
  shows "lock_inv L k'"
proof -
  have "lock_inv L (sema_upped s k)"
    using assms(5) by (intro lock_inv_same [OF assms(4)]) auto
  then show ?thesis
    using sema_up_ok [OF assms(1-3), of s] assms(2,6) yield_lock_inv [of L "sema_upped s k" k'] by (auto split: if_splits)
qed

lemma waiting_lock_inv:
  assumes "lock_inv L k" "unguarded k" "\<not> lock_sema s"
  shows "lock_inv L (waiting s l k)"
  using assms(2,3) pend_unguarded [of "kstack k (running k)"]
  by (intro restack_lock_inv [OF assms(1), of _ "F_sema_down s l # kstack k (running k)"])
    (auto simp: waiting_def set_status_def unguarded_def lock_stack_ok_def)

lemma sema_down_loop_lock_inv:
  assumes "sched_inv True k" "unguarded k" "\<not> in_external_intr k" "intr k = INTR_OFF" "running k \<noteq> idle_thread k"
    "own_sema s (running k)" "lock_inv L k" "\<not> lock_sema s" "sema_down_loop s lev k = Some k'"
  shows "lock_inv L k'"
proof (cases "sema_value (semas k s) = 0")
  case True
  then have "switched (waiting s lev k) k'"
    using sema_down_loop_ok [OF assms(1-6), of lev] assms(9) by auto
  then show ?thesis using switched_lock_inv waiting_lock_inv [OF assms(7,2,8)] by blast
next
  case False
  then have "k' = upd_sema s (\<lambda>sm. sm\<lparr>sema_value := sema_value sm - 1\<rparr>) k\<lparr>intr := lev\<rparr>"
    using sema_down_loop_ok [OF assms(1-6), of lev] assms(9) by auto
  then show ?thesis using assms(8) by (intro lock_inv_same [OF assms(7)]) auto
qed

lemma sema_down_lock_inv:
  assumes "sched_inv True k" "unguarded k" "\<not> in_external_intr k" "running k \<noteq> idle_thread k"
    "own_sema s (running k)" "lock_inv L k" "\<not> lock_sema s" "sema_down s k = Some k'"
  shows "lock_inv L k'"
proof -
  have "sched_inv True (k\<lparr>intr := INTR_OFF\<rparr>)" by (rule sched_inv_cong [OF assms(1)]) simp_all
  moreover have "lock_inv L (k\<lparr>intr := INTR_OFF\<rparr>)" by (rule lock_inv_same [OF assms(6)]) simp_all
  moreover have "sema_down_loop s (intr k) (k\<lparr>intr := INTR_OFF\<rparr>) = Some k'"
    using assms(3,8) by (simp add: sema_down_def intr_context_def intr_disable_def intr_get_level_def)
  ultimately show ?thesis
    using sema_down_loop_lock_inv [of "k\<lparr>intr := INTR_OFF\<rparr>" s L "intr k" k'] assms by simp
qed

section \<open>Taking and releasing a lock\<close>

text \<open>
  A thread about to run the loop of \<open>sema_down\<close> for a lock.  Blocking keeps the phase of
  the lock; going on turns a free lock into a taken one.
\<close>

definition at_lock :: "nat \<Rightarrow> kernel \<Rightarrow> bool" where
  "at_lock l k \<longleftrightarrow> (\<exists>r. kstack k (running k) = F_lock_acquired l # r)"

lemma at_lock_pend:
  assumes "at_lock l k" "unguarded k"
  shows "pend l' (F_sema_down (Lock_sema l) lev # kstack k (running k)) =
      (if l' = l then pend l' (kstack k (running k)) - 1 else pend l' (kstack k (running k)))"
    "at_lock l k \<Longrightarrow> pend l (kstack k (running k)) > 0"
    "lock_stack_ok (F_sema_down (Lock_sema l) lev # kstack k (running k))"
  using assms by (auto simp: at_lock_def lock_stack_ok_def)

lemma take_lock:
  assumes "sched_inv True k" "unguarded k" "\<not> in_external_intr k" "intr k = INTR_OFF" "running k \<noteq> idle_thread k"
    and at: "at_lock l k" and inv: "lock_inv L (push_frame (F_sema_down (Lock_sema l) lev) k)"
    and run: "sema_down_loop (Lock_sema l) lev k = Some k'"
  shows "lock_inv L k'"
proof (cases "sema_value (semas k (Lock_sema l)) = 0")
  case True
  then have "switched (waiting (Lock_sema l) lev k) k'"
    using sema_down_loop_ok [OF assms(1-5), of "Lock_sema l" lev] run by auto
  moreover have "lock_inv L (waiting (Lock_sema l) lev k)"
    by (rule lock_inv_same [OF inv]) (auto simp: waiting_def set_status_def)
  ultimately show ?thesis using switched_lock_inv by blast
next
  case False
  let ?p = "push_frame (F_sema_down (Lock_sema l) lev) k"
  have k': "k' = upd_sema (Lock_sema l) (\<lambda>sm. sm\<lparr>sema_value := sema_value sm - 1\<rparr>) k\<lparr>intr := lev\<rparr>"
    using False sema_down_loop_ok [OF assms(1-5), of "Lock_sema l" lev] run by auto
  have f: "holder k' = holder k" "kstack k' = kstack k" "holder ?p = holder k"
    "sema_value (semas k' (Lock_sema l')) = (if l' = l then sema_value (semas k (Lock_sema l)) - 1
       else sema_value (semas k (Lock_sema l')))" for l'
    by (simp_all add: k')
  note p = at_lock_pend [OF at assms(2)]
  have st: "lock_stack_ok (kstack k' t)" for t
    using inv lock_stack_unguarded [of "kstack k (running k)"] assms(2)
    by (cases "t = running k") (auto simp: k' lock_inv_def unguarded_def split: if_splits)
  have other: "pend l' (kstack ?p t) = pend l' (kstack k t)" if "l' \<noteq> l \<or> t \<noteq> running k" for l' t
    using that p(1) [of l' lev] by (cases "t = running k") (simp_all del: pend.simps)
  have own: "pend l (kstack ?p (running k)) = pend l (kstack k (running k)) - 1" "pend l (kstack k (running k)) > 0"
    using p(1) [of l lev] p(2) [OF at] by (simp_all del: pend.simps)
  have "lock_free k' l' \<or> lock_held k' l' \<or> lock_taken k' l'" if "l' \<in> L" for l'
  proof (cases "l' = l")
    case True
    then have "lock_free ?p l" using inv that False by (auto simp: lock_inv_def lock_held_def lock_taken_def)
    then have v: "sema_value (semas k (Lock_sema l)) = 1" "holder k l = NULL" and z: "\<forall>t. pend l (kstack ?p t) = 0"
      by (simp_all add: lock_free_def)
    have "pend l (kstack k (running k)) = 1" using own z [rule_format, of "running k"] by linarith
    moreover have "\<forall>u. u \<noteq> running k \<longrightarrow> pend l (kstack k u) = 0" using other [of l] z by metis
    moreover note v
    ultimately have "lock_taken k' l" unfolding lock_taken_def f by auto
    then show ?thesis using True by simp
  next
    case ne: False
    have "lock_free ?p l' \<or> lock_held ?p l' \<or> lock_taken ?p l'" using inv that by (simp add: lock_inv_def)
    moreover have "pend l' (kstack ?p t) = pend l' (kstack k' t)" for t using ne other f by simp
    ultimately show ?thesis
      using ne unfolding lock_free_def lock_held_def lock_taken_def f by simp
  qed
  then show ?thesis using st by (simp add: lock_inv_def)
qed

lemma lock_acquire_lock_inv:
  assumes "sched_inv True k" "unguarded k" "running k \<noteq> idle_thread k" "lock_inv L k" "lock_acquire l k = Some k'"
  shows "lock_inv L k'"
proof -
  obtain k1 where k1: "donating l k k1" "sema_down (Lock_sema l) (push_frame (F_lock_acquired l) k1) = Some k'"
    and ext: "\<not> in_external_intr k"
    using lock_acquire_eq [OF assms(1,5)] by blast
  let ?k = "push_frame (F_lock_acquired l) k1\<lparr>intr := INTR_OFF\<rparr>"
  note f = donating_fields [OF k1(1)]
  have u: "unguarded k1" "unguarded ?k" using assms(2) by (auto simp: unguarded_def f)
  have "sched_inv True (push_frame (F_lock_acquired l) k1)"
    using u(1) assms(3) by (intro push_frame_inv donating_inv [OF assms(1) k1(1)]) (simp_all add: f)
  from sched_inv_cong [OF this] have inv: "sched_inv True ?k" by simp
  have "lock_inv L k1" by (rule lock_inv_same [OF assms(4)]) (simp_all add: f)
  then have "lock_inv L (push_frame (F_sema_down (Lock_sema l) lev) ?k)" for lev
    by (rule restack_lock_inv [of L k1 _ "F_sema_down (Lock_sema l) lev # F_lock_acquired l # kstack k1 (running k1)"])
      (use u(1) in \<open>simp_all add: unguarded_def pend_unguarded lock_stack_ok_def\<close>)
  moreover have "sema_down_loop (Lock_sema l) (intr k1) ?k = Some k'"
    using k1(2) ext by (simp add: sema_down_def intr_context_def intr_disable_def intr_get_level_def f)
  ultimately show ?thesis
    using take_lock [OF inv u(2), of l L "intr k1" k'] ext assms(3) by (simp add: at_lock_def f)
qed

lemma lock_phase_frame:
  assumes "\<And>t. pend l (kstack k' t) = pend l (kstack k t)" "holder k' l = holder k l"
    "sema_value (semas k' (Lock_sema l)) = sema_value (semas k (Lock_sema l))"
    "lock_free k l \<or> lock_held k l \<or> lock_taken k l"
  shows "lock_free k' l \<or> lock_held k' l \<or> lock_taken k' l"
  using assms(4) unfolding lock_free_def lock_held_def lock_taken_def assms(1-3) .

text \<open>Recording the holder of a taken lock.\<close>

lemma lock_acquired_lock_inv:
  assumes "lock_inv L k" "sched_inv True k" "kstack k (running k) = F_lock_acquired l # r"
    "lock_acquired l (pop_frame k) = Some k'"
  shows "lock_inv L k'"
proof -
  note pop = pop_frame_inv [OF assms(2,3)]
  have k': "k' = upd_thread (running k) (\<lambda>th. th\<lparr>try_lock := NULL\<rparr>) (pop_frame k)\<lparr>holder := (holder k)(l := running k)\<rparr>"
    using lock_acquired_eq [OF pop(1), of l] assms(4) by simp
  have ur: "\<forall>fr \<in> set r. \<not> is_sema_down fr" using pop(2) assms(3) by (simp add: unguarded_def)
  have f: "semas k' = semas k" "holder k' = (holder k)(l := running k)" "kstack k' = (kstack k)(running k := r)"
    using assms(3) by (simp_all add: k')
  have pd: "pend l' (kstack k' t) = (if l' = l \<and> t = running k then pend l (kstack k t) - 1 else pend l' (kstack k t))" for l' t
    using assms(3) ur by (simp add: f pend_unguarded)
  have nz: "running k \<noteq> NULL" "pend l (kstack k (running k)) > 0"
    using sched_invD(1) [OF assms(2)] assms(3) by (simp_all add: is_thread_def)
  have "lock_free k' l' \<or> lock_held k' l' \<or> lock_taken k' l'" if "l' \<in> L" for l'
  proof (cases "l' = l")
    case True
    have "lock_free k l \<or> lock_held k l \<or> lock_taken k l" using assms(1) that True by (simp add: lock_inv_def)
    then have "lock_taken k l" using nz(2) by (auto simp: lock_free_def lock_held_def)
    then obtain t where t: "pend l (kstack k t) = 1" "\<forall>u. u \<noteq> t \<longrightarrow> pend l (kstack k u) = 0"
      "sema_value (semas k (Lock_sema l)) = 0"
      by (auto simp: lock_taken_def)
    have "t = running k" using t(2) nz(2) by force
    then have "pend l (kstack k' u) = 0" for u using t pd [of l u] by (cases "u = running k") simp_all
    then have "lock_held k' l" using t(3) nz(1) by (simp add: lock_held_def f)
    then show ?thesis using True by simp
  next
    case False
    then show ?thesis using assms(1) that by (intro lock_phase_frame [of l' k' k]) (simp_all add: pd f(1,2) lock_inv_def)
  qed
  moreover have "lock_stack_ok (kstack k' t)" for t
    using assms(1) lock_stack_unguarded [OF ur] by (simp add: f lock_inv_def)
  ultimately show ?thesis by (simp add: lock_inv_def)
qed

lemma lock_release_lock_inv:
  assumes "sched_inv True k" "unguarded k" "\<not> in_external_intr k" "lock_inv L k" "lock_release l k = Some k'"
  shows "lock_inv L k'"
proof -
  have h: "l \<noteq> NULL" "holder k l = running k"
    using lock_release_eq [OF assms(1), of l] assms(5) by (auto split: if_splits)
  let ?k = "sema_upped (Lock_sema l) (released l k)"
  have "running k \<noteq> NULL" using sched_invD(1) [OF assms(1)] by (simp add: is_thread_def)
  have "lock_free ?k l' \<or> lock_held ?k l' \<or> lock_taken ?k l'" if "l' \<in> L" for l'
  proof (cases "l' = l")
    case True
    have "lock_held k l"
      using assms(4) that True h \<open>running k \<noteq> NULL\<close> by (auto simp: lock_inv_def lock_free_def lock_taken_def)
    then have "lock_free ?k l" by (simp add: lock_free_def lock_held_def)
    then show ?thesis using True by simp
  next
    case False
    then show ?thesis using assms(4) that by (intro lock_phase_frame [of l' ?k k]) (simp_all add: lock_inv_def)
  qed
  then have "lock_inv L ?k" using assms(4) by (simp add: lock_inv_def)
  then show ?thesis
    using lock_release_ok [OF assms(1-3) h] assms(2,5) yield_lock_inv [of L ?k k'] by (auto simp: Let_def split: if_splits)
qed

lemma lock_try_acquire_lock_inv:
  assumes "sched_inv True k" "\<not> in_external_intr k" "lock_inv L k" "lock_try_acquire l k = Some (b, k')"
  shows "lock_inv L k'"
proof (cases "sema_value (semas k (Lock_sema l)) = 0")
  case True
  then show ?thesis using lock_try_acquire_eq [OF assms(1), of l] assms(2-4) by (auto split: if_splits)
next
  case nz: False
  have k': "k' = upd_sema (Lock_sema l) (\<lambda>sm. sm\<lparr>sema_value := sema_value sm - 1\<rparr>) k\<lparr>holder := (holder k)(l := running k)\<rparr>"
    using nz lock_try_acquire_eq [OF assms(1), of l] assms(2,4) by (auto split: if_splits)
  have "running k \<noteq> NULL" using sched_invD(1) [OF assms(1)] by (simp add: is_thread_def)
  have "lock_free k' l' \<or> lock_held k' l' \<or> lock_taken k' l'" if "l' \<in> L" for l'
  proof (cases "l' = l")
    case True
    have "lock_free k l" using assms(3) that True nz by (auto simp: lock_inv_def lock_held_def lock_taken_def)
    then have "lock_held k' l" using \<open>running k \<noteq> NULL\<close> by (simp add: lock_free_def lock_held_def k')
    then show ?thesis using True by simp
  next
    case False
    then show ?thesis using assms(3) that by (intro lock_phase_frame [of l' k' k]) (simp_all add: k' lock_inv_def)
  qed
  then show ?thesis using assms(3) by (simp add: lock_inv_def k')
qed

lemma cond_wait_lock_inv:
  assumes "sched_inv True k" "unguarded k" "running k \<noteq> idle_thread k" "lock_inv L k" "cond_wait c l k = Some k'"
  shows "lock_inv L k'"
proof -
  have r: "lock_release l (cond_waiting c l k) = Some k'" "\<not> in_external_intr k"
    using cond_wait_eq [OF assms(1), of c l] assms(5) by (auto split: if_splits)
  have "lock_inv L (push_frame (F_call_sema_down (Waiter_sema (running k))) (push_frame (F_call_lock_acquire l) k))"
    using assms(2) by (intro push_lock_inv assms(4)) simp_all
  then have "lock_inv L (cond_waiting c l k)" by (rule lock_inv_same) (simp_all add: cond_waiting_def)
  then show ?thesis
    using lock_release_lock_inv [OF cond_waiting_inv [OF assms(1-3)] _ _ r(1)] r(2) by simp
qed

lemma cond_signal_lock_inv:
  assumes "sched_inv True k" "unguarded k" "lock_inv L k" "cond_signal c l k = Some k'"
  shows "lock_inv L k'"
proof (cases "cond_waiters k c = []")
  case True
  then show ?thesis using assms cond_signal_eq [OF assms(1), of c l] by (auto split: if_splits)
next
  case False
  then obtain ws where ws: "sema_up (Waiter_sema (hd ws)) (k\<lparr>cond_waiters := (cond_waiters k)(c := tl ws)\<rparr>) = Some k'"
    and ext: "\<not> in_external_intr k"
    using assms(4) cond_signal_eq [OF assms(1), of c l] by (auto split: if_splits simp: bind_eq_Some_conv)
  let ?k = "k\<lparr>cond_waiters := (cond_waiters k)(c := tl ws)\<rparr>"
  have "sched_inv True ?k" by (rule sched_inv_cong [OF assms(1)]) simp_all
  moreover have "lock_inv L ?k" by (rule lock_inv_same [OF assms(3)]) simp_all
  ultimately show ?thesis
    using sema_up_lock_inv [of ?k L "Waiter_sema (hd ws)" k'] ws ext assms(2) by (simp add: unguarded_def)
qed

lemma cond_broadcast_lock_inv:
  assumes "sched_inv True k" "unguarded k" "running k \<noteq> idle_thread k" "lock_inv L k"
    "cond_broadcast_loop c l k = Some k'"
  shows "lock_inv L k'"
proof (cases "cond_waiters k c = []")
  case True
  then show ?thesis using assms by (auto simp: cond_broadcast_loop_def)
next
  case False
  have "sched_inv True (push_frame (F_cond_broadcast c l) k)"
    using assms by (intro push_frame_inv) simp_all
  then show ?thesis
    using False assms(2,5) push_lock_inv [OF assms(4,2), of "F_cond_broadcast c l"]
      cond_signal_lock_inv [of "push_frame (F_cond_broadcast c l) k" L c l k']
    by (simp add: cond_broadcast_loop_def)
qed

section \<open>Every step keeps the lock invariant\<close>

lemma run_call_lock_inv:
  assumes "kernel_ok k" "lock_inv L k" "kstack k (running k) = F_body # r" "run_call c k = Some k'"
  shows "lock_inv L k'"
proof -
  note k = running_facts [OF assms(1,3)]
  note u = k(7) [OF refl] and idle = k(8) [OF refl]
  show ?thesis
  proof (cases c)
    case (Sema_down i)
    then show ?thesis using sema_down_lock_inv [OF k(1) u k(2) idle _ assms(2), of "Sema i"] assms(4) by simp
  next
    case (Sema_up i)
    then show ?thesis using sema_up_lock_inv [OF k(1) u k(2) assms(2), of "Sema i"] assms(4) by simp
  next
    case (Sema_try_down i)
    then have "k' = k \<or> k' = upd_sema (Sema i) (\<lambda>sm. sm\<lparr>sema_value := sema_value sm - 1\<rparr>) k"
      using assms(4) sema_try_down_ok [of k "Sema i"] k(2) by (auto split: if_splits)
    moreover have "lock_inv L (upd_sema (Sema i) (\<lambda>sm. sm\<lparr>sema_value := sema_value sm - 1\<rparr>) k)"
      by (rule lock_inv_same [OF assms(2)]) simp_all
    ultimately show ?thesis using assms(2) by auto
  next
    case (Lock_acquire l)
    then show ?thesis using lock_acquire_lock_inv [OF k(1) u idle assms(2), of l] assms(4) by simp
  next
    case (Lock_try_acquire l)
    then show ?thesis using lock_try_acquire_lock_inv [OF k(1,2) assms(2), of l] assms(4) by auto
  next
    case (Lock_release l)
    then show ?thesis using lock_release_lock_inv [OF k(1) u k(2) assms(2), of l] assms(4) by simp
  next
    case (Cond_wait c l)
    then show ?thesis using cond_wait_lock_inv [OF k(1) u idle assms(2), of c l] assms(4) by simp
  next
    case (Cond_signal c l)
    then show ?thesis using cond_signal_lock_inv [OF k(1) u assms(2), of c l] assms(4) by simp
  next
    case (Cond_broadcast c l)
    then show ?thesis using cond_broadcast_lock_inv [OF k(1) u idle assms(2), of c l] assms(4)
      by (auto simp: cond_broadcast_def)
  next
    case Thread_yield
    then show ?thesis using thread_yield_switched [OF k(1) u k(2)] yield_lock_inv [OF assms(2) u] assms(4) by auto
  next
    case (Thread_set_priority p)
    let ?k = "push_frame (F_intr_set_level (intr k)) (upd_thread (running k) (\<lambda>th. th\<lparr>original_priority := p\<rparr>)
      (upd_thread (running k) (\<lambda>th. th\<lparr>priority := p\<rparr>) (k\<lparr>intr := INTR_OFF\<rparr>)))"
    have "sched_inv True (push_frame (F_intr_set_level (intr k)) k)"
      using k u by (intro push_frame_inv) simp_all
    from sched_inv_cong [OF this] have "sched_inv True ?k" by simp
    moreover have "check_priority ?k = Some k'"
      using Thread_set_priority assms(4) thread_current_active [OF k(1)]
      by (simp add: thread_set_priority_def intr_disable_def intr_get_level_def Let_def)
    moreover have "lock_inv L (push_frame (F_intr_set_level (intr k)) k)" by (rule push_lock_inv [OF assms(2) u]) simp
    then have "lock_inv L ?k" by (rule lock_inv_same) simp_all
    ultimately show ?thesis using check_priority_ok [of ?k] yield_lock_inv [of L ?k k'] k(2) u by (auto split: if_splits)
  next
    case (Timer_sleep n)
    then have on: "intr k = INTR_ON" using assms(4) timer_sleep_eq [OF k(1,2), of n] by (auto split: if_splits)
    have "lock_inv L (push_frame (F_intr_set_level (intr k)) k)" by (rule push_lock_inv [OF assms(2) u]) simp
    then have "lock_inv L (going_to_sleep n k)" by (rule lock_inv_same) simp_all
    then have "lock_inv L (waiting (Sema_p (running k)) INTR_OFF (going_to_sleep n k))"
      using u by (intro waiting_lock_inv) simp_all
    then show ?thesis
      using Timer_sleep on assms(4) timer_sleep_ok [OF k(1) u k(2) idle, of n] switched_lock_inv by auto
  qed
qed

lemma run_frame_lock_inv:
  assumes "kernel_ok k" "lock_inv L k" "kstack k (running k) = fr # r" "run_frame fr (pop_frame k) = Some k'"
  shows "lock_inv L k'"
proof -
  let ?k = "pop_frame k"
  note k = running_facts [OF assms(1,3)]
  note pl = pop_plain_lock_inv [OF assms(2) k(1) assms(3)]
  show ?thesis
  proof (cases fr)
    case (F_intr_set_level l)
    then obtain l' where "k' = ?k\<lparr>intr := l'\<rparr>"
      using assms(4) by (auto simp: intr_set_level_def intr_enable_def intr_disable_def split: if_splits)
    then show ?thesis using F_intr_set_level lock_inv_same [OF pl, of k'] by simp
  next
    case (F_sema_down s lev)
    have off: "intr ?k = INTR_OFF" using assms(1,3) F_sema_down by (simp add: kernel_ok_def unguarded_def)
    have own: "running ?k \<noteq> idle_thread ?k" "own_sema s (running ?k)" using k(6) F_sema_down by auto
    have run: "sema_down_loop s lev ?k = Some k'" using assms(4) F_sema_down by simp
    have ur: "\<forall>fr \<in> set r. \<not> is_sema_down fr" using k(4) assms(3) by (simp add: unguarded_def)
    show ?thesis
    proof (cases "lock_sema s")
      case True
      then obtain l where l: "s = Lock_sema l" by blast
      then obtain r' where r': "r = F_lock_acquired l # r'"
        using assms(2,3) F_sema_down unfolding lock_inv_def lock_stack_ok_def by blast
      have "lock_inv L (push_frame (F_sema_down (Lock_sema l) lev) ?k)"
        using assms(3) F_sema_down l by (intro lock_inv_same [OF assms(2)]) (auto simp: fun_eq_iff)
      then show ?thesis
        using take_lock [OF k(3-5) off own(1), of l L lev k'] run l r' assms(3) by (simp add: at_lock_def)
    next
      case False
      then have "lock_inv L ?k"
        using assms(3) F_sema_down ur by (intro restack_lock_inv [OF assms(2), of _ r])
          (auto simp: pend_unguarded lock_stack_unguarded)
      then show ?thesis using sema_down_loop_lock_inv [OF k(3-5) off own _ False run] by blast
    qed
  next
    case (F_lock_acquired l)
    then show ?thesis using lock_acquired_lock_inv [OF assms(2) k(1)] assms(3,4) by simp
  next
    case (F_call_sema_down s)
    then show ?thesis using sema_down_lock_inv [OF k(3-5) _ _ pl, of s k'] assms(4) k(6) by auto
  next
    case (F_call_lock_acquire l)
    then show ?thesis using lock_acquire_lock_inv [OF k(3,4) _ pl, of l k'] assms(4) k(6) by auto
  next
    case (F_cond_broadcast c l)
    then show ?thesis using cond_broadcast_lock_inv [OF k(3,4) _ pl, of c l k'] assms(4) k(6) by auto
  next
    case F_iret
    then show ?thesis using assms(4) lock_inv_same [OF pl, of k'] by auto
  next
    case F_idle
    let ?k1 = "push_frame F_idle_hlt (?k\<lparr>intr := INTR_OFF\<rparr>)"
    have "sched_inv True (push_frame F_idle_hlt ?k)" using k(3,4) by (intro push_frame_inv) simp_all
    from sched_inv_cong [OF this] have "sched_inv True ?k1" by simp
    then have "switched (set_status (running ?k1) THREAD_BLOCKED ?k1) k'"
      using F_idle assms(4) k(4,5) thread_block_ok [of ?k1] by (auto simp: idle_block_def intr_disable_def)
    moreover have "lock_inv L (push_frame F_idle_hlt ?k)" using F_idle pl k(4) by (intro push_lock_inv) simp_all
    then have "lock_inv L (set_status (running ?k1) THREAD_BLOCKED ?k1)"
      by (rule lock_inv_same) (simp_all add: set_status_def)
    ultimately show ?thesis using switched_lock_inv by blast
  next
    case F_idle_hlt
    have "lock_inv L (push_frame F_idle ?k)" using F_idle_hlt pl k(4) by (intro push_lock_inv) simp_all
    from lock_inv_same [OF this, of k'] show ?thesis using F_idle_hlt assms(4) by (auto simp: idle_hlt_def)
  next
    case F_body
    then show ?thesis using assms(4) by simp
  qed
qed

lemma timer_lock_inv:
  assumes "kernel_inv k" "lock_inv L k" "intr k = INTR_ON" "intr_handler timer_interrupt k = Some k'"
  shows "lock_inv L k'"
proof -
  obtain k1 where k1: "sched_inv True k1" "woken_sleepers (i64 (ticks k + 1)) (interrupted k) k1"
    "k' = k1\<lparr>in_external_intr := False\<rparr> \<or> switched (yielding (k1\<lparr>in_external_intr := False\<rparr>)) k'"
    using intr_handler_ok [OF assms(1,3)] assms(4) by auto
  have u: "unguarded k" using assms(1,3) by (simp add: kernel_inv_def kernel_ok_def)
  have w: "holder k1 = holder k" "kstack k1 = kstack (interrupted k)" "running k1 = running k"
    "semas k1 (Lock_sema l) = semas k (Lock_sema l)" for l
    using k1(2) by (simp_all add: woken_sleepers_def)
  have "lock_inv L (push_frame F_iret k)" by (rule push_lock_inv [OF assms(2) u]) simp
  then have "lock_inv L (k1\<lparr>in_external_intr := False\<rparr>)" by (rule lock_inv_same) (simp_all add: w)
  moreover have "unguarded (k1\<lparr>in_external_intr := False\<rparr>)" using u by (simp add: unguarded_def w)
  ultimately show ?thesis using k1(3) yield_lock_inv by blast
qed

lemma lock_inv_kstep:
  assumes "kstep k k'" "kernel_inv k" "lock_inv L k"
  shows "lock_inv L k'"
  using assms
proof cases
  case (call r c)
  then show ?thesis using run_call_lock_inv assms(2,3) unfolding kernel_inv_def by blast
next
  case (frame fr r)
  then show ?thesis using run_frame_lock_inv assms(2,3) unfolding kernel_inv_def by blast
next
  case timer
  then show ?thesis using timer_lock_inv assms(2,3) by blast
qed

lemma lock_inv_reachable:
  assumes "reachable k0 k" "kernel_inv k0" "lock_inv L k0"
  shows "lock_inv L k"
  using assms unfolding reachable_def
proof (induction rule: rtranclp_induct)
  case (step k k')
  then show ?case using lock_inv_kstep kernel_inv_reachable unfolding reachable_def by blast
qed

end
