(* ===== verification/KernelProps.thy ===== *)
theory KernelProps
  imports Mutex
begin

text \<open>
  The properties of the scheduler, the synchronisation primitives and the timer, with
  sample states for their witnesses.
\<close>

section \<open>Sample states\<close>

definition mk_thread :: "thread_status \<Rightarrow> int \<Rightarrow> thread" where
  "mk_thread st p =
     \<lparr>tid = 1, status = st, name = replicate 16 0, stack = 0, priority = p, original_priority = p, donor = [],
      try_lock = 0, fd = INIT_FD, load_status = NOT_LOADED, file_name = 0, parent = NO_PARENT, child_proc = 0,
      child_list = [], file_list = [], executable = 0, pagedir = 0, magic = THREAD_MAGIC, timeChecker = 0, cur_dir = 0\<rparr>"

definition no_thread :: thread where
  "no_thread = mk_thread THREAD_BLOCKED 0\<lparr>magic := 0\<rparr>"

definition mk_kernel :: "(nat \<Rightarrow> thread) \<Rightarrow> (sema_addr \<Rightarrow> semaphore) \<Rightarrow> (nat \<Rightarrow> nat) \<Rightarrow> (nat \<Rightarrow> frame list) \<Rightarrow> nat list \<Rightarrow> kernel" where
  "mk_kernel ts sm h ks rl =
     \<lparr>threads = ts, semas = sm, holder = h, cond_waiters = \<lambda>_. [], kstack = ks, running = 6, ready_list = rl,
      all_list = [6, 2, 3, 4, 5], sleep_list = [], idle_thread = 2, initial_thread = 6, thread_ticks = 0, idle_ticks = 0,
      kernel_ticks = 0, user_ticks = 0, ticks = 0, next_tid = 7, intr = INTR_ON, in_external_intr = False,
      yield_on_return = False, cr3 = 0, esp0 = 0\<rparr>"

text \<open>
  Thread 6 holds lock 7 and runs at priority 63, which thread 5, waiting for the lock, has
  donated to it; thread 2 is the idle thread, and threads 3 and 4 are ready at priorities
  63 and 10.
\<close>

definition sample :: kernel where
  "sample = mk_kernel
     ((\<lambda>_. no_thread)(6 := mk_thread THREAD_RUNNING 31\<lparr>priority := 63, donor := [5]\<rparr>, 2 := mk_thread THREAD_BLOCKED 0,
        3 := mk_thread THREAD_READY 63, 4 := mk_thread THREAD_READY 10, 5 := mk_thread THREAD_BLOCKED 63\<lparr>try_lock := 7\<rparr>))
     ((\<lambda>_. \<lparr>sema_value = 0, waiters = []\<rparr>)(Lock_sema 7 := \<lparr>sema_value = 0, waiters = [5]\<rparr>))
     ((\<lambda>_. 0)(7 := 6))
     ((\<lambda>_. [F_body])(2 := [F_idle_hlt], 5 := [F_sema_down (Lock_sema 7) INTR_ON, F_lock_acquired 7, F_body]))
     [3, 4]"

lemmas sample_defs = sample_def mk_kernel_def mk_thread_def no_thread_def

lemma sample_sched: "sched_inv True sample"
  unfolding sched_inv_def
  by (auto simp: sample_defs is_thread_def stack_ok_def THREAD_MAGIC_def split: if_splits)

lemma sample_ok: "kernel_inv sample" "lock_inv {7} sample" "unguarded sample"
proof -
  show u: "unguarded sample" by (simp add: unguarded_def sample_defs)
  have "sleep_inv sample" by (auto simp: sleep_inv_def sample_defs)
  then show "kernel_inv sample"
    using sample_sched u by (simp add: kernel_inv_def kernel_ok_def) (simp add: sample_defs)
  show "lock_inv {7} sample"
    by (auto simp: lock_inv_def lock_held_def lock_stack_ok_def sample_defs split: if_splits)
qed

section \<open>The scheduler\<close>

text \<open>
  C3: in every reachable state exactly one thread has the running status; the ready list
  holds each ready thread once, the idle thread apart; the list of a semaphore holds
  exactly the threads blocked in \<open>sema_down\<close> on it; so a thread is in at most one of
  these lists, which is what lets them share the \<open>elem\<close> member of the thread.
\<close>

theorem scheduler_invariant:
  assumes "reachable k0 k" "kernel_inv k0"
  shows "(\<forall>t. is_thread k t \<longrightarrow> (status (threads k t) = THREAD_RUNNING \<longleftrightarrow> t = running k)) \<and>
    (\<forall>t. t \<in> set (ready_list k) \<longleftrightarrow> is_thread k t \<and> status (threads k t) = THREAD_READY \<and> t \<noteq> idle_thread k) \<and>
    (\<forall>s t. t \<in> set (waiters (semas k s)) \<longleftrightarrow>
       is_thread k t \<and> status (threads k t) = THREAD_BLOCKED \<and> (\<exists>l r. kstack k t = F_sema_down s l # r)) \<and>
    distinct (ready_list k) \<and> (\<forall>s. distinct (waiters (semas k s)) \<and> set (waiters (semas k s)) \<inter> set (ready_list k) = {}) \<and>
    (\<forall>s s'. s \<noteq> s' \<longrightarrow> set (waiters (semas k s)) \<inter> set (waiters (semas k s')) = {})"
proof -
  have inv: "sched_inv True k"
    using kernel_inv_reachable [OF assms] by (simp add: kernel_inv_def kernel_ok_def)
  note D = sched_invD [OF inv]
  have "t \<notin> set (ready_list k)" if "t \<in> set (waiters (semas k s))" for s t
    using D(6) [of t] D(8) [of t s] that by simp
  then have "\<forall>s. set (waiters (semas k s)) \<inter> set (ready_list k) = {}" by blast
  moreover have "s = s'" if "t \<in> set (waiters (semas k s))" "t \<in> set (waiters (semas k s'))" for s s' t
    using D(8) [of t s] D(8) [of t s'] that by (auto simp: waits_at_iff)
  then have "\<forall>s s'. s \<noteq> s' \<longrightarrow> set (waiters (semas k s)) \<inter> set (waiters (semas k s')) = {}" by blast
  ultimately show ?thesis using D(4,5,6,7) D(8) [unfolded waits_at_iff] by (intro conjI allI impI) simp_all
qed


text \<open>
  The thread that \<open>schedule\<close> selects runs with its own page directory, and its
  kernel stack is the one the processor switches to on the next interrupt from user mode;
  the time slice starts anew.
\<close>

theorem schedule_activates:
  assumes "sched_inv False k" "intr k = INTR_OFF"
  shows "\<exists>k'. schedule k = Some k' \<and> thread_current k' = Some (running k') \<and>
     running k' = (if ready_list k = [] then idle_thread k else hd (ready_list k)) \<and>
     cr3 k' = pagedir (threads k' (running k')) \<and> esp0 k' = running k' + PGSIZE \<and> thread_ticks k' = 0"
proof -
  obtain k' where k': "schedule k = Some k'" "switched k k'" "sched_inv True k'"
    using schedule_inv [OF assms] by blast
  have "pagedir (threads k' t) = pagedir (threads k t)" for t using k'(2) by (simp add: switched_def)
  then show ?thesis
    using k' thread_current_active [OF k'(3)] switchedD(1,13,14,15) [OF k'(2)] by (auto simp: next_thread_def)
qed

section \<open>Semaphores\<close>


section \<open>Locks\<close>


text \<open>Thread \<open>t\<close> has lock \<open>l\<close>: it is recorded as the holder, or is about to be.\<close>

definition owns :: "kernel \<Rightarrow> nat \<Rightarrow> nat \<Rightarrow> bool" where
  "owns k l t \<longleftrightarrow> t \<noteq> NULL \<and> holder k l = t \<or> pend l (kstack k t) > 0"


text \<open>
  C18: a thread that has to wait for a lock gives up the processor to the thread at the head
  of the ready list as it was before the call: donating does not move the holder, although
  its priority may now be the highest.
\<close>

theorem donation_keeps_ready_order:
  assumes "kernel_ok k" "unguarded k" "running k \<noteq> idle_thread k" "l \<noteq> NULL" "holder k l \<noteq> running k"
    "finite (range (holder k))" "sema_value (semas k (Lock_sema l)) = 0"
  shows "\<exists>k'. lock_acquire l k = Some k' \<and> running k' = next_thread k \<and> ready_list k' = tl (ready_list k) \<and>
    (holder k l \<noteq> NULL \<longrightarrow> priority (threads k (running k)) \<le> priority (threads k' (holder k l)))"
proof -
  have k: "sched_inv True k" "\<not> in_external_intr k" using assms(1) by (simp_all add: kernel_ok_def)
  obtain k1 where k1: "donating l k k1" "lock_acquire l k = sema_down (Lock_sema l) (push_frame (F_lock_acquired l) k1)"
    using lock_acquire_total [OF k(1) assms(2) k(2) assms(3-6)] by blast
  let ?k = "push_frame (F_lock_acquired l) k1"
  note f = donating_fields [OF k1(1)]
  have u: "unguarded k1" using assms(2) by (simp add: unguarded_def f)
  have "sched_inv True ?k"
    using u assms(3) by (intro push_frame_inv donating_inv [OF k(1) k1(1)]) (simp_all add: f)
  then obtain k' where k': "sema_down (Lock_sema l) ?k = Some k'" "switched (waiting (Lock_sema l) (intr ?k) ?k) k'"
    using sema_down_ok [of ?k "Lock_sema l"] u k(2) assms(3,7) by (auto simp: f)
  have "priority (threads k (running k)) \<le> priority (threads k' (holder k l))" if h: "holder k l \<noteq> NULL"
  proof -
    let ?k0 = "upd_thread (running k) (\<lambda>th. th\<lparr>try_lock := l\<rparr>) k"
    obtain k2 where k2: "donation_loop (running k) l ?k0 = Some k2"
      "k1 = upd_thread (holder k l) (\<lambda>th. th\<lparr>donor := insert_ordered (by_donor k2) (running k) (donor th)\<rparr>) k2"
      using k1(1) h by (auto simp: donating_def)
    have "priority (threads k (running k)) \<le> priority (threads k2 (holder k l))"
      using donation_first [OF k2(1)] assms(4) h by simp
    then show ?thesis using switchedD(16) [OF k'(2)] k2(2) by (auto simp: waiting_def set_status_def)
  qed
  moreover have "running k' = next_thread k" "ready_list k' = tl (ready_list k)"
    using switchedD(1,2) [OF k'(2)] by (simp_all add: waiting_def set_status_def next_thread_def f)
  ultimately show ?thesis using k1(2) k'(1) by auto
qed


section \<open>The timer\<close>

text \<open>
  C17: the timer interrupt never panics.  It advances the clock by one tick and removes from
  the sleep list exactly the threads whose wake-up time has come; each of them is ready
  afterwards, or runs; a thread whose time has not come stays blocked in the list.
\<close>

theorem timer_tick_wakes_due_sleepers:
  assumes "kernel_inv k" "intr k = INTR_ON" "now = i64 (ticks k + 1)"
  shows "\<exists>k'. intr_handler timer_interrupt k = Some k' \<and> kernel_inv k' \<and>
    sleep_list k' = filter (\<lambda>t. now < timeChecker (threads k t)) (sleep_list k) \<and>
    (\<forall>t \<in> set (sleep_list k). if timeChecker (threads k t) \<le> now
       then status (threads k' t) \<in> {THREAD_READY, THREAD_RUNNING} else status (threads k' t) = THREAD_BLOCKED)"
proof -
  obtain k1 k' where k': "intr_handler timer_interrupt k = Some k'" "kernel_inv k'" "sched_inv True k1"
    "woken_sleepers now (interrupted k) k1"
    "k' = k1\<lparr>in_external_intr := False\<rparr> \<or> switched (yielding (k1\<lparr>in_external_intr := False\<rparr>)) k'"
    using intr_handler_ok [OF assms(1,2)] assms(3) by blast
  let ?k2 = "k1\<lparr>in_external_intr := False\<rparr>"
  have w: "sleep_list k1 = filter (\<lambda>t. now < timeChecker (threads k t)) (sleep_list k)"
    "status (threads k1 t) = (if t \<in> set (sleep_list k) \<and> timeChecker (threads k t) \<le> now then THREAD_READY
       else status (threads k t))" "running k1 = running k" for t
    using k'(4) by (simp_all add: woken_sleepers_def)
  have sl: "sleep_list k' = sleep_list k1"
    using k'(5) switchedD(8) [of "yielding ?k2" k'] by (auto simp: yielding_def set_status_def)
  have blocked: "status (threads q t) = THREAD_BLOCKED \<and> t \<noteq> running q" if "kernel_inv q" "t \<in> set (sleep_list q)" for q t
    using that sleep_invD(3) [of q t] sched_invD(8) [of True q t "Sema_p t"] sched_invD(1) [of True q]
      sched_invD(4) [of True q "running q"]
    by (auto simp: kernel_inv_def kernel_ok_def)
  have "status (threads k' t) \<in> {THREAD_READY, THREAD_RUNNING}"
    if "t \<in> set (sleep_list k)" "timeChecker (threads k t) \<le> now" for t
    using k'(5)
  proof
    assume sw: "switched (yielding ?k2) k'"
    have "status (threads k' t) = (if t = next_thread (yielding ?k2) then THREAD_RUNNING else status (threads (yielding ?k2) t))"
      using sw by (simp add: switched_def)
    moreover have "status (threads (yielding ?k2) t) = THREAD_READY"
      using that w by (simp add: yielding_def set_status_def)
    ultimately show ?thesis by auto
  qed (use w that in simp)
  then show ?thesis
    using k'(1,2) sl w(1) blocked [OF k'(2)] by (intro exI [of _ k']) auto
qed

section \<open>Witnesses\<close>

lemma sample_kernel_ok: "kernel_ok sample"
  using sample_ok(1) by (simp add: kernel_inv_def)

lemma sample_step: "\<exists>k. kstep sample k"
proof -
  have "running sample = 6" "kstack sample (running sample) = F_body # []" "\<not> in_external_intr sample"
    by (simp_all add: sample_defs)
  then show ?thesis
    using thread_yield_switched [OF sample_sched sample_ok(3)] kstep.call [of sample "[]" Thread_yield] by fastforce
qed

theorem scheduler_invariant_witness:
  "\<exists>k. kstep sample k \<and> distinct (ready_list k) \<and> (\<forall>s. set (waiters (semas k s)) \<inter> set (ready_list k) = {})"
proof -
  obtain k where k: "kstep sample k" using sample_step by blast
  then have "reachable sample k" by (simp add: reachable_def)
  note inv = scheduler_invariant [OF this sample_ok(1)]
  note tail = inv [THEN conjunct2, THEN conjunct2, THEN conjunct2]
  have "distinct (ready_list k)" by (rule tail [THEN conjunct1])
  moreover have "\<forall>s. distinct (waiters (semas k s)) \<and> set (waiters (semas k s)) \<inter> set (ready_list k) = {}"
    by (rule tail [THEN conjunct2, THEN conjunct1])
  ultimately show ?thesis using k by auto
qed


theorem schedule_activates_witness:
  "\<exists>k'. schedule (yielding sample) = Some k' \<and> thread_current k' = Some (running k') \<and> esp0 k' = running k' + PGSIZE"
proof -
  have "sched_inv False (yielding sample)" by (rule yielding_inv [OF sample_sched sample_ok(3)])
  moreover have "intr (yielding sample) = INTR_OFF" by (simp add: yielding_def set_status_def)
  ultimately show ?thesis using schedule_activates by blast
qed


lemma sample_holders: "finite (range (holder sample))"
  by (rule finite_subset [of _ "{0, 6}"]) (auto simp: sample_defs)



text \<open>
  Thread 6 at priority 63 asks for lock 7, which thread 4 holds.  Thread 4 is ready, at
  priority 10, behind thread 3 at priority 31.
\<close>

definition inversion :: kernel where
  "inversion = mk_kernel
     ((\<lambda>_. no_thread)(6 := mk_thread THREAD_RUNNING 63, 2 := mk_thread THREAD_BLOCKED 0,
        3 := mk_thread THREAD_READY 31, 4 := mk_thread THREAD_READY 10))
     (\<lambda>_. \<lparr>sema_value = 0, waiters = []\<rparr>) ((\<lambda>_. 0)(7 := 4)) ((\<lambda>_. [F_body])(2 := [F_idle_hlt])) [3, 4]"

lemma inversion_ok: "kernel_ok inversion" "unguarded inversion" "finite (range (holder inversion))"
proof -
  show u: "unguarded inversion" by (simp add: unguarded_def inversion_def mk_kernel_def)
  have "sched_inv True inversion"
    unfolding sched_inv_def
    by (auto simp: inversion_def sample_defs is_thread_def stack_ok_def THREAD_MAGIC_def split: if_splits)
  then show "kernel_ok inversion" using u by (simp add: kernel_ok_def) (simp add: inversion_def mk_kernel_def)
  show "finite (range (holder inversion))"
    by (rule finite_subset [of _ "{0, 4}"]) (auto simp: inversion_def mk_kernel_def)
qed

theorem donation_keeps_ready_order_witness:
  "\<exists>k'. lock_acquire 7 inversion = Some k' \<and> running k' = 3 \<and> ready_list k' = [4] \<and>
     priority (threads inversion 3) < priority (threads k' 4)"
proof -
  have f: "running inversion = 6" "idle_thread inversion = 2" "holder inversion 7 = 4"
    "sema_value (semas inversion (Lock_sema 7)) = 0" "ready_list inversion = [3, 4]"
    "priority (threads inversion 6) = 63" "priority (threads inversion 3) = 31"
    by (simp_all add: inversion_def mk_kernel_def mk_thread_def)
  show ?thesis
    using donation_keeps_ready_order [OF inversion_ok(1,2) _ _ _ inversion_ok(3), of 7]
    by (auto simp: f next_thread_def)
qed

text \<open>
  Thread 3 waits on condition variable 9.  Thread 6, holding lock 7, calls \<open>cond_wait\<close> on
  it; the release of the lock switches to thread 5, which acquires the lock and signals.
\<close>

definition monitor :: kernel where
  "monitor = mk_kernel
     ((\<lambda>_. no_thread)(6 := mk_thread THREAD_RUNNING 31\<lparr>priority := 63, donor := [5]\<rparr>, 2 := mk_thread THREAD_BLOCKED 0,
        3 := mk_thread THREAD_BLOCKED 20, 5 := mk_thread THREAD_BLOCKED 63\<lparr>try_lock := 7\<rparr>))
     ((\<lambda>_. \<lparr>sema_value = 0, waiters = []\<rparr>)(Lock_sema 7 := \<lparr>sema_value = 0, waiters = [5]\<rparr>,
        Waiter_sema 3 := \<lparr>sema_value = 0, waiters = [3]\<rparr>))
     ((\<lambda>_. 0)(7 := 6))
     ((\<lambda>_. [F_body])(2 := [F_idle_hlt], 5 := [F_sema_down (Lock_sema 7) INTR_ON, F_lock_acquired 7, F_body],
        3 := [F_sema_down (Waiter_sema 3) INTR_ON, F_call_lock_acquire 7, F_body]))
     [] \<lparr>cond_waiters := (\<lambda>_. [])(9 := [3])\<rparr>"

lemma monitor_ok: "sched_inv True monitor" "unguarded monitor"
proof -
  show "unguarded monitor" by (simp add: unguarded_def monitor_def mk_kernel_def)
  show "sched_inv True monitor"
    unfolding sched_inv_def
    by (auto simp: monitor_def sample_defs is_thread_def stack_ok_def THREAD_MAGIC_def split: if_splits)
qed


text \<open>Thread 3 sleeps until tick 1 and thread 4 until tick 9.\<close>

definition sleepers :: kernel where
  "sleepers = mk_kernel
     ((\<lambda>_. no_thread)(6 := mk_thread THREAD_RUNNING 31, 2 := mk_thread THREAD_BLOCKED 0,
        3 := mk_thread THREAD_BLOCKED 31\<lparr>timeChecker := 1\<rparr>, 4 := mk_thread THREAD_BLOCKED 31\<lparr>timeChecker := 9\<rparr>))
     ((\<lambda>_. \<lparr>sema_value = 0, waiters = []\<rparr>)(Sema_p 3 := \<lparr>sema_value = 0, waiters = [3]\<rparr>,
        Sema_p 4 := \<lparr>sema_value = 0, waiters = [4]\<rparr>))
     (\<lambda>_. 0)
     ((\<lambda>_. [F_body])(2 := [F_idle_hlt], 3 := [F_sema_down (Sema_p 3) INTR_OFF, F_intr_set_level INTR_ON, F_body],
        4 := [F_sema_down (Sema_p 4) INTR_OFF, F_intr_set_level INTR_ON, F_body]))
     [] \<lparr>sleep_list := [3, 4]\<rparr>"

lemma sleepers_ok: "kernel_inv sleepers"
proof -
  have "sched_inv True sleepers"
    unfolding sched_inv_def
    by (auto simp: sleepers_def sample_defs is_thread_def stack_ok_def THREAD_MAGIC_def split: if_splits)
  moreover have "sleep_inv sleepers"
    by (auto simp: sleep_inv_def compare_timer_def sleepers_def sample_defs split: if_splits)
  moreover have "unguarded sleepers" "\<not> in_external_intr sleepers"
    by (simp_all add: unguarded_def sleepers_def mk_kernel_def)
  ultimately show ?thesis by (simp add: kernel_inv_def kernel_ok_def)
qed

theorem timer_tick_wakes_due_sleepers_witness:
  "\<exists>k'. intr_handler timer_interrupt sleepers = Some k' \<and> sleep_list k' = [4] \<and>
     status (threads k' 3) \<in> {THREAD_READY, THREAD_RUNNING} \<and> status (threads k' 4) = THREAD_BLOCKED"
proof -
  have f: "intr sleepers = INTR_ON" "1 = i64 (ticks sleepers + 1)" "sleep_list sleepers = [3, 4]"
    "timeChecker (threads sleepers 3) = 1" "timeChecker (threads sleepers 4) = 9"
    by (simp_all add: sleepers_def mk_kernel_def mk_thread_def i64_def)
  show ?thesis using timer_tick_wakes_due_sleepers [OF sleepers_ok f(1,2)] by (auto simp: f(3-5))
qed

end
