(* ===== verification/Bytes.thy ===== *)
theory Bytes
  imports Prelude "HOL-Library.Signed_Division"
begin

text \<open>
  Memory as bytes: the little-endian layout of 32-bit words on the target, arrays of words,
  the overwriting of a part of a buffer, and the arithmetic of the signed C types, whose
  division truncates.
\<close>

section \<open>Signed arithmetic\<close>

definition i32 :: "int \<Rightarrow> int" where
  "i32 x = (x + 2 ^ 31) mod 2 ^ 32 - 2 ^ 31"

lemma i32_id [simp]: "\<lbrakk>- (2 ^ 31) \<le> x; x < 2 ^ 31\<rbrakk> \<Longrightarrow> i32 x = x"
  by (simp add: i32_def)

lemma sdiv_nonneg [simp]: "\<lbrakk>0 \<le> x; 0 < y\<rbrakk> \<Longrightarrow> x sdiv y = x div (y::int)"
  by (cases "x = 0") (simp_all add: signed_divide_int_def)

lemma smod_nonneg [simp]: "\<lbrakk>0 \<le> x; 0 < y\<rbrakk> \<Longrightarrow> x smod y = x mod (y::int)"
  by (cases "x = 0") (simp_all add: signed_modulo_int_def minus_div_mult_eq_mod)

text \<open>An array read at a signed index.\<close>

definition array_iget :: "'a list \<Rightarrow> int \<Rightarrow> 'a option" where
  "array_iget xs i = (if 0 \<le> i then array_get xs (nat i) else None)"

lemma array_iget_int [simp]: "array_iget xs (int i) = array_get xs i"
  by (simp add: array_iget_def)

section \<open>Words in memory\<close>

definition le32 :: "u32 \<Rightarrow> u8 list" where
  "le32 w = [ucast w, ucast (drop_bit 8 w), ucast (drop_bit 16 w), ucast (drop_bit 24 w)]"

definition un32 :: "u8 \<Rightarrow> u8 \<Rightarrow> u8 \<Rightarrow> u8 \<Rightarrow> u32" where
  "un32 a b c d = ucast a OR push_bit 8 (ucast b) OR push_bit 16 (ucast c) OR push_bit 24 (ucast d)"

lemma length_le32 [simp]: "length (le32 w) = 4"
  by (simp add: le32_def)

lemma un32_le32 [codec]:
  "un32 (ucast w) (ucast (drop_bit 8 w)) (ucast (drop_bit 16 w)) (ucast (drop_bit 24 w)) = w"
proof (rule bit_word_eqI)
  fix n assume "n < LENGTH(32)"
  then consider "n < 8" | "8 \<le> n" "n < 16" | "16 \<le> n" "n < 24" | "24 \<le> n" "n < 32"
    by fastforce
  then show "bit (un32 (ucast w) (ucast (drop_bit 8 w)) (ucast (drop_bit 16 w))
      (ucast (drop_bit 24 w))) n \<longleftrightarrow> bit w n"
    by cases (simp_all add: un32_def bit_or_iff bit_push_bit_iff bit_ucast_iff bit_drop_bit_eq
        less_diff_conv2)
qed

lemma bit_u8_high [simp]: "8 \<le> n \<Longrightarrow> \<not> bit (a::u8) n"
  by (auto dest: bit_imp_le_length)

lemma le32_un32 [codec]: "le32 (un32 a b c d) = [a, b, c, d]"
  unfolding un32_def le32_def
  by (auto intro!: bit_word_eqI
      simp: bit_or_iff bit_push_bit_iff bit_ucast_iff bit_drop_bit_eq)

definition bytes_of :: "u32 list \<Rightarrow> u8 list" where
  "bytes_of ws = concat (map le32 ws)"

fun words_of :: "u8 list \<Rightarrow> u32 list" where
  "words_of (a # b # c # d # bs) = un32 a b c d # words_of bs"
| "words_of bs = []"

lemma bytes_of_simps [simp]:
  "bytes_of [] = []" "bytes_of (w # ws) = le32 w @ bytes_of ws"
  "bytes_of (us @ vs) = bytes_of us @ bytes_of vs"
  by (simp_all add: bytes_of_def)

lemma length_bytes_of [simp]: "length (bytes_of ws) = 4 * length ws"
  by (induction ws) auto

lemma words_of_le32 [simp]: "words_of (le32 w @ bs) = w # words_of bs"
  by (simp add: le32_def un32_le32)

lemma words_of_bytes_of [simp, codec]: "words_of (bytes_of ws) = ws"
  by (induction ws) auto

lemma words_of_append [simp]: "words_of (bytes_of ws @ bs) = ws @ words_of bs"
  by (induction ws) auto

lemma length_words_of [simp]: "length (words_of bs) = length bs div 4"
  by (induction bs rule: words_of.induct) auto

lemma bytes_of_words_of [codec]: "4 dvd length bs \<Longrightarrow> bytes_of (words_of bs) = bs"
proof (induction bs rule: words_of.induct)
  case (1 a b c d bs)
  then have "4 dvd length bs" by (simp add: dvd_def) presburger
  with 1 show ?case by (simp add: le32_un32)
qed (simp_all add: dvd_def, presburger+)

section \<open>Overwriting part of a buffer\<close>

definition put :: "'a list \<Rightarrow> nat \<Rightarrow> 'a list \<Rightarrow> 'a list" where
  "put xs i ys = take i xs @ ys @ drop (i + length ys) xs"

lemma length_put [simp]: "i + length ys \<le> length xs \<Longrightarrow> length (put xs i ys) = length xs"
  by (simp add: put_def)

lemma nth_put:
  "\<lbrakk>i + length ys \<le> length xs; k < length xs\<rbrakk> \<Longrightarrow>
   put xs i ys ! k = (if i \<le> k \<and> k < i + length ys then ys ! (k - i) else xs ! k)"
  by (auto simp: put_def nth_append)

lemma put_empty [simp]: "put xs i [] = xs"
  by (simp add: put_def)

lemma put_all: "length ys = length xs \<Longrightarrow> put xs 0 ys = ys"
  by (simp add: put_def)

lemma put_put:
  "i + length ys + length zs \<le> length xs \<Longrightarrow> put (put xs i ys) (i + length ys) zs = put xs i (ys @ zs)"
  by (rule nth_equalityI) (auto simp: nth_put nth_append)

lemma take_drop_put [simp]: "i + length ys \<le> length xs \<Longrightarrow> take (length ys) (drop i (put xs i ys)) = ys"
  by (simp add: put_def)

end
