(* ===== verification/Inode.thy ===== *)
theory Inode
  imports Bitmap Bytes
begin

text \<open>
  \<open>filesys/inode.c\<close>, \<open>filesys/free-map.c\<close> and \<open>filesys/file.c\<close>: inodes with direct, indirect
  and doubly indirect sectors, the map of free sectors, which is itself kept in a file, and
  open files.

  The disk is a sequence of sectors of 512 bytes; index blocks and inodes are stored in
  the layout the C structures have in memory.  A call that growing a file makes allocates
  sectors, allocating a sector writes the free map to its file, and that write is again a
  write to an inode.  The operations therefore take the writing of the free map as an
  argument \<open>w\<close>, and \<open>bitmap_write\<close> at the end of the model ties the knot with a bound on the
  depth of the nesting.
\<close>

section \<open>Constants and data\<close>

definition BLOCK_SECTOR_SIZE :: int where [simp]: "BLOCK_SECTOR_SIZE = 512"
definition INODE_MAGIC :: u32 where "INODE_MAGIC = 0x494e4f44"
definition INDEX_BLOCK_SIZE :: nat where [simp]: "INDEX_BLOCK_SIZE = 128"
definition DIRECT_BLOCK_SIZE :: nat where [simp]: "DIRECT_BLOCK_SIZE = 12"
definition FIRST_LEV_INDEX :: nat where [simp]: "FIRST_LEV_INDEX = 10"
definition SECOND_LEV_INDEX :: nat where [simp]: "SECOND_LEV_INDEX = 11"
definition ERROR :: int where [simp]: "ERROR = - 1"

record inode_disk =
  flength :: int
  magic :: u32
  unused :: "u32 list"
  ptr :: "u32 list"
  parent :: u32
  direct_level_index :: nat
  first_level_index :: nat
  second_level_index :: nat
  sub_dir :: bool

text \<open>
  The structure in memory.  The lock is the flag that the running thread holds it; the
  unused member \<open>length\<close> and the list link have no counterpart.
\<close>

record inode =
  open_cnt :: int
  deny_write_cnt :: int
  removed :: bool
  sector :: u32
  data :: inode_disk
  ilock :: bool

record open_file =
  finode :: nat
  pos :: int
  deny_write :: bool

text \<open>
  The state of the file system.  \<open>dev\<close> and \<open>dev_size\<close> are the content and the number of
  sectors of \<open>fs_device\<close>.  \<open>inodes\<close> and \<open>files\<close> are the structures at the addresses of the
  heap, address 0 being the null pointer.  \<open>heap i\<close> is the result of the \<open>i\<close>-th request for
  memory and \<open>heap_calls\<close> the number of requests so far.  \<open>junk\<close> is what an uninitialised
  local variable holds.  The sectors of the free map and of the root directory are
  constants of \<open>filesys/filesys.h\<close>, which the sources do not contain.
\<close>

record fs =
  dev_size :: nat
  dev :: "nat \<Rightarrow> u8 list"
  inodes :: "nat \<Rightarrow> inode"
  open_inodes :: "nat list"
  files :: "nat \<Rightarrow> open_file"
  free_map :: bitmap
  free_map_file :: nat
  heap :: "nat \<Rightarrow> nat"
  heap_calls :: nat
  junk :: "u32 list"
  FREE_MAP_SECTOR :: u32
  ROOT_DIR_SECTOR :: u32

type_synonym map_writer = "fs \<Rightarrow> (bool \<times> fs) option"

definition fs_malloc :: "fs \<Rightarrow> nat \<times> fs" where
  "fs_malloc s = (heap s (heap_calls s), s\<lparr>heap_calls := heap_calls s + 1\<rparr>)"

abbreviation upd_inode :: "nat \<Rightarrow> (inode \<Rightarrow> inode) \<Rightarrow> fs \<Rightarrow> fs" where
  "upd_inode a f s \<equiv> s\<lparr>inodes := (inodes s)(a := f (inodes s a))\<rparr>"

abbreviation upd_data :: "nat \<Rightarrow> (inode_disk \<Rightarrow> inode_disk) \<Rightarrow> fs \<Rightarrow> fs" where
  "upd_data a f s \<equiv> upd_inode a (\<lambda>i. i\<lparr>data := f (data i)\<rparr>) s"

abbreviation upd_file :: "nat \<Rightarrow> (open_file \<Rightarrow> open_file) \<Rightarrow> fs \<Rightarrow> fs" where
  "upd_file f g s \<equiv> s\<lparr>files := (files s)(f := g (files s f))\<rparr>"

section \<open>Sectors\<close>

text \<open>Access past the end of the device is a panic (\<open>check_sector\<close> of \<open>devices/block.c\<close>).\<close>

definition sector_read :: "fs \<Rightarrow> u32 \<Rightarrow> u8 list option" where
  "sector_read s sec = (if unat sec < dev_size s then Some (dev s (unat sec)) else None)"

definition sector_write :: "fs \<Rightarrow> u32 \<Rightarrow> u8 list \<Rightarrow> fs option" where
  "sector_write s sec bs =
     (if unat sec < dev_size s then Some (s\<lparr>dev := (dev s)(unat sec := bs)\<rparr>) else None)"

definition zeros :: "u8 list" where
  "zeros = replicate 512 0"

text \<open>\<open>struct indexed_block\<close>: 128 sector numbers.\<close>

definition index_read :: "fs \<Rightarrow> u32 \<Rightarrow> u32 list option" where
  "index_read s sec = map_option words_of (sector_read s sec)"

definition index_write :: "fs \<Rightarrow> u32 \<Rightarrow> u32 list \<Rightarrow> fs option" where
  "index_write s sec ps = sector_write s sec (bytes_of ps)"

text \<open>\<open>struct inode_disk\<close>: 127 words, the flag, and three bytes of padding.\<close>

definition encode_inode :: "inode_disk \<Rightarrow> u8 list" where
  "encode_inode d = bytes_of ([word_of_int (flength d), magic d] @ unused d @ ptr d @
     [parent d, word_of_nat (direct_level_index d), word_of_nat (first_level_index d),
      word_of_nat (second_level_index d)]) @ [if sub_dir d then 1 else 0, 0, 0, 0]"

definition decode_inode :: "u8 list \<Rightarrow> inode_disk" where
  "decode_inode bs = (let ws = words_of bs in
     \<lparr>flength = sint (ws ! 0), magic = ws ! 1, unused = take 109 (drop 2 ws),
      ptr = take 12 (drop 111 ws), parent = ws ! 123, direct_level_index = unat (ws ! 124),
      first_level_index = unat (ws ! 125), second_level_index = unat (ws ! 126),
      sub_dir = (bs ! 508 \<noteq> 0)\<rparr>)"

definition bytes_to_sectors :: "int \<Rightarrow> nat" where
  "bytes_to_sectors sz = nat ((i32 (sz + BLOCK_SECTOR_SIZE - 1) sdiv BLOCK_SECTOR_SIZE) mod 2 ^ 32)"

section \<open>The free map\<close>

definition free_map_allocate :: "map_writer \<Rightarrow> nat \<Rightarrow> fs \<Rightarrow> (u32 option \<times> fs) option" where
  "free_map_allocate w cnt s = do {
     (sec, b) \<leftarrow> bitmap_scan_and_flip (free_map s) 0 cnt False;
     let s = s\<lparr>free_map := b\<rparr>;
     if sec \<noteq> BITMAP_ERROR \<and> free_map_file s \<noteq> 0
     then do {
       (ok, s) \<leftarrow> w s;
       if ok then Some (Some (word_of_nat sec), s)
       else do {
         b \<leftarrow> bitmap_set_multiple (free_map s) sec cnt False;
         Some (None, s\<lparr>free_map := b\<rparr>) } }
     else Some (if sec \<noteq> BITMAP_ERROR then Some (word_of_nat sec) else None, s) }"

definition free_map_release :: "map_writer \<Rightarrow> u32 \<Rightarrow> nat \<Rightarrow> fs \<Rightarrow> fs option" where
  "free_map_release w sec cnt s = do {
     all \<leftarrow> bitmap_all (free_map s) (unat sec) cnt;
     ASSERT all;
     b \<leftarrow> bitmap_set_multiple (free_map s) (unat sec) cnt False;
     (_, s) \<leftarrow> w (s\<lparr>free_map := b\<rparr>);
     Some s }"

section \<open>Finding the sector of a byte\<close>

definition inode_length :: "nat \<Rightarrow> fs \<Rightarrow> int" where
  "inode_length a s = flength (data (inodes s a))"

text \<open>An offset past the last doubly indirect sector leaves the function without a value.\<close>

definition byte_to_sector :: "nat \<Rightarrow> int \<Rightarrow> fs \<Rightarrow> u32 option" where
  "byte_to_sector a ofs s = do {
     ASSERT (a \<noteq> 0);
     let p = ptr (data (inodes s a));
     if ofs < inode_length a s
     then do {
       let n = ofs sdiv BLOCK_SECTOR_SIZE;
       if n < int FIRST_LEV_INDEX then array_iget p n
       else do {
         let n = n - int FIRST_LEV_INDEX;
         if n < int INDEX_BLOCK_SIZE
         then do {
           first \<leftarrow> array_get p FIRST_LEV_INDEX;
           block \<leftarrow> index_read s first;
           array_iget block n }
         else do {
           let n = n - int INDEX_BLOCK_SIZE;
           if n < int INDEX_BLOCK_SIZE * int INDEX_BLOCK_SIZE
           then do {
             let off = n smod int INDEX_BLOCK_SIZE;
             let n = n sdiv int INDEX_BLOCK_SIZE;
             second \<leftarrow> array_get p SECOND_LEV_INDEX;
             second_block \<leftarrow> index_read s second;
             inner \<leftarrow> array_iget second_block n;
             block \<leftarrow> index_read s inner;
             array_iget block off }
           else None } } }
     else Some (word_of_int ERROR) }"

section \<open>Growing an inode\<close>

text \<open>
  The three loops that allocate sectors and fill them with zeros.  When no sector is
  free the pointer keeps its value, and the zeros go to the sector it names.
\<close>

function direct_loop :: "map_writer \<Rightarrow> nat \<Rightarrow> nat \<Rightarrow> nat \<Rightarrow> fs \<Rightarrow> (nat \<times> nat \<times> fs) option" where
  "direct_loop w a index sectors s =
     (if index < FIRST_LEV_INDEX \<and> sectors \<noteq> 0
      then do {
        (r, s) \<leftarrow> free_map_allocate w 1 s;
        let s = (case r of Some sec \<Rightarrow> upd_data a (\<lambda>d. d\<lparr>ptr := (ptr d)[index := sec]\<rparr>) s | None \<Rightarrow> s);
        p \<leftarrow> array_get (ptr (data (inodes s a))) index;
        s \<leftarrow> sector_write s p zeros;
        direct_loop w a (index + 1) (sectors - 1) s }
      else Some (index, sectors, s))"
  by pat_completeness auto
termination
  by (relation "measure (\<lambda>(_, _, _, sectors, _). sectors)") auto

function fill_loop :: "map_writer \<Rightarrow> u32 list \<Rightarrow> nat \<Rightarrow> nat \<Rightarrow> fs \<Rightarrow> (u32 list \<times> nat \<times> nat \<times> fs) option" where
  "fill_loop w pointers index sectors s =
     (if index < INDEX_BLOCK_SIZE \<and> sectors \<noteq> 0
      then do {
        (r, s) \<leftarrow> free_map_allocate w 1 s;
        let pointers = (case r of Some sec \<Rightarrow> pointers[index := sec] | None \<Rightarrow> pointers);
        p \<leftarrow> array_get pointers index;
        s \<leftarrow> sector_write s p zeros;
        fill_loop w pointers (index + 1) (sectors - 1) s }
      else Some (pointers, index, sectors, s))"
  by pat_completeness auto
termination
  by (relation "measure (\<lambda>(_, _, _, sectors, _). sectors)") auto

declare direct_loop.simps [simp del] fill_loop.simps [simp del]

definition first_indir_alloc :: "map_writer \<Rightarrow> nat \<Rightarrow> nat \<Rightarrow> fs \<Rightarrow> (nat \<times> fs) option" where
  "first_indir_alloc w sectors a s = do {
     (index_block, s) \<leftarrow>
       (if first_level_index (data (inodes s a)) = 0
        then do {
          (r, s) \<leftarrow> free_map_allocate w 1 s;
          let s = (case r of Some sec \<Rightarrow> upd_data a (\<lambda>d. d\<lparr>ptr := (ptr d)[FIRST_LEV_INDEX := sec]\<rparr>) s
                   | None \<Rightarrow> s);
          Some (junk s, s) }
        else do {
          p \<leftarrow> array_get (ptr (data (inodes s a))) FIRST_LEV_INDEX;
          b \<leftarrow> index_read s p;
          Some (b, s) });
     (index_block, index, sectors, s) \<leftarrow>
       fill_loop w index_block (first_level_index (data (inodes s a))) sectors s;
     let s = upd_data a (\<lambda>d. d\<lparr>first_level_index := index\<rparr>) s;
     p \<leftarrow> array_get (ptr (data (inodes s a))) FIRST_LEV_INDEX;
     s \<leftarrow> index_write s p index_block;
     let s = (if first_level_index (data (inodes s a)) = INDEX_BLOCK_SIZE
              then upd_data a (\<lambda>d. d\<lparr>first_level_index := 0,
                                     direct_level_index := direct_level_index d + 1\<rparr>) s
              else s);
     Some (sectors, s) }"

definition second_indir_alloc_deep ::
    "map_writer \<Rightarrow> nat \<Rightarrow> nat \<Rightarrow> u32 list \<Rightarrow> fs \<Rightarrow> (nat \<times> u32 list \<times> fs) option" where
  "second_indir_alloc_deep w sectors a second_block s = do {
     (first_block, second_block, s) \<leftarrow>
       (if second_level_index (data (inodes s a)) = 0
        then do {
          (r, s) \<leftarrow> free_map_allocate w 1 s;
          second_block \<leftarrow>
            (case r of Some sec \<Rightarrow> array_set second_block (first_level_index (data (inodes s a))) sec
             | None \<Rightarrow> Some second_block);
          Some (junk s, second_block, s) }
        else do {
          p \<leftarrow> array_get second_block (first_level_index (data (inodes s a)));
          b \<leftarrow> index_read s p;
          Some (b, second_block, s) });
     (first_block, index, sectors, s) \<leftarrow>
       fill_loop w first_block (second_level_index (data (inodes s a))) sectors s;
     let s = upd_data a (\<lambda>d. d\<lparr>second_level_index := index\<rparr>) s;
     p \<leftarrow> array_get second_block (first_level_index (data (inodes s a)));
     s \<leftarrow> index_write s p first_block;
     let s = (if second_level_index (data (inodes s a)) = INDEX_BLOCK_SIZE
              then upd_data a (\<lambda>d. d\<lparr>first_level_index := first_level_index d + 1,
                                     second_level_index := 0\<rparr>) s
              else s);
     Some (sectors, second_block, s) }"

text \<open>The loop of \<open>second_indir_alloc\<close>; it does not end by itself on a corrupt inode.\<close>

partial_function (option) second_loop ::
    "map_writer \<Rightarrow> nat \<Rightarrow> nat \<Rightarrow> u32 list \<Rightarrow> fs \<Rightarrow> (nat \<times> u32 list \<times> fs) option" where
  "second_loop w sectors a second_block s =
     (if first_level_index (data (inodes s a)) < INDEX_BLOCK_SIZE
      then do {
        (sectors, second_block, s) \<leftarrow> second_indir_alloc_deep w sectors a second_block s;
        if sectors = 0 then Some (sectors, second_block, s)
        else second_loop w sectors a second_block s }
      else Some (sectors, second_block, s))"

definition second_indir_alloc :: "map_writer \<Rightarrow> nat \<Rightarrow> nat \<Rightarrow> fs \<Rightarrow> (nat \<times> fs) option" where
  "second_indir_alloc w sectors a s = do {
     (second_block, s) \<leftarrow>
       (if first_level_index (data (inodes s a)) = 0 \<and> second_level_index (data (inodes s a)) = 0
        then do {
          (r, s) \<leftarrow> free_map_allocate w 1 s;
          let s = (case r of Some sec \<Rightarrow> upd_data a (\<lambda>d. d\<lparr>ptr := (ptr d)[SECOND_LEV_INDEX := sec]\<rparr>) s
                   | None \<Rightarrow> s);
          Some (junk s, s) }
        else do {
          p \<leftarrow> array_get (ptr (data (inodes s a))) SECOND_LEV_INDEX;
          b \<leftarrow> index_read s p;
          Some (b, s) });
     (sectors, second_block, s) \<leftarrow> second_loop w sectors a second_block s;
     p \<leftarrow> array_get (ptr (data (inodes s a))) SECOND_LEV_INDEX;
     s \<leftarrow> index_write s p second_block;
     Some (sectors, s) }"

definition inode_grow :: "map_writer \<Rightarrow> int \<Rightarrow> nat \<Rightarrow> fs \<Rightarrow> (int \<times> fs) option" where
  "inode_grow w disk_length a s = do {
     let sectors = nat ((int (bytes_to_sectors disk_length)
                         - int (bytes_to_sectors (inode_length a s))) mod 2 ^ 32);
     if sectors = 0 then Some (disk_length, s)
     else do {
       (index, sectors, s) \<leftarrow>
         direct_loop w a (direct_level_index (data (inodes s a))) sectors s;
       let s = upd_data a (\<lambda>d. d\<lparr>direct_level_index := index\<rparr>) s;
       if sectors = 0 then Some (disk_length, s)
       else do {
         (sectors, s) \<leftarrow>
           (if direct_level_index (data (inodes s a)) = FIRST_LEV_INDEX
            then first_indir_alloc w sectors a s else Some (sectors, s));
         if index = FIRST_LEV_INDEX \<and> sectors = SIZE_MAX then Some (ERROR, s)
         else if index = FIRST_LEV_INDEX \<and> sectors = 0 then Some (disk_length, s)
         else do {
           let second = (direct_level_index (data (inodes s a)) = SECOND_LEV_INDEX);
           (sectors, s) \<leftarrow> (if second then second_indir_alloc w sectors a s else Some (sectors, s));
           if second \<and> sectors = SIZE_MAX then Some (ERROR, s)
           else Some (i32 (disk_length - int sectors * BLOCK_SECTOR_SIZE), s) } } } }"

section \<open>Releasing the sectors of an inode\<close>

text \<open>
  The loops end when the last sector is released (the count is 0) or when the pointers of
  their level are exhausted.
\<close>

function release_direct :: "map_writer \<Rightarrow> nat \<Rightarrow> nat \<Rightarrow> nat \<Rightarrow> fs \<Rightarrow> (nat \<times> fs) option" where
  "release_direct w a index sz s =
     (if index < FIRST_LEV_INDEX
      then do {
        p \<leftarrow> array_get (ptr (data (inodes s a))) index;
        s \<leftarrow> free_map_release w p 1 s;
        if sz - 1 = 0 then Some (0, s) else release_direct w a (index + 1) (sz - 1) s }
      else Some (sz, s))"
  by pat_completeness auto
termination
  by (relation "measure (\<lambda>(_, _, index, _, _). FIRST_LEV_INDEX - index)") auto

function release_block :: "map_writer \<Rightarrow> u32 list \<Rightarrow> nat \<Rightarrow> nat \<Rightarrow> fs \<Rightarrow> (nat \<times> fs) option" where
  "release_block w pointers index sz s =
     (if index < INDEX_BLOCK_SIZE
      then do {
        p \<leftarrow> array_get pointers index;
        s \<leftarrow> free_map_release w p 1 s;
        if sz - 1 = 0 then Some (0, s) else release_block w pointers (index + 1) (sz - 1) s }
      else Some (sz, s))"
  by pat_completeness auto
termination
  by (relation "measure (\<lambda>(_, _, index, _, _). INDEX_BLOCK_SIZE - index)") auto

definition first_level_dealloc :: "map_writer \<Rightarrow> nat \<Rightarrow> nat \<Rightarrow> fs \<Rightarrow> (nat \<times> fs) option" where
  "first_level_dealloc w sz a s = do {
     p \<leftarrow> array_get (ptr (data (inodes s a))) FIRST_LEV_INDEX;
     block \<leftarrow> index_read s p;
     release_block w block 0 sz s }"

definition second_level_dealloc_deep ::
    "map_writer \<Rightarrow> nat \<Rightarrow> nat \<Rightarrow> u32 list \<Rightarrow> fs \<Rightarrow> (nat \<times> fs) option" where
  "second_level_dealloc_deep w sz index second_block s = do {
     p \<leftarrow> array_get second_block index;
     first_block \<leftarrow> index_read s p;
     release_block w first_block 0 sz s }"

text \<open>
  \<open>second_level_dealloc\<close> returns no value when its loop runs to the end; its caller does not
  use the value.
\<close>

function release_second :: "map_writer \<Rightarrow> u32 list \<Rightarrow> nat \<Rightarrow> nat \<Rightarrow> fs \<Rightarrow> (nat \<times> fs) option" where
  "release_second w second_block index sz s =
     (if index < INDEX_BLOCK_SIZE
      then do {
        (sz, s) \<leftarrow> second_level_dealloc_deep w sz index second_block s;
        if sz = 0 then Some (sz, s) else release_second w second_block (index + 1) sz s }
      else Some (sz, s))"
  by pat_completeness auto
termination
  by (relation "measure (\<lambda>(_, _, index, _, _). INDEX_BLOCK_SIZE - index)") auto

declare release_direct.simps [simp del] release_block.simps [simp del] release_second.simps [simp del]

definition second_level_dealloc :: "map_writer \<Rightarrow> nat \<Rightarrow> nat \<Rightarrow> fs \<Rightarrow> (nat \<times> fs) option" where
  "second_level_dealloc w sz a s = do {
     p \<leftarrow> array_get (ptr (data (inodes s a))) SECOND_LEV_INDEX;
     second_block \<leftarrow> index_read s p;
     release_second w second_block 0 sz s }"

definition inode_deallocate :: "map_writer \<Rightarrow> nat \<Rightarrow> fs \<Rightarrow> fs option" where
  "inode_deallocate w a s = do {
     let sz = bytes_to_sectors (inode_length a s);
     if sz = 0 then Some s
     else do {
       (sz, s) \<leftarrow> release_direct w a 0 sz s;
       if sz = 0 then Some s
       else do {
         (sz, s) \<leftarrow> first_level_dealloc w sz a s;
         p \<leftarrow> array_get (ptr (data (inodes s a))) FIRST_LEV_INDEX;
         s \<leftarrow> free_map_release w p 1 s;
         if sz = 0 then Some s
         else do {
           (_, s) \<leftarrow> second_level_dealloc w sz a s;
           p \<leftarrow> array_get (ptr (data (inodes s a))) SECOND_LEV_INDEX;
           free_map_release w p 1 s } } } }"

section \<open>Creating, opening and closing inodes\<close>

definition inode_init :: "fs \<Rightarrow> fs" where
  "inode_init s = s\<lparr>open_inodes := []\<rparr>"

text \<open>
  \<open>inode_allocate\<close> grows a local \<open>struct inode\<close>, of which it sets only the indexes and the
  length; \<open>LOCAL_INODE\<close> is the address of that variable, which is no heap address.
\<close>

definition LOCAL_INODE :: nat where
  "LOCAL_INODE = 3"

definition local_inode :: "fs \<Rightarrow> inode" where
  "local_inode s = \<lparr>open_cnt = 0, deny_write_cnt = 0, removed = False, sector = 0,
     data = \<lparr>flength = 0, magic = 0, unused = [], ptr = take DIRECT_BLOCK_SIZE (junk s), parent = 0,
       direct_level_index = 0, first_level_index = 0, second_level_index = 0, sub_dir = False\<rparr>,
     ilock = False\<rparr>"

definition inode_allocate :: "map_writer \<Rightarrow> inode_disk \<Rightarrow> fs \<Rightarrow> (bool \<times> inode_disk \<times> fs) option" where
  "inode_allocate w disk_inode s = do {
     let s = upd_inode LOCAL_INODE (\<lambda>_. local_inode s) s;
     (_, s) \<leftarrow> inode_grow w (flength disk_inode) LOCAL_INODE s;
     let d = data (inodes s LOCAL_INODE);
     Some (True, disk_inode\<lparr>direct_level_index := direct_level_index d,
       first_level_index := first_level_index d, second_level_index := second_level_index d,
       ptr := ptr d\<rparr>, s) }"

definition inode_create :: "map_writer \<Rightarrow> u32 \<Rightarrow> int \<Rightarrow> bool \<Rightarrow> fs \<Rightarrow> (bool \<times> fs) option" where
  "inode_create w sec len is_dir s = do {
     ASSERT (len \<ge> 0);
     let (m, s) = fs_malloc s;
     if m \<noteq> 0
     then do {
       let d = \<lparr>flength = len, magic = INODE_MAGIC, unused = replicate 109 0,
                ptr = replicate DIRECT_BLOCK_SIZE 0, parent = ROOT_DIR_SECTOR s,
                direct_level_index = 0, first_level_index = 0, second_level_index = 0,
                sub_dir = is_dir\<rparr>;
       (ok, d, s) \<leftarrow> inode_allocate w d s;
       if ok then do { s \<leftarrow> sector_write s sec (encode_inode d); Some (True, s) }
       else Some (False, s) }
     else Some (False, s) }"

definition inode_reopen :: "nat \<Rightarrow> fs \<Rightarrow> nat \<times> fs" where
  "inode_reopen a s =
     (a, if a \<noteq> 0 then upd_inode a (\<lambda>i. i\<lparr>open_cnt := open_cnt i + 1\<rparr>) s else s)"

definition inode_open :: "u32 \<Rightarrow> fs \<Rightarrow> (nat \<times> fs) option" where
  "inode_open sec s =
     (case List.find (\<lambda>a. sector (inodes s a) = sec) (open_inodes s) of
        Some a \<Rightarrow> Some (inode_reopen a s)
      | None \<Rightarrow> do {
          let (a, s) = fs_malloc s;
          if a = 0 then Some (0, s)
          else do {
            let s = s\<lparr>open_inodes := a # open_inodes s\<rparr>;
            bs \<leftarrow> sector_read s sec;
            Some (a, upd_inode a (\<lambda>_. \<lparr>open_cnt = 1, deny_write_cnt = 0, removed = False,
              sector = sec, data = decode_inode bs, ilock = False\<rparr>) s) } })"

definition inode_get_inumber :: "nat \<Rightarrow> fs \<Rightarrow> u32" where
  "inode_get_inumber a s = sector (inodes s a)"

definition inode_close :: "map_writer \<Rightarrow> nat \<Rightarrow> fs \<Rightarrow> fs option" where
  "inode_close w a s =
     (if a = 0 then Some s
      else do {
        let s = upd_inode a (\<lambda>i. i\<lparr>open_cnt := open_cnt i - 1\<rparr>) s;
        if open_cnt (inodes s a) = 0
        then do {
          let s = s\<lparr>open_inodes := remove1 a (open_inodes s)\<rparr>;
          if removed (inodes s a)
          then do {
            s \<leftarrow> free_map_release w (sector (inodes s a)) 1 s;
            inode_deallocate w a s }
          else sector_write s (sector (inodes s a)) (encode_inode (data (inodes s a))) }
        else Some s })"

definition inode_remove :: "nat \<Rightarrow> fs \<Rightarrow> fs option" where
  "inode_remove a s = do {
     ASSERT (a \<noteq> 0);
     Some (upd_inode a (\<lambda>i. i\<lparr>removed := True\<rparr>) s) }"

section \<open>Reading and writing\<close>

text \<open>
  The part of a transfer of \<open>sz\<close> bytes at \<open>ofs\<close> that lies in one sector: the offset in
  the sector, the bytes left in the sector, and the number of bytes to copy.
\<close>

definition chunk_of :: "int \<Rightarrow> int \<Rightarrow> int \<Rightarrow> int \<times> int \<times> int" where
  "chunk_of len ofs sz =
     (let sector_ofs = ofs smod BLOCK_SECTOR_SIZE;
          inode_left = i32 (len - ofs);
          sector_left = BLOCK_SECTOR_SIZE - sector_ofs;
          min_left = (if inode_left < sector_left then inode_left else sector_left)
      in (sector_ofs, sector_left, if sz < min_left then sz else min_left))"

text \<open>\<open>bounce\<close> says whether the bounce buffer has been allocated.  The result is the list of
  the bytes that were copied to the caller's buffer; its length is the value returned.\<close>

function read_loop :: "nat \<Rightarrow> int \<Rightarrow> int \<Rightarrow> bool \<Rightarrow> u8 list \<Rightarrow> fs \<Rightarrow> (u8 list \<times> fs) option" where
  "read_loop a sz ofs bounce buffer s =
     (if sz > 0
      then do {
        sector_idx \<leftarrow> byte_to_sector a ofs s;
        let (sector_ofs, sector_left, chunk_size) = chunk_of (inode_length a s) ofs sz;
        if chunk_size \<le> 0 then Some (buffer, s)
        else if sector_ofs = 0 \<and> chunk_size = BLOCK_SECTOR_SIZE
        then do {
          bs \<leftarrow> sector_read s sector_idx;
          read_loop a (sz - chunk_size) (ofs + chunk_size) bounce (buffer @ bs) s }
        else do {
          let (m, s) = (if bounce then (1, s) else fs_malloc s);
          if m = 0 then Some (buffer, s)
          else do {
            bs \<leftarrow> sector_read s sector_idx;
            read_loop a (sz - chunk_size) (ofs + chunk_size) True
              (buffer @ take (nat chunk_size) (drop (nat sector_ofs) bs)) s } } }
      else Some (buffer, s))"
  by pat_completeness auto
termination
  by (relation "measure (\<lambda>(_, sz, _, _, _, _). nat sz)") auto

definition inode_read_at :: "nat \<Rightarrow> int \<Rightarrow> int \<Rightarrow> fs \<Rightarrow> (u8 list \<times> fs) option" where
  "inode_read_at a sz ofs s = read_loop a sz ofs False [] s"

text \<open>A write takes the bytes from the caller's \<open>buffer\<close>, which has to contain them.\<close>

function write_loop :: "nat \<Rightarrow> u8 list \<Rightarrow> int \<Rightarrow> int \<Rightarrow> int \<Rightarrow> bool \<Rightarrow> fs \<Rightarrow> (int \<times> fs) option" where
  "write_loop a buffer sz ofs bytes_written bounce s =
     (if sz > 0
      then do {
        sector_idx \<leftarrow> byte_to_sector a ofs s;
        let (sector_ofs, sector_left, chunk_size) = chunk_of (inode_length a s) ofs sz;
        let chunk = take (nat chunk_size) (drop (nat bytes_written) buffer);
        if chunk_size \<le> 0 then Some (bytes_written, s)
        else do {
          ASSERT (bytes_written + chunk_size \<le> int (length buffer));
          if sector_ofs = 0 \<and> chunk_size = BLOCK_SECTOR_SIZE
          then do {
            s \<leftarrow> sector_write s sector_idx chunk;
            write_loop a buffer (sz - chunk_size) (ofs + chunk_size) (bytes_written + chunk_size) bounce s }
          else do {
            let (m, s) = (if bounce then (1, s) else fs_malloc s);
            if m = 0 then Some (bytes_written, s)
            else do {
              bs \<leftarrow> (if sector_ofs > 0 \<or> chunk_size < sector_left
                     then sector_read s sector_idx else Some zeros);
              s \<leftarrow> sector_write s sector_idx (put bs (nat sector_ofs) chunk);
              write_loop a buffer (sz - chunk_size) (ofs + chunk_size) (bytes_written + chunk_size) True s } } } }
      else Some (bytes_written, s))"
  by pat_completeness auto
termination
  by (relation "measure (\<lambda>(_, _, sz, _, _, _, _). nat sz)") auto

declare read_loop.simps [simp del] write_loop.simps [simp del]

definition inode_write_at ::
    "map_writer \<Rightarrow> nat \<Rightarrow> u8 list \<Rightarrow> int \<Rightarrow> int \<Rightarrow> fs \<Rightarrow> (int \<times> fs) option" where
  "inode_write_at w a buffer sz ofs s =
     (if deny_write_cnt (inodes s a) \<noteq> 0 then Some (0, s)
      else do {
        s \<leftarrow>
          (if i32 (ofs + sz) > inode_length a s
           then do {
             s \<leftarrow> (if \<not> sub_dir (data (inodes s a))
                   then do { ASSERT (\<not> ilock (inodes s a)); Some (upd_inode a (\<lambda>i. i\<lparr>ilock := True\<rparr>) s) }
                   else Some s);
             (len, s) \<leftarrow> inode_grow w (i32 (ofs + sz)) a s;
             let s = upd_data a (\<lambda>d. d\<lparr>flength := len\<rparr>) s;
             if \<not> sub_dir (data (inodes s a))
             then do { ASSERT (ilock (inodes s a)); Some (upd_inode a (\<lambda>i. i\<lparr>ilock := False\<rparr>) s) }
             else Some s }
           else Some s);
        write_loop a buffer sz ofs 0 False s })"

definition inode_deny_write :: "nat \<Rightarrow> fs \<Rightarrow> fs option" where
  "inode_deny_write a s = do {
     let s = upd_inode a (\<lambda>i. i\<lparr>deny_write_cnt := deny_write_cnt i + 1\<rparr>) s;
     ASSERT (deny_write_cnt (inodes s a) \<le> open_cnt (inodes s a));
     Some s }"

definition inode_allow_write :: "nat \<Rightarrow> fs \<Rightarrow> fs option" where
  "inode_allow_write a s = do {
     ASSERT (deny_write_cnt (inodes s a) > 0);
     ASSERT (deny_write_cnt (inodes s a) \<le> open_cnt (inodes s a));
     Some (upd_inode a (\<lambda>i. i\<lparr>deny_write_cnt := deny_write_cnt i - 1\<rparr>) s) }"

section \<open>Files\<close>

definition file_open :: "map_writer \<Rightarrow> nat \<Rightarrow> fs \<Rightarrow> (nat \<times> fs) option" where
  "file_open w a s = do {
     let (f, s) = fs_malloc s;
     if a \<noteq> 0 \<and> f \<noteq> 0
     then Some (f, upd_file f (\<lambda>_. \<lparr>finode = a, pos = 0, deny_write = False\<rparr>) s)
     else do { s \<leftarrow> inode_close w a s; Some (0, s) } }"

definition file_reopen :: "map_writer \<Rightarrow> nat \<Rightarrow> fs \<Rightarrow> (nat \<times> fs) option" where
  "file_reopen w f s = do {
     ASSERT (f \<noteq> 0);
     let (a, s) = inode_reopen (finode (files s f)) s;
     file_open w a s }"

definition file_deny_write :: "nat \<Rightarrow> fs \<Rightarrow> fs option" where
  "file_deny_write f s = do {
     ASSERT (f \<noteq> 0);
     if \<not> deny_write (files s f)
     then inode_deny_write (finode (files s f)) (upd_file f (\<lambda>x. x\<lparr>deny_write := True\<rparr>) s)
     else Some s }"

definition file_allow_write :: "nat \<Rightarrow> fs \<Rightarrow> fs option" where
  "file_allow_write f s = do {
     ASSERT (f \<noteq> 0);
     if deny_write (files s f)
     then inode_allow_write (finode (files s f)) (upd_file f (\<lambda>x. x\<lparr>deny_write := False\<rparr>) s)
     else Some s }"

definition file_close :: "map_writer \<Rightarrow> nat \<Rightarrow> fs \<Rightarrow> fs option" where
  "file_close w f s =
     (if f \<noteq> 0
      then do {
        s \<leftarrow> file_allow_write f s;
        inode_close w (finode (files s f)) s }
      else Some s)"

text \<open>The functions without an assertion on the file fault on a null pointer.\<close>

definition file_get_inode :: "nat \<Rightarrow> fs \<Rightarrow> nat option" where
  "file_get_inode f s = do { ASSERT (f \<noteq> 0); Some (finode (files s f)) }"

definition file_read :: "nat \<Rightarrow> int \<Rightarrow> fs \<Rightarrow> (u8 list \<times> fs) option" where
  "file_read f sz s = do {
     ASSERT (f \<noteq> 0);
     (bs, s) \<leftarrow> inode_read_at (finode (files s f)) sz (pos (files s f)) s;
     Some (bs, upd_file f (\<lambda>x. x\<lparr>pos := i32 (pos x + int (length bs))\<rparr>) s) }"

definition file_read_at :: "nat \<Rightarrow> int \<Rightarrow> int \<Rightarrow> fs \<Rightarrow> (u8 list \<times> fs) option" where
  "file_read_at f sz file_ofs s = do {
     ASSERT (f \<noteq> 0);
     inode_read_at (finode (files s f)) sz file_ofs s }"

definition file_write :: "map_writer \<Rightarrow> nat \<Rightarrow> u8 list \<Rightarrow> int \<Rightarrow> fs \<Rightarrow> (int \<times> fs) option" where
  "file_write w f buffer sz s = do {
     ASSERT (f \<noteq> 0);
     (n, s) \<leftarrow> inode_write_at w (finode (files s f)) buffer sz (pos (files s f)) s;
     Some (n, upd_file f (\<lambda>x. x\<lparr>pos := i32 (pos x + n)\<rparr>) s) }"

definition file_write_at :: "map_writer \<Rightarrow> nat \<Rightarrow> u8 list \<Rightarrow> int \<Rightarrow> int \<Rightarrow> fs \<Rightarrow> (int \<times> fs) option" where
  "file_write_at w f buffer sz file_ofs s = do {
     ASSERT (f \<noteq> 0);
     inode_write_at w (finode (files s f)) buffer sz file_ofs s }"

definition file_length :: "nat \<Rightarrow> fs \<Rightarrow> int option" where
  "file_length f s = do { ASSERT (f \<noteq> 0); Some (inode_length (finode (files s f)) s) }"

definition file_seek :: "nat \<Rightarrow> int \<Rightarrow> fs \<Rightarrow> fs option" where
  "file_seek f new_pos s = do {
     ASSERT (f \<noteq> 0);
     ASSERT (new_pos \<ge> 0);
     Some (upd_file f (\<lambda>x. x\<lparr>pos := new_pos\<rparr>) s) }"

definition file_tell :: "nat \<Rightarrow> fs \<Rightarrow> int option" where
  "file_tell f s = do { ASSERT (f \<noteq> 0); Some (pos (files s f)) }"

section \<open>The free map in its file\<close>

text \<open>
  \<open>bitmap_write\<close> and \<open>bitmap_read\<close> of \<open>lib/kernel/bitmap.c\<close>, on the free map.  The first
  argument of \<open>bitmap_write\<close> bounds the depth of the nesting; at 0 nothing is returned.
\<close>

fun bitmap_write :: "nat \<Rightarrow> map_writer" where
  "bitmap_write 0 s = None"
| "bitmap_write (Suc n) s = do {
     let sz = i32 (int (byte_cnt (bit_cnt (free_map s))));
     (r, s) \<leftarrow> file_write_at (bitmap_write n) (free_map_file s) (bytes_of (bits (free_map s))) sz 0 s;
     Some (r = sz, s) }"

definition bitmap_read :: "fs \<Rightarrow> (bool \<times> fs) option" where
  "bitmap_read s =
     (if bit_cnt (free_map s) > 0
      then do {
        let sz = i32 (int (byte_cnt (bit_cnt (free_map s))));
        (bs, s) \<leftarrow> file_read_at (free_map_file s) sz 0 s;
        let b = (free_map s)\<lparr>bits := words_of (put (bytes_of (bits (free_map s))) 0 bs)\<rparr>;
        let i = elem_cnt (bit_cnt b) - 1;
        e \<leftarrow> array_get (bits b) i;
        es \<leftarrow> array_set (bits b) i (e AND last_mask b);
        Some (int (length bs) = sz, s\<lparr>free_map := b\<lparr>bits := es\<rparr>\<rparr>) }
      else Some (True, s))"

text \<open>\<open>mem\<close> is the content of the memory that \<open>bitmap_create\<close> obtains for the bits.\<close>

definition free_map_init :: "u32 list \<Rightarrow> fs \<Rightarrow> fs option" where
  "free_map_init mem s = do {
     let (h, s) = fs_malloc s;
     let (m, s) = (if h \<noteq> 0 then fs_malloc s else (0, s));
     b \<leftarrow> bitmap_create (h \<noteq> 0) (m \<noteq> 0) mem (dev_size s);
     b \<leftarrow> b;
     b \<leftarrow> bitmap_mark b (unat (FREE_MAP_SECTOR s));
     b \<leftarrow> bitmap_mark b (unat (ROOT_DIR_SECTOR s));
     Some (s\<lparr>free_map := b\<rparr>) }"

definition open_map_file :: "map_writer \<Rightarrow> fs \<Rightarrow> fs option" where
  "open_map_file w s = do {
     (a, s) \<leftarrow> inode_open (FREE_MAP_SECTOR s) s;
     (f, s) \<leftarrow> file_open w a s;
     ASSERT (f \<noteq> 0);
     Some (s\<lparr>free_map_file := f\<rparr>) }"

definition free_map_open :: "map_writer \<Rightarrow> fs \<Rightarrow> fs option" where
  "free_map_open w s = do {
     s \<leftarrow> open_map_file w s;
     (ok, s) \<leftarrow> bitmap_read s;
     ASSERT ok;
     Some s }"

definition free_map_close :: "map_writer \<Rightarrow> fs \<Rightarrow> fs option" where
  "free_map_close w s = file_close w (free_map_file s) s"

definition free_map_create :: "nat \<Rightarrow> fs \<Rightarrow> fs option" where
  "free_map_create n s = do {
     (ok, s) \<leftarrow> inode_create (bitmap_write n) (FREE_MAP_SECTOR s)
                 (i32 (int (bitmap_file_size (free_map s)))) False s;
     ASSERT ok;
     s \<leftarrow> open_map_file (bitmap_write n) s;
     (ok, s) \<leftarrow> bitmap_write n s;
     ASSERT ok;
     Some s }"

end
