(* ===== verification/FileLayout.thy ===== *)
theory FileLayout
  imports Inode
begin

text \<open>
  The layout of a file on the disk: which sector holds its \<open>i\<close>-th block, which sectors are its
  index blocks, and its content as one list of bytes.  The lemmas show that
  \<open>byte_to_sector\<close> finds these sectors and that the read and write loops act on the content.
\<close>

section \<open>The tree of sectors\<close>

text \<open>
  The sectors as natural numbers.  \<open>p\<close> is the pointer array of the inode and \<open>sa\<close> the content
  of its doubly indirect block, which is a separate argument because a growing inode keeps
  it in memory.
\<close>

definition index_at :: "(nat \<Rightarrow> u8 list) \<Rightarrow> u32 \<Rightarrow> u32 list" where
  "index_at D p = words_of (D (unat p))"

definition blk :: "(nat \<Rightarrow> u8 list) \<Rightarrow> u32 list \<Rightarrow> u32 list \<Rightarrow> nat \<Rightarrow> nat" where
  "blk D p sa i = unat
     (if i < 10 then p ! i
      else if i < 138 then index_at D (p ! 10) ! (i - 10)
      else index_at D (sa ! ((i - 138) div 128)) ! ((i - 138) mod 128))"

definition max_blocks :: nat where
  "max_blocks = 10 + 128 + 128 * 128"

definition inner_cnt :: "nat \<Rightarrow> nat" where
  "inner_cnt n = (n - 138 + 127) div 128"

definition idx :: "u32 list \<Rightarrow> u32 list \<Rightarrow> bool \<Rightarrow> nat \<Rightarrow> nat list" where
  "idx p sa e n = map unat ((if 10 < n then [p ! 10] else []) @
     (if e \<or> 138 < n then [p ! 11] else []) @ take (inner_cnt n) sa)"

abbreviation blks :: "(nat \<Rightarrow> u8 list) \<Rightarrow> u32 list \<Rightarrow> u32 list \<Rightarrow> nat \<Rightarrow> nat list" where
  "blks D p sa n \<equiv> map (blk D p sa) [0..<n]"

definition levels :: "nat \<Rightarrow> nat \<times> nat \<times> nat" where
  "levels n = (if n \<le> 10 then (n, 0, 0) else if n < 138 then (10, n - 10, 0)
     else (11, (n - 138) div 128, (n - 138) mod 128))"

lemma inner_cnt_small [simp]: "n \<le> 138 \<Longrightarrow> inner_cnt n = 0"
  by (simp add: inner_cnt_def)

lemma inner_cnt_le: "n \<le> max_blocks \<Longrightarrow> inner_cnt n \<le> 128"
  by (simp add: inner_cnt_def max_blocks_def)

lemma inner_less: "\<lbrakk>138 \<le> i; i < n\<rbrakk> \<Longrightarrow> (i - 138) div 128 < inner_cnt n"
  by (simp add: inner_cnt_def)

lemma blk_cong:
  assumes "\<forall>x \<in> set (idx p sa e n). D' x = D x" "i < n" "n \<le> max_blocks" "138 < n \<longrightarrow> length sa = 128"
  shows "blk D' p sa i = blk D p sa i"
proof -
  have "D' (unat (p ! 10)) = D (unat (p ! 10))" if "10 \<le> i"
    using assms(1,2) that by (auto simp: idx_def)
  moreover have "D' (unat (sa ! ((i - 138) div 128))) = D (unat (sa ! ((i - 138) div 128)))" if "138 \<le> i"
  proof -
    have "(i - 138) div 128 < inner_cnt n" using that assms(2) by (rule inner_less)
    moreover have "inner_cnt n \<le> 128" using assms(3) by (rule inner_cnt_le)
    ultimately have "sa ! ((i - 138) div 128) \<in> set (take (inner_cnt n) sa)"
      using assms(2,4) that by (auto simp: in_set_conv_nth)
    then show ?thesis using assms(1) by (auto simp: idx_def)
  qed
  ultimately show ?thesis by (auto simp: blk_def index_at_def)
qed

lemma blks_cong:
  "\<lbrakk>\<forall>x \<in> set (idx p sa e n). D' x = D x; n \<le> max_blocks; 138 < n \<longrightarrow> length sa = 128\<rbrakk> \<Longrightarrow>
   blks D' p sa n = blks D p sa n"
  by (simp add: blk_cong)

section \<open>The content of a list of sectors\<close>

abbreviation raw :: "(nat \<Rightarrow> u8 list) \<Rightarrow> nat list \<Rightarrow> u8 list" where
  "raw D bl \<equiv> concat (map D bl)"

definition sized :: "nat list \<Rightarrow> (nat \<Rightarrow> u8 list) \<Rightarrow> bool" where
  "sized bl D \<longleftrightarrow> (\<forall>x \<in> set bl. length (D x) = 512)"

lemma length_raw: "sized bl D \<Longrightarrow> length (raw D bl) = 512 * length bl"
  by (induction bl) (auto simp: sized_def)

lemma put_middle: "i + length ys \<le> length bs \<Longrightarrow> put (as @ bs @ cs) (length as + i) ys = as @ put bs i ys @ cs"
  by (simp add: put_def)

lemma raw_split:
  assumes "i < length bl"
  shows "raw D bl = raw D (take i bl) @ D (bl ! i) @ raw D (drop (Suc i) bl)"
proof -
  have "raw D bl = raw D (take i bl @ bl ! i # drop (Suc i) bl)"
    using id_take_nth_drop [OF assms] by simp
  then show ?thesis by simp
qed

lemma raw_update:
  assumes "distinct bl" "sized bl D" "i < length bl" "ofs + length ys \<le> 512"
  shows "raw (D(bl ! i := put (D (bl ! i)) ofs ys)) bl = put (raw D bl) (512 * i + ofs) ys"
proof -
  let ?D = "D(bl ! i := put (D (bl ! i)) ofs ys)"
  have d: "distinct (take i bl @ bl ! i # drop (Suc i) bl)"
    using id_take_nth_drop [OF assms(3)] assms(1) by simp
  then have "raw ?D (take i bl) = raw D (take i bl)" "raw ?D (drop (Suc i) bl) = raw D (drop (Suc i) bl)"
    by (auto intro!: arg_cong [where f = concat])
  moreover have "length (raw D (take i bl)) = 512 * i"
    using length_raw [of "take i bl" D] assms(2,3) by (auto simp: sized_def dest: in_set_takeD)
  moreover have "length (D (bl ! i)) = 512" using assms(2,3) by (simp add: sized_def)
  ultimately show ?thesis
    using put_middle [of ofs ys "D (bl ! i)" "raw D (take i bl)" "raw D (drop (Suc i) bl)"] assms(4)
    by (simp add: raw_split [OF assms(3), of D] raw_split [OF assms(3), of ?D])
qed

lemma raw_slice:
  assumes "sized bl D" "i < length bl" "ofs + c \<le> 512"
  shows "take c (drop (512 * i + ofs) (raw D bl)) = take c (drop ofs (D (bl ! i)))"
proof -
  have "length (raw D (take i bl)) = 512 * i"
    using length_raw [of "take i bl" D] assms by (auto simp: sized_def dest: in_set_takeD)
  moreover have "length (D (bl ! i)) = 512" using assms by (simp add: sized_def)
  ultimately show ?thesis using assms(3) by (simp add: raw_split [OF assms(2), of D])
qed

section \<open>Well-formed inodes\<close>

definition disk_ok :: "fs \<Rightarrow> bool" where
  "disk_ok s \<longleftrightarrow> bitmap_ok (free_map s) \<and> bit_cnt (free_map s) = dev_size s \<and>
     (\<forall>x < dev_size s. length (dev s x) = 512)"

definition marked :: "fs \<Rightarrow> nat \<Rightarrow> bool" where
  "marked s x \<longleftrightarrow> x < dev_size s \<and> bm (free_map s) ! x"

abbreviation second_of :: "fs \<Rightarrow> inode_disk \<Rightarrow> u32 list" where
  "second_of s d \<equiv> index_at (dev s) (ptr d ! 11)"

definition shape :: "fs \<Rightarrow> inode_disk \<Rightarrow> u32 list \<Rightarrow> bool \<Rightarrow> nat \<Rightarrow> bool" where
  "shape s d sa e n \<longleftrightarrow> n \<le> max_blocks \<and> length (ptr d) = 12 \<and>
     (direct_level_index d, first_level_index d, second_level_index d) = levels n \<and>
     (e \<or> 138 < n \<longrightarrow> length sa = 128) \<and>
     distinct (blks (dev s) (ptr d) sa n @ idx (ptr d) sa e n) \<and>
     (\<forall>x \<in> set (blks (dev s) (ptr d) sa n @ idx (ptr d) sa e n). marked s x)"

abbreviation dsectors :: "inode_disk \<Rightarrow> nat" where
  "dsectors d \<equiv> bytes_to_sectors (flength d)"

definition dblocks :: "fs \<Rightarrow> inode_disk \<Rightarrow> nat list" where
  "dblocks s d = blks (dev s) (ptr d) (second_of s d) (dsectors d)"

definition dindex :: "fs \<Rightarrow> inode_disk \<Rightarrow> nat list" where
  "dindex s d = idx (ptr d) (second_of s d) False (dsectors d)"

definition dcontent :: "fs \<Rightarrow> inode_disk \<Rightarrow> u8 list" where
  "dcontent s d = take (nat (flength d)) (raw (dev s) (dblocks s d))"

definition inode_ok :: "fs \<Rightarrow> inode_disk \<Rightarrow> bool" where
  "inode_ok s d \<longleftrightarrow> 0 \<le> flength d \<and> flength d < 2 ^ 31 - 511 \<and>
     shape s d (second_of s d) False (dsectors d)"

lemma bytes_to_sectors_eq:
  "\<lbrakk>0 \<le> n; n < 2 ^ 31 - 511\<rbrakk> \<Longrightarrow> bytes_to_sectors n = (nat n + 511) div 512"
  by (simp add: bytes_to_sectors_def nat_div_distrib nat_add_distrib)

lemma shapeD:
  assumes "shape s d sa e n"
  shows "n \<le> max_blocks" "length (ptr d) = 12" "direct_level_index d = fst (levels n)"
    "first_level_index d = fst (snd (levels n))" "second_level_index d = snd (snd (levels n))"
    "e \<or> 138 < n \<Longrightarrow> length sa = 128"
    "distinct (blks (dev s) (ptr d) sa n)" "distinct (idx (ptr d) sa e n)"
    "set (blks (dev s) (ptr d) sa n) \<inter> set (idx (ptr d) sa e n) = {}"
    "\<And>x. x \<in> set (blks (dev s) (ptr d) sa n) \<Longrightarrow> marked s x"
    "\<And>x. x \<in> set (idx (ptr d) sa e n) \<Longrightarrow> marked s x"
  using assms unfolding shape_def prod_eq_iff distinct_append set_append fst_conv snd_conv ball_Un by blast+

lemma inode_okD:
  assumes "inode_ok s d"
  shows "0 \<le> flength d" "flength d < 2 ^ 31 - 511" "dsectors d = (nat (flength d) + 511) div 512"
    "dsectors d \<le> max_blocks" "distinct (dblocks s d)" "distinct (dindex s d)"
    "set (dblocks s d) \<inter> set (dindex s d) = {}" "length (dblocks s d) = dsectors d"
    "\<And>x. x \<in> set (dblocks s d) \<Longrightarrow> marked s x" "\<And>x. x \<in> set (dindex s d) \<Longrightarrow> marked s x"
proof -
  have len: "0 \<le> flength d" "flength d < 2 ^ 31 - 511" and "shape s d (second_of s d) False (dsectors d)"
    using assms unfolding inode_ok_def by blast+
  note S = shapeD [OF this(3), folded dblocks_def dindex_def]
  show "0 \<le> flength d" "flength d < 2 ^ 31 - 511" "dsectors d = (nat (flength d) + 511) div 512"
    using len bytes_to_sectors_eq by auto
  show "dsectors d \<le> max_blocks" "distinct (dblocks s d)" "distinct (dindex s d)"
    "set (dblocks s d) \<inter> set (dindex s d) = {}"
    "\<And>x. x \<in> set (dblocks s d) \<Longrightarrow> marked s x" "\<And>x. x \<in> set (dindex s d) \<Longrightarrow> marked s x"
    by (fact S(1,7,8,9,10,11))+
  show "length (dblocks s d) = dsectors d" by (simp add: dblocks_def)
qed

lemma marked_less: "marked s x \<Longrightarrow> x < dev_size s"
  by (simp add: marked_def)

lemma sized_blocks: "\<lbrakk>disk_ok s; inode_ok s d\<rbrakk> \<Longrightarrow> sized (dblocks s d) (dev s)"
  by (auto simp: sized_def disk_ok_def dest!: inode_okD(9) marked_less)

lemma index_read_ok: "disk_ok s \<Longrightarrow> marked s (unat p) \<Longrightarrow> index_read s p = Some (index_at (dev s) p)"
  by (simp add: index_read_def sector_read_def index_at_def marked_less)

lemma length_index_at: "disk_ok s \<Longrightarrow> marked s (unat p) \<Longrightarrow> length (index_at (dev s) p) = 128"
  by (simp add: index_at_def disk_ok_def marked_less)

lemma idx_members:
  assumes "length p = 12" "length sa = 128 \<or> n \<le> 138" "n \<le> max_blocks"
  shows "10 < n \<Longrightarrow> unat (p ! 10) \<in> set (idx p sa e n)"
    "138 < n \<Longrightarrow> unat (p ! 11) \<in> set (idx p sa e n)"
    "j < inner_cnt n \<Longrightarrow> unat (sa ! j) \<in> set (idx p sa e n)"
proof -
  have "sa ! j \<in> set (take (inner_cnt n) sa)" if "j < inner_cnt n"
    using that assms(2) inner_cnt_le [OF assms(3)] nth_mem [of j "take (inner_cnt n) sa"] by auto
  then show "j < inner_cnt n \<Longrightarrow> unat (sa ! j) \<in> set (idx p sa e n)" by (auto simp: idx_def)
qed (auto simp: idx_def)

lemma byte_to_sector_blk:
  assumes "disk_ok s" and ok: "inode_ok s (data (inodes s a))" and "a \<noteq> 0"
    and "0 \<le> ofs" "ofs < inode_length a s"
  shows "\<exists>sec. byte_to_sector a ofs s = Some sec \<and>
    unat sec = dblocks s (data (inodes s a)) ! (nat ofs div 512) \<and>
    nat ofs div 512 < dsectors (data (inodes s a))"
proof -
  define d where "d = data (inodes s a)"
  define i where "i = nat ofs div 512"
  define n where "n = dsectors d"
  have sh: "shape s d (second_of s d) False n" using ok by (simp add: inode_ok_def d_def n_def)
  note S = shapeD [OF sh]
  have n: "n \<le> max_blocks" by (rule S(1))
  have i: "i < n" using assms(4,5) inode_okD(3) [OF ok]
    by (simp add: i_def n_def d_def inode_length_def nat_less_iff flip: zless_nat_eq_int_zless)
  have ofs: "ofs sdiv 512 = int i" using assms(4) by (simp add: i_def zdiv_int)
  have "length (second_of s d) = 128 \<or> n \<le> 138" using S(6) by linarith
  note mems = idx_members [OF S(2) this n, where e = False]
  have mem: "10 < n \<Longrightarrow> marked s (unat (ptr d ! 10))" "138 < n \<Longrightarrow> marked s (unat (ptr d ! 11))"
    "\<And>j. j < inner_cnt n \<Longrightarrow> marked s (unat (second_of s d ! j))"
    by (rule S(11), erule mems)+
  have "\<exists>sec. byte_to_sector a ofs s = Some sec \<and> unat sec = blk (dev s) (ptr d) (second_of s d) i"
  proof -
    consider "i < 10" | "10 \<le> i" "i < 138" | "138 \<le> i" by fastforce
    then show ?thesis
    proof cases
      case 1
      then show ?thesis using assms ofs S(2)
        by (simp add: byte_to_sector_def Let_def flip: d_def) (simp add: blk_def)
    next
      case 2
      have g: "array_iget xs (int i - 10) = array_get xs (i - 10)" for xs :: "u32 list"
        using 2 by (simp add: array_iget_def nat_diff_distrib)
      have m: "marked s (unat (ptr d ! 10))" using mem(1) 2 i by simp
      show ?thesis using 2 assms ofs S(2) i index_read_ok [OF assms(1) m] length_index_at [OF assms(1) m]
        by (simp add: byte_to_sector_def Let_def g flip: d_def) (simp add: blk_def)
    next
      case 3
      have lt: "i - 138 < 128 * 128" using i n by (simp add: max_blocks_def)
      define k where "k = i - 138"
      have e: "int i = int k + 138" using 3 by (simp add: k_def)
      have in1: "k div 128 < inner_cnt n" using inner_less [OF 3 i] by (simp add: k_def)
      have l2: "length (second_of s d) = 128" using S(6) 3 i by simp
      have j: "k div 128 < 128" using lt by (simp add: k_def)
      have k: "k < 16384" using lt by (simp add: k_def)
      have m: "marked s (unat (ptr d ! 11))" using mem(2) 3 i by simp
      have g: "array_iget xs (int k div 128) = array_get xs (k div 128)"
        "array_iget xs (int k mod 128) = array_get xs (k mod 128)" for xs :: "u32 list"
        using array_iget_int [of xs "k div 128"] array_iget_int [of xs "k mod 128"]
        by (simp_all add: zdiv_int zmod_int)
      have "byte_to_sector a ofs s =
          Some (index_at (dev s) (second_of s d ! (k div 128)) ! (k mod 128))"
        using assms ofs S(2) e k l2 j index_read_ok [OF assms(1) m] index_read_ok [OF assms(1) mem(3) [OF in1]]
          length_index_at [OF assms(1) mem(3) [OF in1]]
        by (simp add: byte_to_sector_def Let_def g flip: d_def)
      with 3 show ?thesis by (simp add: blk_def k_def)
    qed
  qed
  with i show ?thesis by (auto simp: dblocks_def d_def [symmetric] i_def [symmetric] n_def [symmetric])
qed

section \<open>Transfers\<close>

lemma chunk_of_eq:
  assumes "0 \<le> ofs" "ofs < len" "len < 2 ^ 31"
  shows "chunk_of len ofs sz =
    (ofs mod 512, 512 - ofs mod 512, min sz (min (len - ofs) (512 - ofs mod 512)))"
proof -
  have "i32 (len - ofs) = len - ofs" using assms by simp
  then show ?thesis using assms by (auto simp: chunk_of_def Let_def)
qed

lemma same_file:
  "\<lbrakk>dev s' = dev s; inodes s' = inodes s\<rbrakk> \<Longrightarrow> dblocks s' d = dblocks s d \<and> dcontent s' d = dcontent s d"
  by (simp add: dblocks_def dcontent_def)

lemma inode_ok_same:
  "\<lbrakk>dev s' = dev s; dev_size s' = dev_size s; free_map s' = free_map s\<rbrakk> \<Longrightarrow>
   inode_ok s' d = inode_ok s d \<and> disk_ok s' = disk_ok s"
  by (simp add: inode_ok_def disk_ok_def shape_def marked_def)

lemma read_step:
  assumes "disk_ok s" "inode_ok s d" "i < dsectors d" "ofs + c \<le> 512" "512 * i + ofs + c \<le> nat (flength d)"
  shows "take c (drop (512 * i + ofs) (dcontent s d)) = take c (drop ofs (dev s (dblocks s d ! i)))"
proof -
  have "take c (drop (512 * i + ofs) (dcontent s d)) = take c (drop (512 * i + ofs) (raw (dev s) (dblocks s d)))"
    using assms(5) by (simp add: dcontent_def drop_take min_def)
  also have "\<dots> = take c (drop ofs (dev s (dblocks s d ! i)))"
    using raw_slice [OF sized_blocks [OF assms(1,2)] _ assms(4)] assms(3) inode_okD(8) [OF assms(2)] by simp
  finally show ?thesis .
qed

lemma transfer_step:
  assumes "disk_ok s" "inode_ok s (data (inodes s a))" "a \<noteq> 0" "0 \<le> ofs" "ofs < inode_length a s" "0 < sz"
  obtains sec i so c where "byte_to_sector a ofs s = Some sec" "unat sec = dblocks s (data (inodes s a)) ! i"
    "i < dsectors (data (inodes s a))" "unat sec < dev_size s"
    "chunk_of (inode_length a s) ofs sz = (int so, 512 - int so, int c)"
    "0 < c" "int c \<le> sz" "so + c \<le> 512" "ofs + int c \<le> inode_length a s" "nat ofs = 512 * i + so"
proof -
  define d where "d = data (inodes s a)"
  note ok = assms(2) [folded d_def]
  define i where "i = nat ofs div 512"
  define so where "so = nat ofs mod 512"
  define c where "c = nat (min sz (min (inode_length a s - ofs) (512 - ofs mod 512)))"
  obtain sec where sec: "byte_to_sector a ofs s = Some sec" "unat sec = dblocks s d ! i" "i < dsectors d"
    using byte_to_sector_blk [OF assms(1-5)] by (auto simp: d_def i_def)
  have so: "ofs mod 512 = int so" using assms(4) by (simp add: so_def zmod_int)
  have so': "so < 512" by (simp add: so_def)
  have ci: "int c = min sz (min (inode_length a s - ofs) (512 - ofs mod 512))"
    using assms(5,6) so so' by (simp add: c_def)
  have "chunk_of (inode_length a s) ofs sz = (int so, 512 - int so, int c)"
    using chunk_of_eq [OF assms(4,5)] inode_okD(2) [OF ok] ci so by (simp add: inode_length_def d_def)
  moreover have "0 < c" "int c \<le> sz" "so + c \<le> 512" "ofs + int c \<le> inode_length a s"
    using ci so so' assms(5,6) by linarith+
  moreover have "nat ofs = 512 * i + so" by (simp add: i_def so_def)
  moreover have "unat sec < dev_size s"
    using inode_okD(8,9) [OF ok] sec marked_less by simp
  ultimately show thesis using that sec unfolding d_def by blast
qed

lemma bounce_buffer:
  assumes "\<forall>i. heap s i \<noteq> 0"
  obtains b m where "(if bounce then (1, s) else fs_malloc s) = (b, s\<lparr>heap_calls := m\<rparr>)" "b \<noteq> 0"
proof (cases bounce)
  case True
  then show thesis using that [of 1 "heap_calls s"] by simp
next
  case False
  then show thesis using assms that [of "heap s (heap_calls s)" "heap_calls s + 1"] by (simp add: fs_malloc_def)
qed

lemma read_loop_ok:
  assumes "disk_ok s" "inode_ok s (data (inodes s a))" "a \<noteq> 0" "0 \<le> ofs" "ofs < 2 ^ 31" "\<forall>i. heap s i \<noteq> 0"
  shows "\<exists>c. read_loop a sz ofs bounce buf s =
    Some (buf @ take (nat sz) (drop (nat ofs) (dcontent s (data (inodes s a)))), s\<lparr>heap_calls := c\<rparr>)"
  using assms
proof (induction "nat sz" arbitrary: sz ofs bounce buf s rule: less_induct)
  case less
  define d where "d = data (inodes s a)"
  note dok = less.prems(1) and ok = less.prems(2) [folded d_def]
  have id: "s\<lparr>heap_calls := heap_calls s\<rparr> = s" by simp
  have len: "nat (flength d) = length (dcontent s d)"
    using length_raw [OF sized_blocks [OF dok ok]] inode_okD(3,8) [OF ok] by (simp add: dcontent_def)
  consider "sz \<le> 0" | "0 < sz" "inode_length a s \<le> ofs" | "0 < sz" "ofs < inode_length a s" by linarith
  then show ?case
  proof cases
    case 1
    then show ?thesis using id by (subst read_loop.simps) (auto intro!: exI [of _ "heap_calls s"])
  next
    case 2
    then have "drop (nat ofs) (dcontent s d) = []" using len by (simp add: inode_length_def d_def)
    moreover have "\<exists>x y z. chunk_of (inode_length a s) ofs sz = (x, y, z) \<and> z \<le> 0"
      using 2 less.prems(4,5) inode_okD(1) [OF ok]
      by (simp add: chunk_of_def Let_def inode_length_def d_def)
    ultimately show ?thesis using 2 less.prems(3)
      by (subst read_loop.simps) (auto simp: byte_to_sector_def d_def intro!: exI [of _ "heap_calls s"])
  next
    case 3
    obtain sec i so c where sec: "byte_to_sector a ofs s = Some sec" "unat sec = dblocks s d ! i" "i < dsectors d"
        "unat sec < dev_size s"
      and ch: "chunk_of (inode_length a s) ofs sz = (int so, 512 - int so, int c)"
      and c0: "0 < c" "int c \<le> sz" "so + c \<le> 512" "ofs + int c \<le> inode_length a s" "nat ofs = 512 * i + so"
      using transfer_step [OF dok less.prems(2,3,4) 3(2,1)] unfolding d_def by metis
    have rd: "sector_read s sec = Some (dev s (dblocks s d ! i))"
      using sec by (simp add: sector_read_def)
    have piece: "take c (drop (nat ofs) (dcontent s d)) = take c (drop so (dev s (dblocks s d ! i)))"
      using read_step [OF dok ok sec(3), of so c] c0 less.prems(4) by (simp add: inode_length_def d_def)
    have split: "take (nat sz) (drop (nat ofs) (dcontent s d)) =
        take c (drop so (dev s (dblocks s d ! i))) @ take (nat (sz - int c)) (drop (nat (ofs + int c)) (dcontent s d))"
      using c0 less.prems(4) piece take_add [of c "nat (sz - int c)" "drop (nat ofs) (dcontent s d)"]
      by (simp add: nat_add_distrib nat_diff_distrib add.commute)
    have ih: "\<exists>k. read_loop a (sz - int c) (ofs + int c) b (buf @ take c (drop so (dev s (dblocks s d ! i)))) s' =
        Some (buf @ take (nat sz) (drop (nat ofs) (dcontent s d)), s\<lparr>heap_calls := k\<rparr>)"
      if "s' = s\<lparr>heap_calls := m\<rparr>" for b s' m
    proof -
      have "dcontent s' d = dcontent s d" "data (inodes s' a) = d" "disk_ok s'" "inode_ok s' d" "\<forall>i. heap s' i \<noteq> 0"
        using that same_file [of s' s] inode_ok_same [of s' s] dok ok less.prems(6) by (simp_all add: d_def)
      moreover have "nat (sz - int c) < nat sz" "0 \<le> ofs + int c" "ofs + int c < 2 ^ 31"
        using c0 less.prems(4) inode_okD(2) [OF ok] by (simp_all add: inode_length_def d_def)
      ultimately show ?thesis
        using less.hyps [of "sz - int c" s' "ofs + int c" b "buf @ take c (drop so (dev s (dblocks s d ! i)))"]
          less.prems(3) that by (auto simp: split)
    qed
    have full: "so = 0 \<Longrightarrow> c = 512 \<Longrightarrow> take c (drop so (dev s (dblocks s d ! i))) = dev s (dblocks s d ! i)"
      using sized_blocks [OF dok ok] sec(3) inode_okD(8) [OF ok] by (simp add: sized_def)
    show ?thesis
    proof (cases "so = 0 \<and> c = 512")
      case True
      then show ?thesis using 3 sec ch c0 rd ih [of s "heap_calls s"] full
        by (subst read_loop.simps) (simp flip: d_def)
    next
      case False
      obtain b m where bm: "(if bounce then (1, s) else fs_malloc s) = (b, s\<lparr>heap_calls := m\<rparr>)" "b \<noteq> 0"
        by (rule bounce_buffer [OF less.prems(6)])
      have "sector_read (s\<lparr>heap_calls := m\<rparr>) sec = Some (dev s (dblocks s d ! i))"
        using sec by (simp add: sector_read_def)
      then show ?thesis using 3 sec ch c0 False ih [OF refl, of True m] bm
        by (subst read_loop.simps) (auto simp flip: d_def)
    qed
  qed
qed

text \<open>An inode keeps its sectors as long as its index blocks keep their content.\<close>

lemma tree_cong:
  assumes "\<forall>x \<in> set (idx p (index_at D (p ! 11)) False n). D' x = D x" "n \<le> max_blocks"
    "138 < n \<longrightarrow> length (index_at D (p ! 11)) = 128"
  shows "blks D' p (index_at D' (p ! 11)) n = blks D p (index_at D (p ! 11)) n"
    "idx p (index_at D' (p ! 11)) False n = idx p (index_at D (p ! 11)) False n"
proof -
  have sa: "index_at D' (p ! 11) = index_at D (p ! 11)" if "138 < n"
    using assms(1) that by (auto simp: idx_def index_at_def)
  then show "idx p (index_at D' (p ! 11)) False n = idx p (index_at D (p ! 11)) False n"
    by (cases "138 < n") (auto simp: idx_def)
  show "blks D' p (index_at D' (p ! 11)) n = blks D p (index_at D (p ! 11)) n"
  proof (cases "138 < n")
    case True
    with sa assms show ?thesis by (metis blks_cong)
  next
    case False
    have "D' (unat (p ! 10)) = D (unat (p ! 10))" if "10 < n"
      using assms(1) that by (auto simp: idx_def)
    with False show ?thesis by (auto simp: blk_def index_at_def)
  qed
qed

lemma inode_ok_frame:
  assumes "inode_ok s d" "\<forall>x \<in> set (dindex s d). dev s' x = dev s x"
    "\<forall>x \<in> set (dblocks s d) \<union> set (dindex s d). marked s' x"
  shows "inode_ok s' d" "dblocks s' d = dblocks s d" "dindex s' d = dindex s d"
proof -
  have sh: "shape s d (second_of s d) False (dsectors d)" using assms(1) by (simp add: inode_ok_def)
  have l: "138 < dsectors d \<longrightarrow> length (second_of s d) = 128" using shapeD(6) [OF sh] by blast
  note T = tree_cong [OF assms(2) [unfolded dindex_def] shapeD(1) [OF sh] l]
  show b: "dblocks s' d = dblocks s d" and i: "dindex s' d = dindex s d"
    using T by (simp_all add: dblocks_def dindex_def)
  have "138 < dsectors d \<longrightarrow> length (second_of s' d) = 128"
  proof
    assume "138 < dsectors d"
    then have "unat (ptr d ! 11) \<in> set (dindex s d)" by (simp add: dindex_def idx_def)
    with assms(2) l \<open>138 < dsectors d\<close> show "length (second_of s' d) = 128" by (simp add: index_at_def)
  qed
  moreover have "distinct (dblocks s' d @ dindex s' d)"
    using inode_okD(5-7) [OF assms(1)] by (simp add: b i)
  moreover have "\<forall>x \<in> set (dblocks s' d @ dindex s' d). marked s' x" using assms(3) by (simp add: b i)
  ultimately show "inode_ok s' d"
    using inode_okD(1,2) [OF assms(1)] sh unfolding inode_ok_def shape_def dblocks_def dindex_def by simp
qed

definition rewritten :: "nat set \<Rightarrow> (nat \<Rightarrow> u8 list) \<Rightarrow> (nat \<Rightarrow> u8 list) \<Rightarrow> bool" where
  "rewritten X D D' \<longleftrightarrow> (\<forall>x. x \<notin> X \<longrightarrow> D' x = D x) \<and> (\<forall>x. length (D' x) = length (D x))"

lemma rewritten_file:
  assumes "disk_ok s" "inode_ok s d" "rewritten (set (dblocks s d)) (dev s) (dev s')"
    "dev_size s' = dev_size s" "free_map s' = free_map s"
  shows "disk_ok s'" "inode_ok s' d" "dblocks s' d = dblocks s d" "dindex s' d = dindex s d"
proof -
  show "disk_ok s'" using assms by (simp add: disk_ok_def rewritten_def)
  have "\<forall>x \<in> set (dindex s d). dev s' x = dev s x"
    using assms(3) inode_okD(7) [OF assms(2)] by (auto simp: rewritten_def)
  moreover have "\<forall>x \<in> set (dblocks s d) \<union> set (dindex s d). marked s' x"
    using inode_okD(9,10) [OF assms(2)] assms(4,5) by (auto simp: marked_def)
  ultimately show "inode_ok s' d" "dblocks s' d = dblocks s d" "dindex s' d = dindex s d"
    using inode_ok_frame [OF assms(2)] by blast+
qed

lemma write_step:
  assumes "disk_ok s" "inode_ok s d" "i < dsectors d" "so + length ys \<le> 512"
  defines "D' \<equiv> (dev s)(dblocks s d ! i := put (dev s (dblocks s d ! i)) so ys)"
  shows "rewritten (set (dblocks s d)) (dev s) D'"
    "raw D' (dblocks s d) = put (raw (dev s) (dblocks s d)) (512 * i + so) ys"
proof -
  have i: "i < length (dblocks s d)" using assms(3) inode_okD(8) [OF assms(2)] by simp
  have "length (dev s (dblocks s d ! i)) = 512"
    using sized_blocks [OF assms(1,2)] i by (simp add: sized_def)
  then show "rewritten (set (dblocks s d)) (dev s) D'"
    using i assms(4) by (auto simp: rewritten_def D'_def)
  show "raw D' (dblocks s d) = put (raw (dev s) (dblocks s d)) (512 * i + so) ys"
    unfolding D'_def by (rule raw_update [OF inode_okD(5) [OF assms(2)] sized_blocks [OF assms(1,2)] i assms(4)])
qed

lemma write_loop_ok:
  assumes "disk_ok s" "inode_ok s (data (inodes s a))" "a \<noteq> 0" "0 \<le> ofs" "0 \<le> sz"
    "ofs + sz \<le> inode_length a s" "0 \<le> bw" "bw + sz \<le> int (length buf)" "\<forall>i. heap s i \<noteq> 0"
  shows "\<exists>D' c. write_loop a buf sz ofs bw bounce s = Some (bw + sz, s\<lparr>dev := D', heap_calls := c\<rparr>) \<and>
    rewritten (set (dblocks s (data (inodes s a)))) (dev s) D' \<and>
    raw D' (dblocks s (data (inodes s a))) =
      put (raw (dev s) (dblocks s (data (inodes s a)))) (nat ofs) (take (nat sz) (drop (nat bw) buf))"
  using assms
proof (induction "nat sz" arbitrary: sz ofs bw bounce s rule: less_induct)
  case less
  define d where "d = data (inodes s a)"
  note dok = less.prems(1) and ok = less.prems(2) [folded d_def]
  show ?case
  proof (cases "sz = 0")
    case True
    then show ?thesis
      by (subst write_loop.simps) (auto simp: rewritten_def intro!: exI [of _ "dev s"] exI [of _ "heap_calls s"])
  next
    case False
    with less.prems have 3: "0 < sz" "ofs < inode_length a s" by auto
    obtain sec i so c where sec: "byte_to_sector a ofs s = Some sec" "unat sec = dblocks s d ! i" "i < dsectors d"
        "unat sec < dev_size s"
      and ch: "chunk_of (inode_length a s) ofs sz = (int so, 512 - int so, int c)"
      and c0: "0 < c" "int c \<le> sz" "so + c \<le> 512" "ofs + int c \<le> inode_length a s" "nat ofs = 512 * i + so"
      using transfer_step [OF dok less.prems(2,3,4) 3(2,1)] unfolding d_def by metis
    define ch' where "ch' = take c (drop (nat bw) buf)"
    have lch: "length ch' = c" using less.prems(7,8) c0 by (simp add: ch'_def)
    define D1 where "D1 = (dev s)(dblocks s d ! i := put (dev s (dblocks s d ! i)) so ch')"
    have step: "rewritten (set (dblocks s d)) (dev s) D1"
      "raw D1 (dblocks s d) = put (raw (dev s) (dblocks s d)) (512 * i + so) ch'"
      using write_step [OF dok ok sec(3), of so ch'] c0 lch unfolding D1_def by auto
    have lr: "length (raw (dev s) (dblocks s d)) = 512 * dsectors d"
      using length_raw [OF sized_blocks [OF dok ok]] inode_okD(8) [OF ok] by simp
    have ih: "\<exists>D' k. write_loop a buf (sz - int c) (ofs + int c) (bw + int c) b (s\<lparr>dev := D1, heap_calls := m\<rparr>) =
        Some (bw + sz, s\<lparr>dev := D', heap_calls := k\<rparr>) \<and> rewritten (set (dblocks s d)) (dev s) D' \<and>
        raw D' (dblocks s d) = put (raw (dev s) (dblocks s d)) (nat ofs) (take (nat sz) (drop (nat bw) buf))"
      for b m
    proof -
      let ?s = "s\<lparr>dev := D1, heap_calls := m\<rparr>"
      have W: "disk_ok ?s" "inode_ok ?s d" "dblocks ?s d = dblocks s d"
        using rewritten_file [OF dok ok, of ?s] step(1) by simp_all
      have sum: "take (nat sz) (drop (nat bw) buf) =
          ch' @ take (nat (sz - int c)) (drop (nat (bw + int c)) buf)"
        using c0 less.prems(7) take_add [of c "nat (sz - int c)" "drop (nat bw) buf"]
        by (simp add: ch'_def nat_add_distrib nat_diff_distrib add.commute)
      have len: "nat ofs + length (take (nat sz) (drop (nat bw) buf)) \<le> 512 * dsectors d"
        using less.prems(4-6) inode_okD(1,3) [OF ok] by (simp add: inode_length_def d_def)
      have d': "data (inodes ?s a) = d" by (simp add: d_def)
      obtain D' k where H: "write_loop a buf (sz - int c) (ofs + int c) (bw + int c) b ?s =
          Some (bw + int c + (sz - int c), ?s\<lparr>dev := D', heap_calls := k\<rparr>)"
          "rewritten (set (dblocks s d)) D1 D'"
          "raw D' (dblocks s d) = put (raw D1 (dblocks s d)) (nat (ofs + int c))
            (take (nat (sz - int c)) (drop (nat (bw + int c)) buf))"
        using less.hyps [of "sz - int c" ?s "ofs + int c" "bw + int c" b, unfolded d' W(3)] W(1,2)
          less.prems(3-9) c0 by (auto simp: inode_length_def)
      have "rewritten (set (dblocks s d)) (dev s) D'" using H(2) step(1) by (simp add: rewritten_def)
      moreover have "nat (ofs + int c) = 512 * i + so + length ch'" using c0 less.prems(4) lch by (simp add: nat_add_distrib)
      then have "raw D' (dblocks s d) = put (raw (dev s) (dblocks s d)) (nat ofs) (take (nat sz) (drop (nat bw) buf))"
        using len c0 lr unfolding H(3) step(2) by (simp add: sum put_put)
      ultimately show ?thesis using H(1) by auto
    qed
    have buf: "bw + int c \<le> int (length buf)" using less.prems(8) c0 by simp
    have chd: "take (nat (int c)) (drop (nat bw) buf) = ch'" by (simp add: ch'_def)
    have "\<exists>b m. write_loop a buf sz ofs bw bounce s =
        write_loop a buf (sz - int c) (ofs + int c) (bw + int c) b (s\<lparr>dev := D1, heap_calls := m\<rparr>)"
    proof (cases "so = 0 \<and> c = 512")
      case True
      then have "sector_write s sec ch' = Some (s\<lparr>dev := D1, heap_calls := heap_calls s\<rparr>)"
        using sec lch sized_blocks [OF dok ok] inode_okD(8) [OF ok]
        by (simp add: sector_write_def D1_def put_all sized_def)
      then have "write_loop a buf sz ofs bw bounce s =
          write_loop a buf (sz - int c) (ofs + int c) (bw + int c) bounce (s\<lparr>dev := D1, heap_calls := heap_calls s\<rparr>)"
        using True 3(1) sec(1) ch buf chd by (subst write_loop.simps) simp
      then show ?thesis by blast
    next
      case False
      obtain b m where bm: "(if bounce then (1, s) else fs_malloc s) = (b, s\<lparr>heap_calls := m\<rparr>)" "b \<noteq> 0"
        by (rule bounce_buffer [OF less.prems(9)])
      have "(if 0 < int so \<or> int c < 512 - int so then sector_read (s\<lparr>heap_calls := m\<rparr>) sec else Some zeros) =
          Some (dev s (dblocks s d ! i))"
        using sec False c0 by (auto simp: sector_read_def)
      moreover have "sector_write (s\<lparr>heap_calls := m\<rparr>) sec (put (dev s (dblocks s d ! i)) so ch') =
          Some (s\<lparr>dev := D1, heap_calls := m\<rparr>)"
        using sec by (simp add: sector_write_def D1_def)
      ultimately have "write_loop a buf sz ofs bw bounce s =
          write_loop a buf (sz - int c) (ofs + int c) (bw + int c) True (s\<lparr>dev := D1, heap_calls := m\<rparr>)"
        using 3(1) sec(1) ch c0(1) False bm buf chd by (subst write_loop.simps) auto
      then show ?thesis by blast
    qed
    then show ?thesis using ih unfolding d_def by metis
  qed
qed

end
