(* ===== verification/FileGrow.thy ===== *)
theory FileGrow
  imports FileLayout
begin

text \<open>
  Allocation of sectors and growth of an inode.  A growing inode takes free sectors one by
  one; each allocation writes the free map to its own file.  The relation \<open>allocd\<close> says what
  a sequence of such steps may change, and the lemmas follow the levels of the inode.
\<close>

declare bitmap_write.simps(2) [simp del]

section \<open>The file system around an inode\<close>

definition map_inode :: "fs \<Rightarrow> inode_disk" where
  "map_inode s = data (inodes s (finode (files s (free_map_file s))))"

definition map_data :: "fs \<Rightarrow> nat set" where
  "map_data s = (if free_map_file s = 0 then {} else set (dblocks s (map_inode s)))"

definition map_owned :: "fs \<Rightarrow> nat set" where
  "map_owned s = (if free_map_file s = 0 then {}
     else set (dblocks s (map_inode s)) \<union> set (dindex s (map_inode s)))"

text \<open>
  The disk is well formed, memory does not run out, and the file of the free map, once it
  exists, is a well-formed inode of the right length other than \<open>a\<close>, to which writing is
  allowed.
\<close>

definition env :: "nat \<Rightarrow> fs \<Rightarrow> bool" where
  "env a s \<longleftrightarrow> disk_ok s \<and> (\<forall>i. heap s i \<noteq> 0) \<and> length (junk s) = 128 \<and>
     (free_map_file s \<noteq> 0 \<longrightarrow>
        finode (files s (free_map_file s)) \<noteq> 0 \<and> finode (files s (free_map_file s)) \<noteq> a \<and>
        deny_write_cnt (inodes s (finode (files s (free_map_file s)))) = 0 \<and>
        inode_ok s (map_inode s) \<and> flength (map_inode s) = int (byte_cnt (dev_size s)))"

lemma envD:
  assumes "env a s"
  shows "disk_ok s" "\<forall>i. heap s i \<noteq> 0" "length (junk s) = 128"
    "free_map_file s \<noteq> 0 \<Longrightarrow> inode_ok s (map_inode s)"
    "map_data s \<subseteq> map_owned s" "x \<in> map_owned s \<Longrightarrow> marked s x"
  using assms inode_okD(9,10) [of s "map_inode s"]
  by (auto simp: env_def map_owned_def map_data_def split: if_splits)

lemma dev_size_bound: "disk_ok s \<Longrightarrow> x < dev_size s \<Longrightarrow> x < 2 ^ 32"
  using bitmap_ok_bound [of "free_map s"] by (simp add: disk_ok_def)

lemma unat_sector: "disk_ok s \<Longrightarrow> x < dev_size s \<Longrightarrow> unat (word_of_nat x :: u32) = x"
  using dev_size_bound [of s x] by (simp add: unat_of_nat)

text \<open>Writing the free map succeeds and changes nothing but the data of its file.\<close>

lemma map_write_ok:
  assumes "env a s" "free_map_file s \<noteq> 0"
  shows "\<exists>D' c. bitmap_write (Suc n) s = Some (True, s\<lparr>dev := D', heap_calls := c\<rparr>) \<and>
    rewritten (map_data s) (dev s) D' \<and>
    take (byte_cnt (dev_size s)) (raw D' (dblocks s (map_inode s))) =
      take (byte_cnt (dev_size s)) (bytes_of (bits (free_map s)))"
proof -
  define f where "f = finode (files s (free_map_file s))"
  have f: "f \<noteq> 0" "deny_write_cnt (inodes s f) = 0" "inode_ok s (data (inodes s f))"
    "inode_length f s = int (byte_cnt (dev_size s))"
    using assms by (auto simp: env_def map_inode_def inode_length_def f_def)
  define sz where "sz = byte_cnt (dev_size s)"
  have sz: "int sz < 2 ^ 31 - 511" using inode_okD(2) [OF f(3)] f(4) by (simp add: sz_def inode_length_def)
  have dok: "disk_ok s" using envD(1) [OF assms(1)] .
  then have cnt: "bit_cnt (free_map s) = dev_size s" "elem_cnt (dev_size s) \<le> length (bits (free_map s))"
    by (auto simp: disk_ok_def bitmap_ok_def)
  have "4 * elem_cnt (dev_size s) < 2 ^ 32"
    using dok by (simp add: disk_ok_def bitmap_ok_def elem_cnt_eq) linarith
  then have len: "sz \<le> length (bytes_of (bits (free_map s)))"
    using cnt(2) by (simp add: sz_def byte_cnt_def)
  obtain D' c where W: "write_loop f (bytes_of (bits (free_map s))) (int sz) 0 0 False s =
      Some (int sz, s\<lparr>dev := D', heap_calls := c\<rparr>)"
      "rewritten (set (dblocks s (data (inodes s f)))) (dev s) D'"
      "raw D' (dblocks s (data (inodes s f))) =
        put (raw (dev s) (dblocks s (data (inodes s f)))) 0 (take sz (bytes_of (bits (free_map s))))"
    using write_loop_ok [OF dok f(3,1), of 0 "int sz" 0 "bytes_of (bits (free_map s))" False]
      envD(2) [OF assms(1)] f(4) len by (auto simp: sz_def)
  have i: "i32 (int sz) = int sz" using sz by simp
  have "bitmap_write (Suc n) s = Some (True, s\<lparr>dev := D', heap_calls := c\<rparr>)"
    using W(1) f assms(2) i cnt(1)
    by (simp add: bitmap_write.simps(2) file_write_at_def inode_write_at_def f_def [symmetric] sz_def [symmetric])
  moreover have "take sz (put xs 0 (take sz (bytes_of (bits (free_map s))))) = take sz (bytes_of (bits (free_map s)))" for xs
    using len by (simp add: put_def)
  ultimately show ?thesis
    using W(2,3) assms(2) by (auto simp: map_data_def map_inode_def f_def [symmetric] sz_def)
qed

section \<open>Steps of allocation\<close>

text \<open>
  From \<open>s\<close> to \<open>s'\<close> exactly the sectors \<open>X\<close> were taken from the free ones; of the sectors in use
  at most those in \<open>W\<close> and the data of the free map were rewritten; in memory only the data
  of inode \<open>a\<close> may differ.
\<close>

definition allocd :: "nat \<Rightarrow> fs \<Rightarrow> nat set \<Rightarrow> nat set \<Rightarrow> fs \<Rightarrow> bool" where
  "allocd a s X W s' \<longleftrightarrow> dev_size s' = dev_size s \<and> open_inodes s' = open_inodes s \<and>
     files s' = files s \<and> free_map_file s' = free_map_file s \<and> heap s' = heap s \<and> junk s' = junk s \<and>
     FREE_MAP_SECTOR s' = FREE_MAP_SECTOR s \<and> ROOT_DIR_SECTOR s' = ROOT_DIR_SECTOR s \<and>
     (\<forall>b. b \<noteq> a \<longrightarrow> inodes s' b = inodes s b) \<and>
     (inodes s' a)\<lparr>data := data (inodes s a)\<rparr> = inodes s a \<and>
     env a s' \<and> map_owned s' = map_owned s \<and> map_data s' = map_data s \<and>
     (\<forall>x. marked s' x \<longleftrightarrow> marked s x \<or> x \<in> X) \<and>
     (\<forall>x \<in> X. x < dev_size s \<and> \<not> marked s x) \<and>
     (\<forall>y. marked s y \<and> y \<notin> map_data s \<and> y \<notin> W \<longrightarrow> dev s' y = dev s y)"

lemma allocdD:
  assumes "allocd a s X W s'"
  shows "dev_size s' = dev_size s" "junk s' = junk s" "env a s'" "map_owned s' = map_owned s"
    "map_data s' = map_data s" "marked s' x \<longleftrightarrow> marked s x \<or> x \<in> X" "x \<in> X \<Longrightarrow> x < dev_size s \<and> \<not> marked s x"
    "\<lbrakk>marked s y; y \<notin> map_data s; y \<notin> W\<rbrakk> \<Longrightarrow> dev s' y = dev s y"
  using assms unfolding allocd_def by blast+

lemma allocd_refl: "env a s \<Longrightarrow> allocd a s {} {} s"
  by (simp add: allocd_def)

lemma allocd_trans:
  assumes "allocd a s X W s1" "allocd a s1 Y V s2" "W \<union> (V - X) \<subseteq> U"
  shows "allocd a s (X \<union> Y) U s2"
proof -
  have "(inodes s2 a)\<lparr>data := data (inodes s a)\<rparr> = inodes s a"
    using assms(1,2) unfolding allocd_def by (metis inode.surjective inode.update_convs(5))
  moreover have "dev s2 y = dev s y" if "marked s y" "y \<notin> map_data s" "y \<notin> U" for y
  proof -
    have "y \<notin> X" using assms(1) that(1) by (auto simp: allocd_def)
    moreover have "dev s1 y = dev s y" using assms(1,3) that by (auto simp: allocd_def)
    moreover have "marked s1 y" "map_data s1 = map_data s" using assms(1) that(1) by (auto simp: allocd_def)
    ultimately show ?thesis using assms(2,3) that by (auto simp: allocd_def)
  qed
  ultimately show ?thesis using assms(1,2) unfolding allocd_def by auto
qed

lemma allocd_data:
  assumes "env a s"
  shows "allocd a s {} {} (upd_data a f s)"
proof -
  let ?s = "upd_data a f s"
  have same: "map_inode ?s = map_inode s \<and> dblocks ?s d = dblocks s d \<and> dindex ?s d = dindex s d"
    if "free_map_file s \<noteq> 0" for d
    using assms that by (simp add: env_def map_inode_def dblocks_def dindex_def)
  have "inode_ok ?s d = inode_ok s d \<and> disk_ok ?s = disk_ok s" for d
    by (rule inode_ok_same) simp_all
  with same assms show ?thesis
    by (auto simp: allocd_def env_def map_owned_def map_data_def marked_def)
qed

lemma map_frame:
  assumes "env a s" "dev_size s' = dev_size s" "files s' = files s" "free_map_file s' = free_map_file s"
    "heap s' = heap s" "junk s' = junk s" "inodes s' = inodes s"
    "disk_ok s'" "\<forall>x \<in> map_owned s. marked s' x" "\<forall>x \<in> map_owned s - map_data s. dev s' x = dev s x"
  shows "env a s'" "map_owned s' = map_owned s" "map_data s' = map_data s"
proof -
  have mi: "map_inode s' = map_inode s" using assms by (simp add: map_inode_def)
  have F: "inode_ok s' (map_inode s)" "dblocks s' (map_inode s) = dblocks s (map_inode s)"
    "dindex s' (map_inode s) = dindex s (map_inode s)" if "free_map_file s \<noteq> 0"
  proof -
    note ok = envD(4) [OF assms(1) that]
    have "\<forall>x \<in> set (dindex s (map_inode s)). dev s' x = dev s x"
      using assms(10) inode_okD(7) [OF ok] that by (auto simp: map_owned_def map_data_def)
    moreover have "\<forall>x \<in> set (dblocks s (map_inode s)) \<union> set (dindex s (map_inode s)). marked s' x"
      using assms(9) that by (auto simp: map_owned_def)
    ultimately show "inode_ok s' (map_inode s)" "dblocks s' (map_inode s) = dblocks s (map_inode s)"
      "dindex s' (map_inode s) = dindex s (map_inode s)"
      using inode_ok_frame [OF ok] by blast+
  qed
  show "env a s'" using assms F(1) mi unfolding env_def by auto
  show "map_owned s' = map_owned s" "map_data s' = map_data s"
    using F mi assms(4) by (auto simp: map_owned_def map_data_def)
qed

lemma map_frame_allocd:
  assumes "env a s" "s' = s\<lparr>free_map := b, dev := D', heap_calls := c\<rparr>" "disk_ok s'"
    "\<forall>x. marked s' x \<longleftrightarrow> marked s x \<or> x \<in> X" "\<forall>x \<in> X. x < dev_size s \<and> \<not> marked s x"
    "\<forall>y. marked s y \<and> y \<notin> map_data s \<and> y \<notin> W \<longrightarrow> D' y = dev s y" "W \<inter> map_owned s = {}"
  shows "allocd a s X W s'"
proof -
  have "\<forall>x \<in> map_owned s. marked s' x" using envD(6) [OF assms(1)] assms(4) by blast
  moreover have "\<forall>x \<in> map_owned s - map_data s. dev s' x = dev s x"
    using envD(6) [OF assms(1)] assms(2,6,7) by auto
  ultimately have "env a s'" "map_owned s' = map_owned s" "map_data s' = map_data s"
    using map_frame [OF assms(1), of s'] assms(2,3) by simp_all
  with assms show ?thesis by (simp add: allocd_def)
qed

lemma write_sector_ok:
  assumes "env a s" "x < dev_size s" "x \<notin> map_owned s" "length bs = 512"
  shows "sector_write s (word_of_nat x) bs = Some (s\<lparr>dev := (dev s)(x := bs)\<rparr>)"
    "allocd a s {} {x} (s\<lparr>dev := (dev s)(x := bs)\<rparr>)"
proof -
  show "sector_write s (word_of_nat x) bs = Some (s\<lparr>dev := (dev s)(x := bs)\<rparr>)"
    using unat_sector [OF envD(1) [OF assms(1)] assms(2)] assms(2) by (simp add: sector_write_def)
  let ?s = "s\<lparr>dev := (dev s)(x := bs)\<rparr>"
  have "?s = s\<lparr>free_map := free_map s, dev := (dev s)(x := bs), heap_calls := heap_calls s\<rparr>" by simp
  moreover have "disk_ok ?s" using envD(1) [OF assms(1)] assms(4) by (simp add: disk_ok_def)
  ultimately show "allocd a s {} {x} ?s"
    by (rule map_frame_allocd [OF assms(1)]) (use assms(3) in \<open>auto simp: marked_def\<close>)
qed

section \<open>Allocating one sector\<close>

lemma free_map_allocate_ok:
  assumes "env a s" "x0 < dev_size s" "\<not> marked s x0"
  shows "\<exists>x s'. free_map_allocate (bitmap_write (Suc n)) 1 s = Some (Some (word_of_nat x), s') \<and>
    x < dev_size s \<and> \<not> marked s x \<and> allocd a s {x} {} s' \<and> inodes s' = inodes s"
proof -
  have dok: "disk_ok s" using envD(1) [OF assms(1)] .
  then have bok: "bitmap_ok (free_map s)" "bit_cnt (free_map s) = dev_size s" by (auto simp: disk_ok_def)
  obtain r b where rb: "bitmap_scan_and_flip (free_map s) 0 1 False = Some (r, b)"
      "first_run (bm (free_map s)) 0 1 False r"
      "bm_result (free_map s) (if r = BITMAP_ERROR then bm (free_map s) else fill (bm (free_map s)) r 1 (\<not> False)) (Some b)"
    using bitmap_scan_and_flip_bm [OF bok(1), of 0 1 False] by auto
  have r: "r \<noteq> BITMAP_ERROR"
  proof
    assume "r = BITMAP_ERROR"
    with rb(2) have "\<not> bit_run (bm (free_map s)) x0 1 False" by (auto simp: first_run_def)
    with assms(2,3) bok(2) show False by (auto simp: bit_run_def marked_def)
  qed
  with rb(2) have run: "bit_run (bm (free_map s)) r 1 False" by (auto simp: first_run_def)
  then have rl: "r < dev_size s" "\<not> marked s r" using bok(2) by (auto simp: bit_run_def marked_def)
  have b: "bitmap_ok b" "bit_cnt b = dev_size s" "bm b = fill (bm (free_map s)) r 1 True"
    using rb(3) r bok(2) by (auto simp: bm_result_def)
  define s1 where "s1 = s\<lparr>free_map := b\<rparr>"
  have mk: "marked s1 x \<longleftrightarrow> marked s x \<or> x \<in> {r}" for x
    using rl b bok(2) by (auto simp: marked_def s1_def nth_fill)
  have dok1: "disk_ok s1" using dok b by (simp add: disk_ok_def s1_def)
  have a1: "allocd a s {r} {} s1"
    by (rule map_frame_allocd [OF assms(1), where b = b and D' = "dev s" and c = "heap_calls s"]) (use mk rl dok1 in \<open>auto simp: s1_def\<close>)
  show ?thesis
  proof (cases "free_map_file s = 0")
    case True
    then show ?thesis using rb(1) r a1 rl by (auto simp: free_map_allocate_def s1_def)
  next
    case False
    then have f1: "free_map_file s1 \<noteq> 0" by (simp add: s1_def)
    obtain D' c where w: "bitmap_write (Suc n) s1 = Some (True, s1\<lparr>dev := D', heap_calls := c\<rparr>)"
        "rewritten (map_data s1) (dev s1) D'"
      using map_write_ok [OF allocdD(3) [OF a1] f1] by blast
    let ?s2 = "s1\<lparr>dev := D', heap_calls := c\<rparr>"
    have "?s2 = s1\<lparr>free_map := free_map s1, dev := D', heap_calls := c\<rparr>" by simp
    moreover have "disk_ok ?s2" using dok1 w(2) by (simp add: disk_ok_def rewritten_def)
    ultimately have a2: "allocd a s1 {} {} ?s2"
      by (rule map_frame_allocd [OF allocdD(3) [OF a1]]) (use w(2) in \<open>auto simp: marked_def rewritten_def\<close>)
    have "allocd a s {r} {} ?s2" using allocd_trans [OF a1 a2] by simp
    moreover have "free_map_allocate (bitmap_write (Suc n)) 1 s = Some (Some (word_of_nat r), ?s2)"
      using rb(1) r False w(1) by (simp add: free_map_allocate_def s1_def [symmetric])
    ultimately show ?thesis using rl by (auto simp: s1_def)
  qed
qed

section \<open>The allocation loops\<close>

definition free_cnt :: "fs \<Rightarrow> nat" where
  "free_cnt s = card {x. x < dev_size s \<and> \<not> marked s x}"

lemma free_exists: "0 < free_cnt s \<Longrightarrow> \<exists>x < dev_size s. \<not> marked s x"
  by (auto simp: free_cnt_def card_gt_0_iff)

lemma allocd_free_cnt: "allocd a s X W s' \<Longrightarrow> free_cnt s' + card X = free_cnt s"
proof -
  assume A: "allocd a s X W s'"
  have "{x. x < dev_size s \<and> \<not> marked s x} = {x. x < dev_size s' \<and> \<not> marked s' x} \<union> X"
    using allocdD(1,6,7) [OF A] by auto
  moreover have "{x. x < dev_size s' \<and> \<not> marked s' x} \<inter> X = {}" using allocdD(6) [OF A] by auto
  moreover have "finite X" using allocdD(7) [OF A] by (auto intro: finite_subset [of X "{..<dev_size s}"])
  ultimately show ?thesis by (simp add: free_cnt_def card_Un_disjoint)
qed

lemma put_Cons: "i < length xs \<Longrightarrow> put (xs[i := y]) (Suc i) ys = put xs i (y # ys)"
  by (simp add: put_def take_Suc_conv_app_nth)

text \<open>One iteration: take a free sector and fill it with zeros.\<close>

lemma alloc_zeroed:
  assumes "env a s" "0 < free_cnt s"
  obtains x s1 where "free_map_allocate (bitmap_write (Suc n)) 1 s = Some (Some (word_of_nat x), s1)"
    "x < dev_size s" "\<not> marked s x" "allocd a s {x} {} s1" "inodes s1 = inodes s" "x \<notin> map_owned s"
    "\<And>s2. allocd a s1 {} {} s2 \<Longrightarrow> sector_write s2 (word_of_nat x) zeros = Some (s2\<lparr>dev := (dev s2)(x := zeros)\<rparr>) \<and>
       allocd a s {x} {} (s2\<lparr>dev := (dev s2)(x := zeros)\<rparr>)"
proof -
  obtain x0 where "x0 < dev_size s" "\<not> marked s x0" using free_exists [OF assms(2)] by blast
  from free_map_allocate_ok [OF assms(1) this, of n] obtain x s1
    where *: "free_map_allocate (bitmap_write (Suc n)) 1 s = Some (Some (word_of_nat x), s1)"
      "x < dev_size s" "\<not> marked s x" "allocd a s {x} {} s1" "inodes s1 = inodes s" by blast
  have x: "x \<notin> map_owned s" using envD(6) [OF assms(1)] *(3) by blast
  have "sector_write s2 (word_of_nat x) zeros = Some (s2\<lparr>dev := (dev s2)(x := zeros)\<rparr>) \<and>
       allocd a s {x} {} (s2\<lparr>dev := (dev s2)(x := zeros)\<rparr>)" if s2: "allocd a s1 {} {} s2" for s2
  proof -
    have A: "allocd a s {x} {} s2" using allocd_trans [OF *(4) s2, of "{}"] by simp
    have "x < dev_size s2" "x \<notin> map_owned s2" using allocdD(1,4) [OF A] *(2) x by auto
    note W = write_sector_ok [OF allocdD(3) [OF A] this, of zeros]
    have "allocd a s ({x} \<union> {}) {} (s2\<lparr>dev := (dev s2)(x := zeros)\<rparr>)"
      by (rule allocd_trans [OF A W(2)]) (simp_all add: zeros_def)
    then show ?thesis using W(1) by (simp add: zeros_def)
  qed
  with * x show thesis using that by blast
qed

text \<open>What a run of such iterations does with the new sectors \<open>xs\<close>.\<close>

definition zeroed :: "nat \<Rightarrow> fs \<Rightarrow> nat list \<Rightarrow> fs \<Rightarrow> bool" where
  "zeroed a s xs s' \<longleftrightarrow> distinct xs \<and> allocd a s (set xs) {} s' \<and> (\<forall>x \<in> set xs. dev s' x = zeros)"

lemma zeroed_Nil: "env a s \<Longrightarrow> zeroed a s [] s"
  by (simp add: zeroed_def allocd_refl)

lemma zeroed_Cons:
  assumes "env a s" "allocd a s {x} {} s1" "dev s1 x = zeros" "zeroed a s1 xs s'"
  shows "zeroed a s (x # xs) s'"
proof -
  have A: "allocd a s1 (set xs) {} s'" using assms(4) by (simp add: zeroed_def)
  have x: "\<not> marked s x" "marked s1 x" using allocdD(6,7) [OF assms(2)] by auto
  have "x \<notin> set xs" using allocdD(7) [OF A] x(2) by blast
  moreover have "x \<notin> map_data s1"
    using x(1) envD(5,6) [OF assms(1)] allocdD(5) [OF assms(2)] by auto
  then have "dev s' x = zeros" using allocdD(8) [OF A x(2)] assms(3) by simp
  moreover have "allocd a s (set (x # xs)) {} s'" using allocd_trans [OF assms(2) A, of "{}"] by simp
  ultimately show ?thesis using assms(4) by (simp add: zeroed_def)
qed

lemma fill_loop_ok:
  assumes "env a s" "length ps = 128" "index \<le> 128" "min (128 - index) sectors \<le> free_cnt s"
  shows "\<exists>xs s'. fill_loop (bitmap_write (Suc n)) ps index sectors s =
      Some (put ps index (map word_of_nat xs), index + length xs, sectors - length xs, s') \<and>
    length xs = min (128 - index) sectors \<and> zeroed a s xs s' \<and> inodes s' = inodes s"
  using assms
proof (induction sectors arbitrary: ps index s)
  case 0
  then show ?case by (subst fill_loop.simps) (auto simp: zeroed_Nil intro!: exI [of _ "[]"])
next
  case (Suc k)
  show ?case
  proof (cases "index < 128")
    case False
    with Suc.prems show ?thesis
      by (subst fill_loop.simps) (auto simp: zeroed_Nil intro!: exI [of _ "[]"])
  next
    case True
    then have "0 < free_cnt s" using Suc.prems(4) by simp
    then obtain x s1 where x: "free_map_allocate (bitmap_write (Suc n)) 1 s = Some (Some (word_of_nat x), s1)"
      "allocd a s {x} {} s1" "inodes s1 = inodes s"
      "\<And>s2. allocd a s1 {} {} s2 \<Longrightarrow> sector_write s2 (word_of_nat x) zeros = Some (s2\<lparr>dev := (dev s2)(x := zeros)\<rparr>) \<and>
         allocd a s {x} {} (s2\<lparr>dev := (dev s2)(x := zeros)\<rparr>)"
      using alloc_zeroed [OF Suc.prems(1)] by metis
    define s2 where "s2 = s1\<lparr>dev := (dev s1)(x := zeros)\<rparr>"
    have w: "sector_write s1 (word_of_nat x) zeros = Some s2" "allocd a s {x} {} s2"
      using x(4) [OF allocd_refl [OF allocdD(3) [OF x(2)]]] by (simp_all add: s2_def)
    have l: "length (ps[index := word_of_nat x]) = 128" "Suc index \<le> 128" using Suc.prems(2) True by auto
    have "min (128 - Suc index) k \<le> free_cnt s2"
      using allocd_free_cnt [OF w(2)] Suc.prems(4) True by simp
    from Suc.IH [OF allocdD(3) [OF w(2)] l this]
    obtain xs s' where ih: "fill_loop (bitmap_write (Suc n)) (ps[index := word_of_nat x]) (Suc index) k s2 =
        Some (put (ps[index := word_of_nat x]) (Suc index) (map word_of_nat xs), Suc index + length xs, k - length xs, s')"
      "length xs = min (128 - Suc index) k" "zeroed a s2 xs s'" "inodes s' = inodes s2" by blast
    have "zeroed a s (x # xs) s'" using zeroed_Cons [OF Suc.prems(1) w(2) _ ih(3)] by (simp add: s2_def)
    then show ?thesis
      using True Suc.prems(2) x(1,3) w(1) ih
      by (subst fill_loop.simps) (auto simp: put_Cons s2_def intro!: exI [of _ "x # xs"])
  qed
qed

lemma direct_loop_ok:
  assumes "env a s" "length (ptr (data (inodes s a))) = 12" "index \<le> 10"
    "min (10 - index) sectors \<le> free_cnt s"
  shows "\<exists>xs s'. direct_loop (bitmap_write (Suc n)) a index sectors s =
      Some (index + length xs, sectors - length xs, s') \<and>
    length xs = min (10 - index) sectors \<and> zeroed a s xs s' \<and>
    inodes s' = (inodes s)(a := (inodes s a)\<lparr>data := (data (inodes s a))
      \<lparr>ptr := put (ptr (data (inodes s a))) index (map word_of_nat xs)\<rparr>\<rparr>)"
  using assms
proof (induction sectors arbitrary: index s)
  case 0
  then show ?case by (subst direct_loop.simps) (auto simp: zeroed_Nil intro!: exI [of _ "[]"])
next
  case (Suc k)
  show ?case
  proof (cases "index < 10")
    case False
    with Suc.prems show ?thesis
      by (subst direct_loop.simps) (auto simp: zeroed_Nil intro!: exI [of _ "[]"])
  next
    case True
    then have "0 < free_cnt s" using Suc.prems(4) by simp
    then obtain x s1 where x: "free_map_allocate (bitmap_write (Suc n)) 1 s = Some (Some (word_of_nat x), s1)"
      "allocd a s {x} {} s1" "inodes s1 = inodes s"
      "\<And>s2. allocd a s1 {} {} s2 \<Longrightarrow> sector_write s2 (word_of_nat x) zeros = Some (s2\<lparr>dev := (dev s2)(x := zeros)\<rparr>) \<and>
         allocd a s {x} {} (s2\<lparr>dev := (dev s2)(x := zeros)\<rparr>)"
      using alloc_zeroed [OF Suc.prems(1)] by metis
    define s2 where "s2 = upd_data a (\<lambda>d. d\<lparr>ptr := (ptr d)[index := word_of_nat x]\<rparr>) s1"
    define s3 where "s3 = s2\<lparr>dev := (dev s2)(x := zeros)\<rparr>"
    have w: "sector_write s2 (word_of_nat x) zeros = Some s3" "allocd a s {x} {} s3"
      using x(4) [OF allocd_data [OF allocdD(3) [OF x(2)]]] by (simp_all add: s2_def s3_def)
    have p: "ptr (data (inodes s3 a)) = (ptr (data (inodes s a)))[index := word_of_nat x]"
      by (simp add: s3_def s2_def x(3))
    have l: "length (ptr (data (inodes s3 a))) = 12" "Suc index \<le> 10" using p Suc.prems(2) True by auto
    have "min (10 - Suc index) k \<le> free_cnt s3"
      using allocd_free_cnt [OF w(2)] Suc.prems(4) True by simp
    from Suc.IH [OF allocdD(3) [OF w(2)] l this]
    obtain xs s' where ih: "direct_loop (bitmap_write (Suc n)) a (Suc index) k s3 =
        Some (Suc index + length xs, k - length xs, s')"
      "length xs = min (10 - Suc index) k" "zeroed a s3 xs s'"
      "inodes s' = (inodes s3)(a := (inodes s3 a)\<lparr>data := (data (inodes s3 a))
        \<lparr>ptr := put (ptr (data (inodes s3 a))) (Suc index) (map word_of_nat xs)\<rparr>\<rparr>)" by blast
    have "zeroed a s (x # xs) s'" using zeroed_Cons [OF Suc.prems(1) w(2) _ ih(3)] by (simp add: s3_def)
    moreover have "inodes s' = (inodes s)(a := (inodes s a)\<lparr>data := (data (inodes s a))
        \<lparr>ptr := put (ptr (data (inodes s a))) index (map word_of_nat (x # xs))\<rparr>\<rparr>)"
      unfolding ih(4) p using True Suc.prems(2) by (simp add: s3_def s2_def x(3) put_Cons)
    moreover have "direct_loop (bitmap_write (Suc n)) a index (Suc k) s =
        direct_loop (bitmap_write (Suc n)) a (Suc index) k s3"
      using True Suc.prems(2) x(1,3) w(1) by (subst direct_loop.simps) (simp flip: s2_def, simp add: s2_def)
    ultimately show ?thesis using ih(1,2) True by (auto intro!: exI [of _ "x # xs"])
  qed
qed

end
