(* ===== verification/FileExtend.thy ===== *)
theory FileExtend
  imports FileGrow
begin

text \<open>
  Growth of an inode through its levels: the direct pointers, the indirect block and the
  doubly indirect block.  The result is that \<open>inode_grow\<close> appends sectors full of zeros to
  the file and leaves its old sectors, and every sector of another file, as they were.
\<close>

section \<open>Partial trees\<close>

text \<open>
  \<open>owns a s p sa e n n'\<close>: the pointers \<open>p\<close> and the doubly indirect block \<open>sa\<close> name \<open>n\<close> blocks
  and the index blocks for \<open>n'\<close> blocks, all of them different, in use and not part of the
  free map.  With \<open>e\<close> the doubly indirect block exists although it may still be empty.
\<close>

definition owns :: "nat \<Rightarrow> fs \<Rightarrow> u32 list \<Rightarrow> u32 list \<Rightarrow> bool \<Rightarrow> nat \<Rightarrow> nat \<Rightarrow> bool" where
  "owns a s p sa e n n' \<longleftrightarrow> env a s \<and> length p = 12 \<and> n \<le> n' \<and> n' \<le> max_blocks \<and>
     (e \<or> 138 < n' \<longrightarrow> length sa = 128) \<and>
     distinct (blks (dev s) p sa n @ idx p sa e n') \<and>
     (\<forall>x \<in> set (blks (dev s) p sa n @ idx p sa e n'). marked s x \<and> x \<notin> map_owned s)"

lemma ownsD:
  assumes "owns a s p sa e n n'"
  shows "env a s" "length p = 12" "n \<le> n'" "n' \<le> max_blocks" "e \<or> 138 < n' \<Longrightarrow> length sa = 128"
    "distinct (blks (dev s) p sa n)" "distinct (idx p sa e n')"
    "set (blks (dev s) p sa n) \<inter> set (idx p sa e n') = {}"
    "\<And>x. x \<in> set (blks (dev s) p sa n) \<Longrightarrow> marked s x \<and> x \<notin> map_owned s"
    "\<And>x. x \<in> set (idx p sa e n') \<Longrightarrow> marked s x \<and> x \<notin> map_owned s"
  using assms unfolding owns_def distinct_append set_append ball_Un by blast+

lemma ownsI:
  assumes "env a s" "length p = 12" "n \<le> n'" "n' \<le> max_blocks" "e \<or> 138 < n' \<longrightarrow> length sa = 128"
    "distinct (blks (dev s) p sa n)" "distinct (idx p sa e n')"
    "set (blks (dev s) p sa n) \<inter> set (idx p sa e n') = {}"
    "\<forall>x \<in> set (blks (dev s) p sa n) \<union> set (idx p sa e n'). marked s x \<and> x \<notin> map_owned s"
  shows "owns a s p sa e n n'"
  using assms unfolding owns_def distinct_append set_append by blast

lemma blk_cong':
  assumes "10 < n \<Longrightarrow> D' (unat (p ! 10)) = D (unat (p ! 10))" "i < n"
    "\<And>j. j < inner_cnt n \<Longrightarrow> D' (unat (sa ! j)) = D (unat (sa ! j))"
  shows "blk D' p sa i = blk D p sa i"
proof -
  consider "i < 10" | "10 \<le> i" "i < 138" | "138 \<le> i" by fastforce
  then show ?thesis
  proof cases
    case 3
    then show ?thesis using assms(3) inner_less [OF 3 assms(2)] by (simp add: blk_def index_at_def)
  qed (use assms in \<open>simp_all add: blk_def index_at_def\<close>)
qed

lemma owns_frame:
  assumes "owns a s p sa e n n'" "allocd a s X W s'" "W \<inter> set (idx p sa e n') = {}"
  shows "blks (dev s') p sa n = blks (dev s) p sa n"
    "\<forall>x \<in> set (blks (dev s) p sa n) \<union> set (idx p sa e n'). marked s' x \<and> x \<notin> map_owned s'"
proof -
  note O = ownsD [OF assms(1)]
  have same: "dev s' x = dev s x" if "x \<in> set (idx p sa e n')" for x
    using allocdD(8) [OF assms(2)] O(10) [OF that] envD(5) [OF O(1)] assms(3) that by blast
  have len: "length sa = 128 \<or> n' \<le> 138" using O(5) by linarith
  note mem = idx_members [OF O(2) len O(4), where e = e]
  have "inner_cnt n \<le> inner_cnt n'" using O(3) by (simp add: inner_cnt_def div_le_mono)
  then have "blk (dev s') p sa i = blk (dev s) p sa i" if "i < n" for i
    using that O(3) mem same by (intro blk_cong' [of n]) auto
  then show "blks (dev s') p sa n = blks (dev s) p sa n" by simp
  show "\<forall>x \<in> set (blks (dev s) p sa n) \<union> set (idx p sa e n'). marked s' x \<and> x \<notin> map_owned s'"
    using O(9,10) allocdD(4,6) [OF assms(2)] by blast
qed

text \<open>A new index block: it goes into \<open>p\<close> or into \<open>sa\<close>, where no block depends on it yet.\<close>

lemma owns_new_index:
  assumes "owns a s p sa e n n" "allocd a s {x} {} s'" "\<not> marked s x"
    and "length p' = 12" "n \<le> n'" "n' \<le> max_blocks" "e' \<or> 138 < n' \<longrightarrow> length sa' = 128"
    and "blks (dev s') p' sa' n = blks (dev s') p sa n"
    and "mset (idx p' sa' e' n') = add_mset x (mset (idx p sa e n))"
  shows "owns a s' p' sa' e' n n'"
proof -
  note O = ownsD [OF assms(1)]
  note F = owns_frame [OF assms(1,2)]
  have set_idx: "set (idx p' sa' e' n') = insert x (set (idx p sa e n))"
    using arg_cong [OF assms(9), of set_mset] by simp
  have b: "blks (dev s') p' sa' n = blks (dev s) p sa n" using F(1) assms(8) by simp
  have x: "x \<notin> set (blks (dev s) p sa n)" "x \<notin> set (idx p sa e n)" "x \<notin> map_owned s" "marked s' x"
    using O(9,10) assms(3) envD(6) [OF O(1)] allocdD(6) [OF assms(2)] by blast+
  have "distinct (x # idx p sa e n)" using O(7) x(2) by simp
  then have d: "distinct (idx p' sa' e' n')"
    using mset_eq_imp_distinct_iff [of "idx p' sa' e' n'" "x # idx p sa e n"] assms(9) by simp
  show ?thesis
    by (rule ownsI [OF allocdD(3) [OF assms(2)] assms(4-7)], unfold b set_idx)
      (use d x F(2) O(6,8) allocdD(4) [OF assms(2)] in blast)+
qed

section \<open>Filling an index block\<close>

text \<open>
  The index block that holds the pointers to the blocks from \<open>base\<close> on: the indirect block
  for \<open>base = 10\<close>, an inner block of the doubly indirect one for \<open>base = 138 + 128 * j\<close>.
\<close>

definition is_leaf :: "nat \<Rightarrow> bool" where
  "is_leaf base \<longleftrightarrow> base = 10 \<or> (\<exists>j < 128. base = 138 + 128 * j)"

definition leaf :: "u32 list \<Rightarrow> u32 list \<Rightarrow> nat \<Rightarrow> u32" where
  "leaf p sa base = (if base = 10 then p ! 10 else sa ! ((base - 138) div 128))"

lemma leaf_blk:
  assumes "is_leaf base" "base \<le> i" "i < base + 128"
  shows "blk D p sa i = unat (index_at D (leaf p sa base) ! (i - base))"
proof (cases "base = 10")
  case False
  then obtain j where j: "base = 138 + 128 * j" using assms(1) by (auto simp: is_leaf_def)
  define t where "t = i - base"
  with assms(2,3) have "i = base + t" "t < 128" by simp_all
  with j show ?thesis by (simp add: blk_def leaf_def)
qed (use assms in \<open>simp add: blk_def leaf_def\<close>)

lemma leaf_idx:
  assumes "is_leaf base" "base \<le> n" "n < m" "m \<le> base + 128"
  shows "idx p sa e m = idx p sa e (Suc n)"
proof (cases "base = 10")
  case False
  then obtain j where j: "base = 138 + 128 * j" using assms(1) by (auto simp: is_leaf_def)
  have "inner_cnt m = j + 1" if "base < m" "m \<le> base + 128" for m
  proof -
    define t where "t = m - base - 1"
    with that have "m = base + 1 + t" "t < 128" by simp_all
    with j show ?thesis by (simp add: inner_cnt_def)
  qed
  then have "inner_cnt m = j + 1" "inner_cnt (Suc n) = j + 1" using assms by auto
  then show ?thesis using assms j by (simp add: idx_def)
qed (use assms in \<open>simp add: idx_def\<close>)

lemma leaf_member:
  assumes "length p = 12" "138 < Suc n \<longrightarrow> length sa = 128" "Suc n \<le> max_blocks"
    "is_leaf base" "base \<le> n" "n < base + 128"
  shows "unat (leaf p sa base) \<in> set (idx p sa e (Suc n))"
proof (cases "base = 10")
  case False
  then have b: "138 \<le> base" using assms(4) by (auto simp: is_leaf_def)
  then have "(base - 138) div 128 \<le> (n - 138) div 128" using assms(5) by (simp add: div_le_mono)
  also have "\<dots> < inner_cnt (Suc n)" using b assms(5) by (intro inner_less) auto
  finally show ?thesis
    using idx_members(3) [OF assms(1) _ assms(3), of sa] b assms(2,5) False by (simp add: leaf_def)
qed (use assms idx_members(1) [OF assms(1) _ assms(3), of sa e] in \<open>auto simp: leaf_def intro: leI\<close>)

lemma leaf_other:
  assumes "length p = 12" "138 < Suc n \<longrightarrow> length sa = 128" "Suc n \<le> max_blocks" "distinct (idx p sa e (Suc n))"
    "is_leaf base" "base \<le> n" "n < base + 128" "i < base"
    and same: "\<And>y. \<lbrakk>y \<in> set (idx p sa e (Suc n)); y \<noteq> unat (leaf p sa base)\<rbrakk> \<Longrightarrow> D' y = D y"
  shows "blk D' p sa i = blk D p sa i"
proof (cases "i < 10")
  case True
  then show ?thesis by (simp add: blk_def)
next
  case False
  then obtain j where j: "base = 138 + 128 * j" "j < 128" using assms(5,8) by (auto simp: is_leaf_def)
  have lf: "leaf p sa base = sa ! j" using j by (simp add: leaf_def)
  have len: "length sa = 128" using assms(2,6) j by simp
  have jc: "j < inner_cnt (Suc n)"
  proof -
    have "(base - 138) div 128 \<le> (n - 138) div 128" using assms(6) by (simp add: div_le_mono)
    also have "\<dots> < inner_cnt (Suc n)" using j assms(6) by (intro inner_less) auto
    finally show ?thesis using j by simp
  qed
  define us where "us = map unat (take (inner_cnt (Suc n)) sa)"
  have lus: "length us = inner_cnt (Suc n)" using inner_cnt_le [OF assms(3)] len by (simp add: us_def)
  have ius: "idx p sa e (Suc n) = unat (p ! 10) # unat (p ! 11) # us"
    using j assms(6) by (simp add: idx_def us_def)
  have nth: "us ! k = unat (sa ! k)" if "k < inner_cnt (Suc n)" for k
    using that lus by (simp add: us_def)
  have d: "unat (p ! 10) \<notin> set us" "distinct us" using assms(4) unfolding ius by auto
  show ?thesis
  proof (cases "i < 138")
    case True
    have "unat (p ! 10) \<noteq> unat (leaf p sa base)" using d(1) nth [OF jc] jc lus lf nth_mem [of j us] by metis
    then have "D' (unat (p ! 10)) = D (unat (p ! 10))" by (rule same [rotated]) (simp add: ius)
    with True False show ?thesis by (simp add: blk_def index_at_def)
  next
    case False
    define k where "k = (i - 138) div 128"
    have "k < j" using assms(8) j False by (simp add: k_def less_mult_imp_div_less)
    then have kc: "k < inner_cnt (Suc n)" using jc by simp
    have "us ! k \<noteq> us ! j" using d(2) \<open>k < j\<close> kc jc lus by (simp add: nth_eq_iff_index_eq)
    then have "unat (sa ! k) \<noteq> unat (leaf p sa base)" using nth [OF kc] nth [OF jc] lf by simp
    moreover have "unat (sa ! k) \<in> set (idx p sa e (Suc n))" using nth [OF kc] kc lus nth_mem [of k us] by (simp add: ius)
    ultimately have "D' (unat (sa ! k)) = D (unat (sa ! k))" using same by blast
    with False show ?thesis by (simp add: blk_def index_at_def k_def)
  qed
qed

lemma leaf_ext:
  assumes O: "owns a s p sa e n (Suc n)" and lf: "is_leaf base" "base \<le> n" "n < base + 128"
    and ps: "length ps = 128" "\<And>t. t < n - base \<Longrightarrow> unat (ps ! t) = blk (dev s) p sa (base + t)"
    and Z: "zeroed a s xs s2" "0 < length xs" "n + length xs \<le> base + 128" "n + length xs \<le> max_blocks"
    and s3: "allocd a s2 {} {} s3" "dev s3 = dev s2"
  defines "q \<equiv> unat (leaf p sa base)" and "ps' \<equiv> put ps (n - base) (map word_of_nat xs)"
  defines "s4 \<equiv> s3\<lparr>dev := (dev s3)(q := bytes_of ps')\<rparr>"
  shows "index_write s3 (leaf p sa base) ps' = Some s4"
    "blks (dev s4) p sa (n + length xs) = blks (dev s) p sa n @ xs"
    "\<forall>x \<in> set xs. dev s4 x = zeros"
    "allocd a s (set xs) {q} s4"
    "owns a s4 p sa e (n + length xs) (n + length xs)"
proof -
  note own = ownsD [OF O]
  let ?I = "set (idx p sa e (Suc n))"
  have len: "138 < Suc n \<longrightarrow> length sa = 128" using own(5) by blast
  have qI: "q \<in> ?I" unfolding q_def by (rule leaf_member [OF own(2) len own(4) lf])
  have q: "marked s q" "q \<notin> map_owned s" using own(10) [OF qI] by auto
  have A2: "allocd a s (set xs) {} s2" using Z(1) by (simp add: zeroed_def)
  have A3: "allocd a s (set xs) {} s3" using allocd_trans [OF A2 s3(1), of "{}"] by simp
  have l': "length (bytes_of ps') = 512" using ps(1) Z(3) lf(2) by (simp add: ps'_def)
  have qs: "q < dev_size s3" "q \<notin> map_owned s3"
    using marked_less [OF q(1)] allocdD(1,4) [OF A3] q(2) by auto
  note W = write_sector_ok [OF allocdD(3) [OF A3] qs l']
  have "word_of_nat q = leaf p sa base" by (simp add: q_def)
  then show "index_write s3 (leaf p sa base) ps' = Some s4"
    using W(1) by (simp add: index_write_def s4_def)
  show A4: "allocd a s (set xs) {q} s4"
    using allocd_trans [OF A3 W(2), of "{q}"] by (simp add: s4_def)
  have xs: "\<not> marked s x" "x < dev_size s" "marked s4 x" "x \<notin> map_owned s4" "x \<noteq> q" if "x \<in> set xs" for x
  proof -
    show 1: "\<not> marked s x" "x < dev_size s" "marked s4 x" using allocdD(6,7) [OF A4] that by blast+
    then show "x \<notin> map_owned s4" using allocdD(4) [OF A4] envD(6) [OF own(1)] by blast
    show "x \<noteq> q" using 1 q by blast
  qed
  show "\<forall>x \<in> set xs. dev s4 x = zeros"
    using Z(1) xs(5) s3(2) by (auto simp: zeroed_def s4_def)
  have other: "dev s4 y = dev s y" if "y \<in> ?I" "y \<noteq> q" for y
    using allocdD(8) [OF A4] own(10) [OF that(1)] envD(5) [OF own(1)] that(2) by blast
  have atq: "index_at (dev s4) (leaf p sa base) = ps'" by (simp add: index_at_def s4_def q_def)
  show B: "blks (dev s4) p sa (n + length xs) = blks (dev s) p sa n @ xs"
  proof (rule nth_equalityI)
    fix i assume "i < length (blks (dev s4) p sa (n + length xs))"
    then have i: "i < n + length xs" by simp
    consider "i < base" | "base \<le> i" "i < n" | "n \<le> i" by linarith
    then show "blks (dev s4) p sa (n + length xs) ! i = (blks (dev s) p sa n @ xs) ! i"
    proof cases
      case 1
      have "blk (dev s4) p sa i = blk (dev s) p sa i"
        by (rule leaf_other [OF own(2) len own(4,7) lf 1]) (use other in \<open>simp add: q_def\<close>)
      then show ?thesis using i 1 lf(2) by (simp add: nth_append)
    next
      case 2
      then have "blk (dev s4) p sa i = unat (ps' ! (i - base))"
        using leaf_blk [OF lf(1), of i] lf(3) atq by simp
      also have "\<dots> = unat (ps ! (i - base))"
      proof -
        have "i - base < n - base" using 2 by simp
        then show ?thesis using ps(1) lf(3) Z(3) 2 by (simp add: ps'_def nth_put)
      qed
      also have "\<dots> = blk (dev s) p sa i" using ps(2) [of "i - base"] 2 by simp
      finally show ?thesis using i 2 by (simp add: nth_append)
    next
      case 3
      then have "blk (dev s4) p sa i = unat (ps' ! (i - base))"
        using leaf_blk [OF lf(1), of i] lf i Z(3) atq by simp
      also have "\<dots> = unat (word_of_nat (xs ! (i - n)) :: u32)"
      proof -
        have "n - base \<le> i - base" "i - base < n - base + length xs" "i - base < 128" "i - base - (n - base) = i - n"
          using 3 i lf Z(3) by simp_all
        then show ?thesis using ps(1) lf(2) Z(3) i 3 by (simp add: ps'_def nth_put)
      qed
      also have "\<dots> = xs ! (i - n)"
        using unat_sector [OF envD(1) [OF own(1)], of "xs ! (i - n)"] xs(2) i 3 by simp
      finally show ?thesis using i 3 by (simp add: nth_append)
    qed
  qed simp
  have idx': "idx p sa e (n + length xs) = idx p sa e (Suc n)"
    by (rule leaf_idx [OF lf(1,2)]) (use Z in auto)
  show "owns a s4 p sa e (n + length xs) (n + length xs)"
  proof (rule ownsI, unfold B idx' set_append distinct_append)
    show "env a s4" by (rule allocdD(3) [OF A4])
    show "distinct (blks (dev s) p sa n) \<and> distinct xs \<and> set (blks (dev s) p sa n) \<inter> set xs = {}"
      using own(6,9) xs(1) Z(1) unfolding zeroed_def by blast
    show "(set (blks (dev s) p sa n) \<union> set xs) \<inter> ?I = {}" using own(8,10) xs(1) by blast
    show "\<forall>x \<in> set (blks (dev s) p sa n) \<union> set xs \<union> ?I. marked s4 x \<and> x \<notin> map_owned s4"
      using xs(3,4) own(9,10) allocdD(4,6) [OF A4] by blast
    show "e \<or> 138 < n + length xs \<longrightarrow> length sa = 128"
      using own(5) lf Z by (auto simp: is_leaf_def)
  qed (use own Z in auto)
qed

section \<open>Growth step by step\<close>

definition tree :: "nat \<Rightarrow> fs \<Rightarrow> u32 list \<Rightarrow> bool \<Rightarrow> nat \<Rightarrow> bool" where
  "tree a s sa e n \<longleftrightarrow> owns a s (ptr (data (inodes s a))) sa e n n \<and>
     (direct_level_index (data (inodes s a)), first_level_index (data (inodes s a)),
      second_level_index (data (inodes s a))) = levels n"

definition same_meta :: "inode_disk \<Rightarrow> inode_disk \<Rightarrow> bool" where
  "same_meta d d' \<longleftrightarrow> flength d' = flength d \<and> magic d' = magic d \<and> unused d' = unused d \<and>
     parent d' = parent d \<and> sub_dir d' = sub_dir d"

text \<open>The number of sectors that \<open>n\<close> blocks take, index blocks included.\<close>

definition cost :: "bool \<Rightarrow> nat \<Rightarrow> nat" where
  "cost e n = n + (if 10 < n then 1 else 0) + (if e \<or> 138 < n then 1 else 0) + inner_cnt n"

abbreviation ptrs :: "fs \<Rightarrow> nat \<Rightarrow> u32 list" where
  "ptrs s a \<equiv> ptr (data (inodes s a))"

text \<open>The blocks \<open>xs\<close>, full of zeros, were appended to the \<open>n\<close> blocks of inode \<open>a\<close>.\<close>

definition grew :: "nat \<Rightarrow> fs \<Rightarrow> u32 list \<Rightarrow> bool \<Rightarrow> nat \<Rightarrow> fs \<Rightarrow> u32 list \<Rightarrow> bool \<Rightarrow> nat list \<Rightarrow> bool" where
  "grew a s sa e n s' sa' e' xs \<longleftrightarrow> tree a s' sa' e' (n + length xs) \<and>
     blks (dev s') (ptrs s' a) sa' (n + length xs) = blks (dev s) (ptrs s a) sa n @ xs \<and>
     (\<forall>x \<in> set xs. dev s' x = zeros) \<and> same_meta (data (inodes s a)) (data (inodes s' a)) \<and>
     (\<exists>X. allocd a s X (set (idx (ptrs s a) sa e n)) s' \<and>
        set (idx (ptrs s' a) sa' e' (n + length xs)) \<subseteq> set (idx (ptrs s a) sa e n) \<union> X \<and> set xs \<subseteq> X) \<and>
     free_cnt s' + cost e' (n + length xs) = free_cnt s + cost e n"

lemma grew_refl: "tree a s sa e n \<Longrightarrow> grew a s sa e n s sa e []"
proof -
  assume T: "tree a s sa e n"
  then have "env a s" by (simp add: tree_def owns_def)
  from allocd_refl [OF this] have "allocd a s {} (set (idx (ptrs s a) sa e n)) s" by (simp add: allocd_def)
  with T show ?thesis by (auto simp: grew_def same_meta_def)
qed

lemma grew_trans:
  assumes "grew a s sa e n s1 sa1 e1 xs" "grew a s1 sa1 e1 (n + length xs) s2 sa2 e2 ys"
  shows "grew a s sa e n s2 sa2 e2 (xs @ ys)"
proof -
  from assms(1) obtain X where 1: "tree a s1 sa1 e1 (n + length xs)"
    "blks (dev s1) (ptrs s1 a) sa1 (n + length xs) = blks (dev s) (ptrs s a) sa n @ xs"
    "\<forall>x \<in> set xs. dev s1 x = zeros" "same_meta (data (inodes s a)) (data (inodes s1 a))"
    "allocd a s X (set (idx (ptrs s a) sa e n)) s1"
    "set (idx (ptrs s1 a) sa1 e1 (n + length xs)) \<subseteq> set (idx (ptrs s a) sa e n) \<union> X" "set xs \<subseteq> X"
    "free_cnt s1 + cost e1 (n + length xs) = free_cnt s + cost e n"
    unfolding grew_def by blast
  from assms(2) obtain Y where 2: "tree a s2 sa2 e2 (n + length xs + length ys)"
    "blks (dev s2) (ptrs s2 a) sa2 (n + length xs + length ys) = blks (dev s1) (ptrs s1 a) sa1 (n + length xs) @ ys"
    "\<forall>x \<in> set ys. dev s2 x = zeros" "same_meta (data (inodes s1 a)) (data (inodes s2 a))"
    "allocd a s1 Y (set (idx (ptrs s1 a) sa1 e1 (n + length xs))) s2"
    "set (idx (ptrs s2 a) sa2 e2 (n + length xs + length ys)) \<subseteq> set (idx (ptrs s1 a) sa1 e1 (n + length xs)) \<union> Y" "set ys \<subseteq> Y"
    "free_cnt s2 + cost e2 (n + length xs + length ys) = free_cnt s1 + cost e1 (n + length xs)"
    unfolding grew_def by blast
  have A: "allocd a s (X \<union> Y) (set (idx (ptrs s a) sa e n)) s2"
    by (rule allocd_trans [OF 1(5) 2(5)]) (use 1(6) in blast)
  have O: "owns a s1 (ptrs s1 a) sa1 e1 (n + length xs) (n + length xs)" using 1(1) by (simp add: tree_def)
  have "dev s2 x = zeros" if x: "x \<in> set xs" for x
  proof -
    have xb: "x \<in> set (blks (dev s1) (ptrs s1 a) sa1 (n + length xs))" unfolding 1(2) using x by simp
    then have "marked s1 x" "x \<notin> map_data s1" "x \<notin> set (idx (ptrs s1 a) sa1 e1 (n + length xs))"
      using ownsD(8,9) [OF O] envD(5) [OF ownsD(1) [OF O]] by blast+
    then show ?thesis using allocdD(8) [OF 2(5)] 1(3) x by simp
  qed
  then show ?thesis
    using A 1 2 unfolding grew_def by (simp add: add.assoc same_meta_def) blast
qed

lemma levels_small: "n \<le> 10 \<Longrightarrow> levels n = (n, 0, 0)"
  by (simp add: levels_def)

lemma levels_first: "\<lbrakk>10 \<le> n; n < 138\<rbrakk> \<Longrightarrow> levels n = (10, n - 10, 0)"
  by (simp add: levels_def)

lemma levels_second: "138 \<le> n \<Longrightarrow> levels n = (11, (n - 138) div 128, (n - 138) mod 128)"
  by (simp add: levels_def)

lemma owns_data: "owns a s p sa e n n' \<Longrightarrow> owns a (upd_data a f s) p sa e n n'"
proof -
  assume O: "owns a s p sa e n n'"
  have A: "allocd a s {} {} (upd_data a f s)" by (rule allocd_data [OF ownsD(1) [OF O]])
  then show ?thesis using O allocdD(3,4) [OF A] by (simp add: owns_def marked_def)
qed

subsection \<open>Direct pointers\<close>

lemma direct_grow:
  assumes T: "tree a s sa False n" and "n \<le> 10" "min (10 - n) sectors \<le> free_cnt s"
  shows "\<exists>xs s1. direct_loop (bitmap_write (Suc w)) a n sectors s = Some (n + length xs, sectors - length xs, s1) \<and>
    length xs = min (10 - n) sectors \<and>
    grew a s sa False n (upd_data a (\<lambda>d. d\<lparr>direct_level_index := n + length xs\<rparr>) s1) sa False xs"
proof -
  have O: "owns a s (ptrs s a) sa False n n" and L: "(direct_level_index (data (inodes s a)),
      first_level_index (data (inodes s a)), second_level_index (data (inodes s a))) = (n, 0, 0)"
    using T assms(2) by (auto simp: tree_def levels_small)
  note own = ownsD [OF O]
  obtain xs s1 where xs: "direct_loop (bitmap_write (Suc w)) a n sectors s = Some (n + length xs, sectors - length xs, s1)"
    "length xs = min (10 - n) sectors" "zeroed a s xs s1"
    "inodes s1 = (inodes s)(a := (inodes s a)\<lparr>data := (data (inodes s a))\<lparr>ptr := put (ptrs s a) n (map word_of_nat xs)\<rparr>\<rparr>)"
    using direct_loop_ok [OF own(1,2) assms(2,3)] by blast
  define s2 where "s2 = upd_data a (\<lambda>d. d\<lparr>direct_level_index := n + length xs\<rparr>) s1"
  define p' where "p' = put (ptrs s a) n (map word_of_nat xs)"
  have A1: "allocd a s (set xs) {} s1" using xs(3) by (simp add: zeroed_def)
  have A: "allocd a s (set xs) {} s2"
    using allocd_trans [OF A1 allocd_data [OF allocdD(3) [OF A1]], of "{}"] by (simp add: s2_def)
  have k: "n + length xs \<le> 10" using xs(2) assms(2) by simp
  have p: "ptrs s2 a = p'" "length p' = 12"
    using xs(4) own(2) k by (simp_all add: s2_def p'_def)
  have x: "\<not> marked s x" "x < dev_size s" "marked s2 x" "x \<notin> map_owned s2" if "x \<in> set xs" for x
  proof -
    show 1: "\<not> marked s x" "x < dev_size s" "marked s2 x" using allocdD(6,7) [OF A] that by blast+
    then show "x \<notin> map_owned s2" using allocdD(4) [OF A] envD(6) [OF own(1)] by blast
  qed
  have B: "blks (dev s2) p' sa (n + length xs) = blks (dev s) (ptrs s a) sa n @ xs"
  proof (rule nth_equalityI)
    fix i assume "i < length (blks (dev s2) p' sa (n + length xs))"
    then have i: "i < n + length xs" "i < 10" using k by simp_all
    then have "i < n \<Longrightarrow> p' ! i = ptrs s a ! i" "n \<le> i \<Longrightarrow> p' ! i = word_of_nat (xs ! (i - n))"
      using own(2) k by (simp_all add: p'_def nth_put)
    then show "blks (dev s2) p' sa (n + length xs) ! i = (blks (dev s) (ptrs s a) sa n @ xs) ! i"
      using i unat_sector [OF envD(1) [OF own(1)], of "xs ! (i - n)"] x(2) by (auto simp: blk_def nth_append)
  qed simp
  have I: "idx p sa False (n + length xs) = []" "idx p sa False n = []" for p
    using k by (simp_all add: idx_def)
  have "owns a s2 p' sa False (n + length xs) (n + length xs)"
  proof (rule ownsI, unfold B I set_append distinct_append)
    show "env a s2" by (rule allocdD(3) [OF A])
    show "distinct (blks (dev s) (ptrs s a) sa n) \<and> distinct xs \<and> set (blks (dev s) (ptrs s a) sa n) \<inter> set xs = {}"
      using own(6,9) x(1) xs(3) unfolding zeroed_def by blast
    show "\<forall>x \<in> set (blks (dev s) (ptrs s a) sa n) \<union> set xs \<union> set []. marked s2 x \<and> x \<notin> map_owned s2"
      using x(3,4) own(9) allocdD(4,6) [OF A] by auto
  qed (use p k in \<open>auto simp: max_blocks_def\<close>)
  moreover have "free_cnt s2 + cost False (n + length xs) = free_cnt s + cost False n"
    using allocd_free_cnt [OF A] xs(3) k by (simp add: cost_def zeroed_def distinct_card)
  ultimately have "grew a s sa False n s2 sa False xs"
    using A B I p xs(3,4) k L unfolding grew_def tree_def
    by (auto simp: levels_small same_meta_def zeroed_def s2_def)
  with xs(1,2) show ?thesis unfolding s2_def by blast
qed

subsection \<open>The indirect block\<close>

lemma leaf_array:
  assumes "owns a s p sa e n n'" "n < n'" "is_leaf base" "base < n" "n < base + 128"
  shows "index_read s (leaf p sa base) = Some (index_at (dev s) (leaf p sa base))"
    "length (index_at (dev s) (leaf p sa base)) = 128"
    "\<And>t. t < n - base \<Longrightarrow> unat (index_at (dev s) (leaf p sa base) ! t) = blk (dev s) p sa (base + t)"
proof -
  note O = ownsD [OF assms(1)]
  have n: "Suc (n - 1) = n" "n \<le> max_blocks" "138 < Suc (n - 1) \<longrightarrow> length sa = 128"
    using assms(2,4) O(4,5) by auto
  have "unat (leaf p sa base) \<in> set (idx p sa e (Suc n))"
    by (rule leaf_member [OF O(2)]) (use O(4,5) assms(2-5) in auto)
  moreover have "set (idx p sa e (Suc n)) \<subseteq> set (idx p sa e n')"
    using assms(2) set_take_subset_set_take [of "inner_cnt (Suc n)" "inner_cnt n'" sa]
    by (auto simp: idx_def inner_cnt_def div_le_mono)
  ultimately have m: "marked s (unat (leaf p sa base))" using O(10) by blast
  show "index_read s (leaf p sa base) = Some (index_at (dev s) (leaf p sa base))"
    "length (index_at (dev s) (leaf p sa base)) = 128"
    using index_read_ok [OF envD(1) [OF O(1)] m] length_index_at [OF envD(1) [OF O(1)] m] by auto
  show "unat (index_at (dev s) (leaf p sa base) ! t) = blk (dev s) p sa (base + t)" if "t < n - base" for t
    using leaf_blk [OF assms(3), of "base + t" "dev s" p sa] that assms(5) by simp
qed

text \<open>Before the loop of \<open>first_indir_alloc\<close>: the indirect block exists and its pointers are in memory.\<close>

lemma first_start:
  assumes T: "tree a s sa False n" and "10 \<le> n" "n < 138" "0 < free_cnt s"
  shows "\<exists>ps s1 X.
    (if first_level_index (data (inodes s a)) = 0
     then do {
       (r, s) \<leftarrow> free_map_allocate (bitmap_write (Suc w)) 1 s;
       let s = (case r of Some sec \<Rightarrow> upd_data a (\<lambda>d. d\<lparr>ptr := (ptr d)[FIRST_LEV_INDEX := sec]\<rparr>) s
                | None \<Rightarrow> s);
       Some (junk s, s) }
     else do {
       p \<leftarrow> array_get (ptr (data (inodes s a))) FIRST_LEV_INDEX;
       b \<leftarrow> index_read s p;
       Some (b, s) }) = Some (ps, s1) \<and>
    owns a s1 (ptrs s1 a) sa False n (Suc n) \<and> length ps = 128 \<and>
    (\<forall>t < n - 10. unat (ps ! t) = blk (dev s1) (ptrs s1 a) sa (10 + t)) \<and>
    (\<exists>p. data (inodes s1 a) = (data (inodes s a))\<lparr>ptr := p\<rparr>) \<and>
    blks (dev s1) (ptrs s1 a) sa n = blks (dev s) (ptrs s a) sa n \<and>
    allocd a s X {} s1 \<and> set (idx (ptrs s1 a) sa False (Suc n)) = set (idx (ptrs s a) sa False n) \<union> X \<and>
    free_cnt s1 + cost False (Suc n) = free_cnt s + cost False n + 1"
proof -
  have O: "owns a s (ptrs s a) sa False n n" and L: "first_level_index (data (inodes s a)) = n - 10"
    using T assms(2,3) by (auto simp: tree_def levels_first)
  note own = ownsD [OF O]
  show ?thesis
  proof (cases "n = 10")
    case True
    obtain x s1 where x: "free_map_allocate (bitmap_write (Suc w)) 1 s = Some (Some (word_of_nat x), s1)"
      "x < dev_size s" "\<not> marked s x" "allocd a s {x} {} s1" "inodes s1 = inodes s"
      using alloc_zeroed [OF own(1) assms(4)] by metis
    define s2 where "s2 = upd_data a (\<lambda>d. d\<lparr>ptr := (ptr d)[10 := word_of_nat x]\<rparr>) s1"
    have A: "allocd a s {x} {} s2"
      using allocd_trans [OF x(4) allocd_data [OF allocdD(3) [OF x(4)]], of "{}"] by (simp add: s2_def)
    have p: "ptrs s2 a = (ptrs s a)[10 := word_of_nat x]" by (simp add: s2_def x(5))
    have u: "unat (word_of_nat x :: u32) = x" using unat_sector [OF envD(1) [OF own(1)] x(2)] .
    have b: "blks D ((ptrs s a)[10 := v]) sa n = blks D (ptrs s a) sa n" for D v
      using True by (simp add: blk_def)
    have i: "idx (ptrs s2 a) sa False (Suc n) = [x]" "idx (ptrs s a) sa False n = []"
      using True own(2) u by (simp_all add: idx_def p)
    have O2: "owns a s2 (ptrs s2 a) sa False n (Suc n)"
      by (rule owns_new_index [OF O A x(3)]) (use own(2) True b i in \<open>auto simp: p max_blocks_def\<close>)
    have "blks (dev s2) (ptrs s2 a) sa n = blks (dev s) (ptrs s a) sa n"
      using owns_frame(1) [OF O A] b by (simp add: p)
    moreover have "free_cnt s2 + cost False (Suc n) = free_cnt s + cost False n + 1"
      using allocd_free_cnt [OF A] True by (simp add: cost_def)
    moreover have "length (junk s2) = 128" using envD(3) [OF ownsD(1) [OF O2]] .
    moreover have "data (inodes s2 a) = (data (inodes s a))\<lparr>ptr := ptrs s2 a\<rparr>" by (simp add: s2_def x(5))
    ultimately show ?thesis
      using x(1) L True O2 A i by (intro exI [of _ "junk s2"] exI [of _ s2] exI [of _ "{x}"]) (auto simp: s2_def)
  next
    case False
    then have n: "10 < n" using assms(2) by simp
    have "idx (ptrs s a) sa False (Suc n) = idx (ptrs s a) sa False n"
      using n assms(3) by (simp add: idx_def)
    then have O2: "owns a s (ptrs s a) sa False n (Suc n)"
      using O n assms(3) unfolding owns_def by (simp add: max_blocks_def)
    have lf: "is_leaf 10" by (simp add: is_leaf_def)
    have l10: "leaf (ptrs s a) sa 10 = ptrs s a ! 10" by (simp add: leaf_def)
    note R = leaf_array [OF O2 _ lf n, unfolded l10]
    have n138: "n < 10 + 128" using assms(3) by simp
    show ?thesis
      using R [OF _ n138] own(2) L n O2 allocd_refl [OF own(1)] \<open>idx (ptrs s a) sa False (Suc n) = _\<close> assms(3)
      by (intro exI [of _ "index_at (dev s) (ptrs s a ! 10)"] exI [of _ s] exI [of _ "{}"])
        (auto simp: cost_def intro!: exI [of _ "ptrs s a"])
  qed
qed

text \<open>
  Filling an index block from the \<open>n\<close>-th block of the file on and writing it back, with an
  update \<open>f\<close> of the inode's indexes in between.
\<close>

lemma leaf_run:
  assumes O: "owns a s p sa e n (Suc n)" and lf: "is_leaf base" "base \<le> n" "n < base + 128"
    and ps: "length ps = 128" "\<forall>t < n - base. unat (ps ! t) = blk (dev s) p sa (base + t)"
    and sec: "0 < sectors" "min (base + 128 - n) sectors \<le> free_cnt s"
  shows "\<exists>xs s2. fill_loop (bitmap_write (Suc w)) ps (n - base) sectors s =
      Some (put ps (n - base) (map word_of_nat xs), n - base + length xs, sectors - length xs, s2) \<and>
    length xs = min (base + 128 - n) sectors \<and> 0 < length xs \<and> inodes s2 = inodes s \<and>
    (\<forall>f. \<exists>s4. index_write (upd_data a f s2) (leaf p sa base) (put ps (n - base) (map word_of_nat xs)) = Some s4 \<and>
       inodes s4 = inodes (upd_data a f s) \<and>
       blks (dev s4) p sa (n + length xs) = blks (dev s) p sa n @ xs \<and> (\<forall>x \<in> set xs. dev s4 x = zeros) \<and>
       allocd a s (set xs) {unat (leaf p sa base)} s4 \<and> owns a s4 p sa e (n + length xs) (n + length xs) \<and>
       free_cnt s4 + length xs = free_cnt s)"
proof -
  note own = ownsD [OF O]
  have m: "n - base \<le> 128" "min (128 - (n - base)) sectors = min (base + 128 - n) sectors" using lf by auto
  obtain xs s2 where xs: "fill_loop (bitmap_write (Suc w)) ps (n - base) sectors s =
      Some (put ps (n - base) (map word_of_nat xs), n - base + length xs, sectors - length xs, s2)"
    "length xs = min (base + 128 - n) sectors" "zeroed a s xs s2" "inodes s2 = inodes s"
    using fill_loop_ok [OF own(1) ps(1) m(1)] sec(2) m(2) by metis
  have k: "0 < length xs" "n + length xs \<le> base + 128" using xs(2) sec(1) lf(3) by auto
  have mx: "n + length xs \<le> max_blocks"
    using k(2) lf(1) by (auto simp: is_leaf_def max_blocks_def)
  have e2: "env a s2" using xs(3) by (simp add: zeroed_def allocd_def)
  have "\<exists>s4. index_write (upd_data a f s2) (leaf p sa base) (put ps (n - base) (map word_of_nat xs)) = Some s4 \<and>
       inodes s4 = inodes (upd_data a f s) \<and>
       blks (dev s4) p sa (n + length xs) = blks (dev s) p sa n @ xs \<and> (\<forall>x \<in> set xs. dev s4 x = zeros) \<and>
       allocd a s (set xs) {unat (leaf p sa base)} s4 \<and> owns a s4 p sa e (n + length xs) (n + length xs) \<and>
       free_cnt s4 + length xs = free_cnt s" for f
  proof -
    have d: "dev (upd_data a f s2) = dev s2" by simp
    have t: "\<And>t. t < n - base \<Longrightarrow> unat (ps ! t) = blk (dev s) p sa (base + t)" using ps(2) by blast
    note E = leaf_ext [OF O lf ps(1) t xs(3) k mx allocd_data [OF e2, of f] d]
    have "card (set xs) = length xs" using xs(3) by (simp add: zeroed_def distinct_card)
    then show ?thesis using E allocd_free_cnt [OF E(4)] xs(4)
      by (intro exI conjI) (assumption | simp)+
  qed
  with xs k show ?thesis by blast
qed

lemma first_grow:
  assumes T: "tree a s sa False n" and n: "10 \<le> n" "n < 138" and sec: "0 < sectors"
    and free: "cost False (n + min (138 - n) sectors) \<le> free_cnt s + cost False n"
  shows "\<exists>xs s'. first_indir_alloc (bitmap_write (Suc w)) sectors a s = Some (sectors - length xs, s') \<and>
    length xs = min (138 - n) sectors \<and> grew a s sa False n s' sa False xs"
proof -
  have L: "direct_level_index (data (inodes s a)) = 10" "first_level_index (data (inodes s a)) = n - 10"
    "second_level_index (data (inodes s a)) = 0"
    using T n by (auto simp: tree_def levels_first)
  have "0 < free_cnt s" using free sec n by (auto simp: cost_def split: if_splits)
  from first_start [OF T n this, of w] obtain ps s1 X p1 where
    S: "(if first_level_index (data (inodes s a)) = 0
     then do {
       (r, s) \<leftarrow> free_map_allocate (bitmap_write (Suc w)) 1 s;
       let s = (case r of Some sec \<Rightarrow> upd_data a (\<lambda>d. d\<lparr>ptr := (ptr d)[FIRST_LEV_INDEX := sec]\<rparr>) s
                | None \<Rightarrow> s);
       Some (junk s, s) }
     else do {
       p \<leftarrow> array_get (ptr (data (inodes s a))) FIRST_LEV_INDEX;
       b \<leftarrow> index_read s p;
       Some (b, s) }) = Some (ps, s1)"
    and O1: "owns a s1 (ptrs s1 a) sa False n (Suc n)" "length ps = 128"
      "\<forall>t < n - 10. unat (ps ! t) = blk (dev s1) (ptrs s1 a) sa (10 + t)"
    and D1: "data (inodes s1 a) = (data (inodes s a))\<lparr>ptr := p1\<rparr>"
    and B1: "blks (dev s1) (ptrs s1 a) sa n = blks (dev s) (ptrs s a) sa n"
    and A1: "allocd a s X {} s1"
    and I1: "set (idx (ptrs s1 a) sa False (Suc n)) = set (idx (ptrs s a) sa False n) \<union> X"
    and F1: "free_cnt s1 + cost False (Suc n) = free_cnt s + cost False n + 1"
    by blast
  have lf: "is_leaf 10" "n < 10 + 128" using n by (auto simp: is_leaf_def)
  have c: "cost False (n + k) = cost False (Suc n) + k - 1" if "0 < k" "k \<le> 138 - n" for k
    using that n by (simp add: cost_def)
  have l10: "leaf (ptrs s1 a) sa 10 = ptrs s1 a ! 10" "10 + 128 - n = 138 - n" by (simp_all add: leaf_def)
  have k0: "0 < min (138 - n) sectors" "min (138 - n) sectors \<le> 138 - n" using sec n by auto
  have "min (138 - n) sectors \<le> free_cnt s1" using free F1 c [OF k0] k0(1) by linarith
  then have fr: "min (10 + 128 - n) sectors \<le> free_cnt s1" by simp
  obtain xs s2 where R: "fill_loop (bitmap_write (Suc w)) ps (n - 10) sectors s1 =
      Some (put ps (n - 10) (map word_of_nat xs), n - 10 + length xs, sectors - length xs, s2)"
    "length xs = min (138 - n) sectors" "0 < length xs" "inodes s2 = inodes s1"
    and W: "\<And>f. \<exists>s4. index_write (upd_data a f s2) (ptrs s1 a ! 10) (put ps (n - 10) (map word_of_nat xs)) = Some s4 \<and>
       inodes s4 = inodes (upd_data a f s1) \<and>
       blks (dev s4) (ptrs s1 a) sa (n + length xs) = blks (dev s1) (ptrs s1 a) sa n @ xs \<and>
       (\<forall>x \<in> set xs. dev s4 x = zeros) \<and>
       allocd a s1 (set xs) {unat (ptrs s1 a ! 10)} s4 \<and> owns a s4 (ptrs s1 a) sa False (n + length xs) (n + length xs) \<and>
       free_cnt s4 + length xs = free_cnt s1"
    using leaf_run [OF O1(1) lf(1) n(1) lf(2) O1(2,3) sec fr, of w, unfolded l10] by blast
  define f where "f = (\<lambda>d. d\<lparr>first_level_index := n - 10 + length xs\<rparr> :: inode_disk)"
  obtain s4 where s4: "index_write (upd_data a f s2) (ptrs s1 a ! 10) (put ps (n - 10) (map word_of_nat xs)) = Some s4"
       "inodes s4 = inodes (upd_data a f s1)"
       "blks (dev s4) (ptrs s1 a) sa (n + length xs) = blks (dev s1) (ptrs s1 a) sa n @ xs"
       "\<forall>x \<in> set xs. dev s4 x = zeros"
       "allocd a s1 (set xs) {unat (ptrs s1 a ! 10)} s4" "owns a s4 (ptrs s1 a) sa False (n + length xs) (n + length xs)"
       "free_cnt s4 + length xs = free_cnt s1"
    using W by blast
  define full where "full \<longleftrightarrow> n - 10 + length xs = 128"
  define g :: "inode_disk \<Rightarrow> inode_disk" where "g = (\<lambda>d. if full then d\<lparr>first_level_index := 0,
      direct_level_index := direct_level_index d + 1\<rparr> else d)"
  define s5 where "s5 = upd_data a g s4"
  have s5: "(if full then upd_data a (\<lambda>d. d\<lparr>first_level_index := 0,
      direct_level_index := direct_level_index d + 1\<rparr>) s4 else s4) = s5"
    by (simp add: s5_def g_def)
  have len: "length (ptrs s1 a) = 12" using ownsD(2) [OF O1(1)] .
  have run: "first_indir_alloc (bitmap_write (Suc w)) sectors a s = Some (sectors - length xs, s5)"
    using S R(1) s4(1,2) L(2) D1 R(4) len
    unfolding first_indir_alloc_def s5 [symmetric] by (simp add: f_def full_def Let_def)
  have A5: "allocd a s1 (set xs) {unat (ptrs s1 a ! 10)} s5"
    using allocd_trans [OF s4(5) allocd_data [OF allocdD(3) [OF s4(5)], of g]] by (simp add: s5_def)
  have dev5: "dev s5 = dev s4" "free_cnt s5 = free_cnt s4" by (simp_all add: s5_def free_cnt_def marked_def)
  have p5: "ptrs s5 a = ptrs s1 a" using s4(2) by (simp add: s5_def f_def g_def)
  have O5: "owns a s5 (ptrs s5 a) sa False (n + length xs) (n + length xs)"
    using owns_data [OF s4(6), of g] p5 by (simp add: s5_def)
  have nk: "n + length xs \<le> 138" using R(2) n by simp
  have lev: "(direct_level_index (data (inodes s5 a)), first_level_index (data (inodes s5 a)),
      second_level_index (data (inodes s5 a))) = levels (n + length xs)"
    using nk n L D1 s4(2) by (auto simp: s5_def f_def g_def full_def levels_def)
  have meta: "same_meta (data (inodes s a)) (data (inodes s5 a))"
    using D1 s4(2) by (simp add: same_meta_def s5_def f_def g_def)
  have q: "unat (ptrs s1 a ! 10) \<in> set (idx (ptrs s a) sa False n) \<union> X"
    unfolding I1 [symmetric] using n by (simp add: idx_def)
  have A: "allocd a s (X \<union> set xs) (set (idx (ptrs s a) sa False n)) s5"
    by (rule allocd_trans [OF A1 A5]) (use q in auto)
  have "idx (ptrs s1 a) sa False (n + length xs) = idx (ptrs s1 a) sa False (Suc n)"
    by (rule leaf_idx [OF lf(1) n(1)]) (use R(3) nk in auto)
  then have I5: "set (idx (ptrs s5 a) sa False (n + length xs)) \<subseteq> set (idx (ptrs s a) sa False n) \<union> (X \<union> set xs)"
    using I1 p5 by auto
  have cnt: "free_cnt s5 + cost False (n + length xs) = free_cnt s + cost False n"
  proof -
    have "length xs \<le> 138 - n" using R(2) by simp
    from c [OF R(3) this] show ?thesis using F1 s4(7) dev5(2) R(3) by linarith
  qed
  have "grew a s sa False n s5 sa False xs"
    unfolding grew_def tree_def
    using O5 lev s4(3,4) B1 p5 dev5(1) meta A I5 cnt by auto
  with run R(2) show ?thesis by blast
qed

subsection \<open>The doubly indirect block\<close>

text \<open>Block \<open>n\<close> belongs to inner block \<open>(n - 138) div 128\<close>.\<close>

definition inner_base :: "nat \<Rightarrow> nat" where
  "inner_base n = 138 + 128 * ((n - 138) div 128)"

lemma inner_base:
  assumes "138 \<le> n" "n < max_blocks"
  shows "is_leaf (inner_base n)" "inner_base n \<le> n" "n < inner_base n + 128"
    "n - inner_base n = (n - 138) mod 128" "(inner_base n - 138) div 128 = (n - 138) div 128"
    "(n - 138) div 128 < 128" "inner_base n \<noteq> 10"
proof -
  have l: "n - 138 < 128 * 128" using assms by (simp add: max_blocks_def)
  have e: "n - 138 = 128 * ((n - 138) div 128) + (n - 138) mod 128" by simp
  have m: "(n - 138) mod 128 < 128" by simp
  show "(n - 138) div 128 < 128" using l by (simp add: less_mult_imp_div_less)
  then show "is_leaf (inner_base n)" by (auto simp: is_leaf_def inner_base_def)
  show "inner_base n \<le> n" "n < inner_base n + 128" "n - inner_base n = (n - 138) mod 128"
    using e m assms(1) unfolding inner_base_def by linarith+
  show "(inner_base n - 138) div 128 = (n - 138) div 128" "inner_base n \<noteq> 10" by (simp_all add: inner_base_def)
qed

lemma inner_cnt_mono: "m \<le> n \<Longrightarrow> inner_cnt m \<le> inner_cnt n"
  unfolding inner_cnt_def by (intro div_le_mono) simp

lemma cost_mono: "m \<le> n \<Longrightarrow> cost e m \<le> cost e n"
  using inner_cnt_mono [of m n] by (auto simp: cost_def)

lemma inner_cnt_at:
  assumes "138 \<le> n" "n < max_blocks"
  shows "(n - 138) mod 128 = 0 \<Longrightarrow> inner_cnt n = (n - 138) div 128"
    "inner_base n < m \<Longrightarrow> m \<le> inner_base n + 128 \<Longrightarrow> inner_cnt m = (n - 138) div 128 + 1"
proof -
  define j where "j = (n - 138) div 128"
  show "inner_cnt n = (n - 138) div 128" if "(n - 138) mod 128 = 0"
  proof -
    have "n - 138 = 128 * j" using that mult_div_mod_eq [of 128 "n - 138"] by (simp add: j_def)
    then show ?thesis by (simp add: inner_cnt_def)
  qed
  show "inner_cnt m = (n - 138) div 128 + 1" if "inner_base n < m" "m \<le> inner_base n + 128"
  proof -
    define t where "t = m - inner_base n - 1"
    with that have "m = inner_base n + 1 + t" "t < 128" by linarith+
    then have "m = 138 + 128 * j + 1 + t" "t < 128" by (simp_all add: inner_base_def j_def)
    then show ?thesis by (simp add: inner_cnt_def j_def)
  qed
qed

lemma deep_start:
  assumes T: "tree a s sb True n" and n: "138 \<le> n" "n < max_blocks" and "0 < free_cnt s"
  shows "\<exists>ps sb1 s1 X.
     (if second_level_index (data (inodes s a)) = 0
      then do {
        (r, s) \<leftarrow> free_map_allocate (bitmap_write (Suc w)) 1 s;
        second_block \<leftarrow>
          (case r of Some sec \<Rightarrow> array_set sb (first_level_index (data (inodes s a))) sec
           | None \<Rightarrow> Some sb);
        Some (junk s, second_block, s) }
      else do {
        p \<leftarrow> array_get sb (first_level_index (data (inodes s a)));
        b \<leftarrow> index_read s p;
        Some (b, sb, s) }) = Some (ps, sb1, s1) \<and>
    owns a s1 (ptrs s a) sb1 True n (Suc n) \<and> length ps = 128 \<and>
    (\<forall>t < n - inner_base n. unat (ps ! t) = blk (dev s1) (ptrs s a) sb1 (inner_base n + t)) \<and>
    inodes s1 = inodes s \<and> blks (dev s1) (ptrs s a) sb1 n = blks (dev s) (ptrs s a) sb n \<and>
    allocd a s X {} s1 \<and> set (idx (ptrs s a) sb1 True (Suc n)) = set (idx (ptrs s a) sb True n) \<union> X \<and>
    free_cnt s1 + cost True (Suc n) = free_cnt s + cost True n + 1"
proof -
  define j where "j = (n - 138) div 128"
  have O: "owns a s (ptrs s a) sb True n n" and L: "first_level_index (data (inodes s a)) = j"
      "second_level_index (data (inodes s a)) = (n - 138) mod 128"
    using T n by (auto simp: tree_def levels_second j_def)
  note own = ownsD [OF O] and ib = inner_base [OF n]
  have len: "length sb = 128" "j < 128" using own(5) ib(6) by (auto simp: j_def)
  show ?thesis
  proof (cases "(n - 138) mod 128 = 0")
    case True
    obtain x s1 where x: "free_map_allocate (bitmap_write (Suc w)) 1 s = Some (Some (word_of_nat x), s1)"
      "x < dev_size s" "\<not> marked s x" "allocd a s {x} {} s1" "inodes s1 = inodes s"
      using alloc_zeroed [OF own(1) assms(4)] by metis
    define sb1 where "sb1 = sb[j := word_of_nat x]"
    have u: "unat (word_of_nat x :: u32) = x" using unat_sector [OF envD(1) [OF own(1)] x(2)] .
    have c: "inner_cnt n = j" "inner_cnt (Suc n) = j + 1"
      using inner_cnt_at [OF n] True ib(2,3) by (auto simp: j_def)
    have "j \<noteq> (i - 138) div 128" if "\<not> i < 138" "i < n" for i
      using inner_less [of i n] that c(1) by simp
    then have b: "blks D (ptrs s a) sb1 n = blks D (ptrs s a) sb n" for D
      by (auto simp: blk_def sb1_def)
    have i: "idx (ptrs s a) sb1 True (Suc n) = idx (ptrs s a) sb True n @ [x]"
      using n(1) len c u by (simp add: idx_def sb1_def take_Suc_conv_app_nth)
    have O1: "owns a s1 (ptrs s a) sb1 True n (Suc n)"
      by (rule owns_new_index [OF O x(4,3)]) (use own(2) n len b i in \<open>auto simp: sb1_def\<close>)
    have "blks (dev s1) (ptrs s a) sb1 n = blks (dev s) (ptrs s a) sb n"
      using owns_frame(1) [OF O x(4)] b by simp
    moreover have "free_cnt s1 + cost True (Suc n) = free_cnt s + cost True n + 1"
      using allocd_free_cnt [OF x(4)] c n by (simp add: cost_def)
    moreover have "length (junk s1) = 128" using envD(3) [OF ownsD(1) [OF O1]] .
    moreover have "n - inner_base n = 0" using ib(4) True by simp
    ultimately show ?thesis
      using x L True O1 i len by (intro exI [of _ "junk s1"] exI [of _ sb1] exI [of _ s1] exI [of _ "{x}"]) (auto simp: sb1_def)
  next
    case False
    then have bn: "inner_base n < n" using ib(2,4) by simp
    have c: "inner_cnt n = j + 1" "inner_cnt (Suc n) = j + 1"
      using inner_cnt_at(2) [OF n] bn ib(3) by (simp_all add: j_def)
    then have i: "idx (ptrs s a) sb True (Suc n) = idx (ptrs s a) sb True n" using n by (simp add: idx_def)
    then have O1: "owns a s (ptrs s a) sb True n (Suc n)"
      using O n unfolding owns_def by simp
    have lf: "leaf (ptrs s a) sb (inner_base n) = sb ! j" using ib(5,7) by (simp add: leaf_def j_def)
    note R = leaf_array [OF O1 _ ib(1) bn ib(3), unfolded lf]
    show ?thesis
      using R L False O1 allocd_refl [OF own(1)] i len c n
      by (intro exI [of _ "index_at (dev s) (sb ! j)"] exI [of _ sb] exI [of _ s] exI [of _ "{}"])
        (auto simp: cost_def)
  qed
qed

lemma deep_grow:
  assumes T: "tree a s sb True n" and n: "138 \<le> n" "n < max_blocks" and sec: "0 < sectors"
    and free: "cost True (n + min (inner_base n + 128 - n) sectors) \<le> free_cnt s + cost True n"
  shows "\<exists>xs sb' s'. second_indir_alloc_deep (bitmap_write (Suc w)) sectors a sb s = Some (sectors - length xs, sb', s') \<and>
    length xs = min (inner_base n + 128 - n) sectors \<and> grew a s sb True n s' sb' True xs"
proof -
  define j where "j = (n - 138) div 128"
  have L: "direct_level_index (data (inodes s a)) = 11" "first_level_index (data (inodes s a)) = j"
    "second_level_index (data (inodes s a)) = n - inner_base n"
    using T n inner_base(4) [OF n] by (auto simp: tree_def levels_second j_def)
  note ib = inner_base [OF n]
  have k0: "0 < min (inner_base n + 128 - n) sectors" using sec ib(3) by simp
  then have "cost True (Suc n) \<le> cost True (n + min (inner_base n + 128 - n) sectors)" by (intro cost_mono) linarith
  moreover have "cost True n < cost True (Suc n)" using inner_cnt_mono [of n "Suc n"] by (simp add: cost_def)
  ultimately have "0 < free_cnt s" using free by linarith
  from deep_start [OF T n this, of w] obtain ps sb1 s1 X where
    S: "(if second_level_index (data (inodes s a)) = 0
      then do {
        (r, s) \<leftarrow> free_map_allocate (bitmap_write (Suc w)) 1 s;
        second_block \<leftarrow>
          (case r of Some sec \<Rightarrow> array_set sb (first_level_index (data (inodes s a))) sec
           | None \<Rightarrow> Some sb);
        Some (junk s, second_block, s) }
      else do {
        p \<leftarrow> array_get sb (first_level_index (data (inodes s a)));
        b \<leftarrow> index_read s p;
        Some (b, sb, s) }) = Some (ps, sb1, s1)"
    and O1: "owns a s1 (ptrs s a) sb1 True n (Suc n)" "length ps = 128"
      "\<forall>t < n - inner_base n. unat (ps ! t) = blk (dev s1) (ptrs s a) sb1 (inner_base n + t)"
    and D1: "inodes s1 = inodes s"
    and B1: "blks (dev s1) (ptrs s a) sb1 n = blks (dev s) (ptrs s a) sb n"
    and A1: "allocd a s X {} s1"
    and I1: "set (idx (ptrs s a) sb1 True (Suc n)) = set (idx (ptrs s a) sb True n) \<union> X"
    and F1: "free_cnt s1 + cost True (Suc n) = free_cnt s + cost True n + 1"
    by blast
  have c: "cost True (n + k) = cost True (Suc n) + k - 1" if "0 < k" "k \<le> inner_base n + 128 - n" for k
  proof -
    have "inner_cnt (n + k) = inner_cnt (Suc n)"
      using inner_cnt_at(2) [OF n, of "n + k"] inner_cnt_at(2) [OF n, of "Suc n"] that ib(2,3) by simp
    then show ?thesis using that n by (simp add: cost_def)
  qed
  have fr: "min (inner_base n + 128 - n) sectors \<le> free_cnt s1"
    using free F1 c [OF k0] k0 by linarith
  have len: "length sb1 = 128" using ownsD(5) [OF O1(1)] by simp
  have lf: "leaf (ptrs s a) sb1 (inner_base n) = sb1 ! j" using ib(5,7) by (simp add: leaf_def j_def)
  obtain xs s2 where R: "fill_loop (bitmap_write (Suc w)) ps (n - inner_base n) sectors s1 =
      Some (put ps (n - inner_base n) (map word_of_nat xs), n - inner_base n + length xs, sectors - length xs, s2)"
    "length xs = min (inner_base n + 128 - n) sectors" "0 < length xs" "inodes s2 = inodes s1"
    and W: "\<And>f. \<exists>s4. index_write (upd_data a f s2) (sb1 ! j) (put ps (n - inner_base n) (map word_of_nat xs)) = Some s4 \<and>
       inodes s4 = inodes (upd_data a f s1) \<and>
       blks (dev s4) (ptrs s a) sb1 (n + length xs) = blks (dev s1) (ptrs s a) sb1 n @ xs \<and>
       (\<forall>x \<in> set xs. dev s4 x = zeros) \<and>
       allocd a s1 (set xs) {unat (sb1 ! j)} s4 \<and> owns a s4 (ptrs s a) sb1 True (n + length xs) (n + length xs) \<and>
       free_cnt s4 + length xs = free_cnt s1"
    using leaf_run [OF O1(1) ib(1-3) O1(2,3) sec fr, of w, unfolded lf] by blast
  define f where "f = (\<lambda>d. d\<lparr>second_level_index := n - inner_base n + length xs\<rparr> :: inode_disk)"
  obtain s4 where s4: "index_write (upd_data a f s2) (sb1 ! j) (put ps (n - inner_base n) (map word_of_nat xs)) = Some s4"
       "inodes s4 = inodes (upd_data a f s1)"
       "blks (dev s4) (ptrs s a) sb1 (n + length xs) = blks (dev s1) (ptrs s a) sb1 n @ xs"
       "\<forall>x \<in> set xs. dev s4 x = zeros"
       "allocd a s1 (set xs) {unat (sb1 ! j)} s4" "owns a s4 (ptrs s a) sb1 True (n + length xs) (n + length xs)"
       "free_cnt s4 + length xs = free_cnt s1"
    using W by blast
  define full where "full \<longleftrightarrow> n - inner_base n + length xs = 128"
  define g :: "inode_disk \<Rightarrow> inode_disk" where "g = (\<lambda>d. if full then d\<lparr>first_level_index := first_level_index d + 1,
      second_level_index := 0\<rparr> else d)"
  define s5 where "s5 = upd_data a g s4"
  have s5: "(if full then upd_data a (\<lambda>d. d\<lparr>first_level_index := first_level_index d + 1,
      second_level_index := 0\<rparr>) s4 else s4) = s5"
    by (simp add: s5_def g_def)
  have run: "second_indir_alloc_deep (bitmap_write (Suc w)) sectors a sb s = Some (sectors - length xs, sb1, s5)"
    using S R(1) s4(1,2) L(2,3) D1 R(4) len ib(6)
    unfolding second_indir_alloc_deep_def s5 [symmetric] by (simp add: f_def full_def Let_def j_def)
  have A5: "allocd a s1 (set xs) {unat (sb1 ! j)} s5"
    using allocd_trans [OF s4(5) allocd_data [OF allocdD(3) [OF s4(5)], of g]] by (simp add: s5_def)
  have dev5: "dev s5 = dev s4" "free_cnt s5 = free_cnt s4" by (simp_all add: s5_def free_cnt_def marked_def)
  have p5: "ptrs s5 a = ptrs s a" using s4(2) D1 by (simp add: s5_def f_def g_def)
  have O5: "owns a s5 (ptrs s5 a) sb1 True (n + length xs) (n + length xs)"
    using owns_data [OF s4(6), of g] p5 by (simp add: s5_def)
  have k: "n - inner_base n + length xs \<le> 128" using R(2) ib(2,3) by simp
  have nk: "n + length xs - 138 = 128 * j + (n - inner_base n + length xs)"
    using n ib(2) by (simp add: inner_base_def j_def)
  have lev: "(direct_level_index (data (inodes s5 a)), first_level_index (data (inodes s5 a)),
      second_level_index (data (inodes s5 a))) = levels (n + length xs)"
    using k n(1) L D1 s4(2) nk levels_second [of "n + length xs"]
    by (cases full) (auto simp: s5_def f_def g_def full_def)
  have meta: "same_meta (data (inodes s a)) (data (inodes s5 a))"
    using D1 s4(2) by (simp add: same_meta_def s5_def f_def g_def)
  have q: "unat (sb1 ! j) \<in> set (idx (ptrs s a) sb True n) \<union> X"
    unfolding I1 [symmetric] lf [symmetric]
    by (rule leaf_member [OF ownsD(2) [OF O1(1)] _ ownsD(4) [OF O1(1)] ib(1-3)]) (use len in simp)
  have A: "allocd a s (X \<union> set xs) (set (idx (ptrs s a) sb True n)) s5"
    by (rule allocd_trans [OF A1 A5]) (use q in auto)
  have "idx (ptrs s a) sb1 True (n + length xs) = idx (ptrs s a) sb1 True (Suc n)"
    by (rule leaf_idx [OF ib(1,2)]) (use R(3) k ib(2) in auto)
  then have I5: "set (idx (ptrs s5 a) sb1 True (n + length xs)) \<subseteq> set (idx (ptrs s a) sb True n) \<union> (X \<union> set xs)"
    using I1 p5 by auto
  have cnt: "free_cnt s5 + cost True (n + length xs) = free_cnt s + cost True n"
  proof -
    have "length xs \<le> inner_base n + 128 - n" using R(2) by simp
    from c [OF R(3) this] show ?thesis using F1 s4(7) dev5(2) R(3) by linarith
  qed
  have "grew a s sb True n s5 sb1 True xs"
    unfolding grew_def tree_def
    using O5 lev s4(3,4) B1 p5 dev5(1) meta A I5 cnt by auto
  with run R(2) show ?thesis by blast
qed

end
