(* ===== verification/FileWrite.thy ===== *)
theory FileWrite
  imports FileExtend
begin

text \<open>
  The whole of \<open>inode_grow\<close>, and with it the operations on files: writing, reading, creating,
  opening, closing and removing act on the content of a file as on a list of bytes.
\<close>

section \<open>The doubly indirect level as a whole\<close>

lemma tree_max:
  assumes "tree a s sb True n" "138 \<le> n"
  shows "first_level_index (data (inodes s a)) < 128 \<longleftrightarrow> n < max_blocks"
  using assms ownsD(4) [of a s "ptrs s a" sb True n n]
  by (auto simp: tree_def levels_second max_blocks_def less_mult_imp_div_less)

lemma second_loop_grow:
  assumes "tree a s sb True n" "138 \<le> n" "0 < sectors"
    "cost True (n + min (max_blocks - n) sectors) \<le> free_cnt s + cost True n"
  shows "\<exists>xs sb' s'. second_loop (bitmap_write (Suc w)) sectors a sb s = Some (sectors - length xs, sb', s') \<and>
    length xs = min (max_blocks - n) sectors \<and> grew a s sb True n s' sb' True xs"
  using assms
proof (induction sectors arbitrary: s sb n rule: less_induct)
  case (less sectors)
  note T = less.prems(1) and n = less.prems(2)
  show ?case
  proof (cases "n < max_blocks")
    case False
    then show ?thesis using tree_max [OF T n] grew_refl [OF T] less.prems(3)
      by (subst second_loop.simps) (auto intro!: exI [of _ "[]"])
  next
    case True
    note ib = inner_base [OF n True]
    define k where "k = min (inner_base n + 128 - n) sectors"
    have k: "0 < k" "k \<le> sectors" using ib(3) less.prems(3) by (simp_all add: k_def)
    have bmax: "inner_base n + 128 \<le> max_blocks" using ib(6) by (simp add: inner_base_def max_blocks_def)
    then have km: "k \<le> min (max_blocks - n) sectors" by (simp add: k_def)
    then have "cost True (n + k) \<le> cost True (n + min (max_blocks - n) sectors)" by (intro cost_mono) linarith
    then have "cost True (n + min (inner_base n + 128 - n) sectors) \<le> free_cnt s + cost True n"
      using less.prems(4) by (simp add: k_def)
    from deep_grow [OF T n True less.prems(3) this, of w] obtain xs sb1 s1 where
      D: "second_indir_alloc_deep (bitmap_write (Suc w)) sectors a sb s = Some (sectors - length xs, sb1, s1)"
        "length xs = k" "grew a s sb True n s1 sb1 True xs" unfolding k_def by blast
    have fl: "first_level_index (data (inodes s a)) < 128" using tree_max [OF T n] True by simp
    show ?thesis
    proof (cases "sectors = k")
      case True
      then show ?thesis using D fl km
        by (subst second_loop.simps) (auto intro!: exI [of _ xs])
    next
      case False
      with k have rest: "0 < sectors - k" "sectors - k < sectors" by simp_all
      have T1: "tree a s1 sb1 True (n + k)" and
        F1: "free_cnt s1 + cost True (n + k) = free_cnt s + cost True n"
        using D(2,3) by (simp_all add: grew_def)
      have m: "n + k + min (max_blocks - (n + k)) (sectors - k) = n + min (max_blocks - n) sectors"
        using km k by linarith
      have "cost True (n + k + min (max_blocks - (n + k)) (sectors - k)) \<le> free_cnt s1 + cost True (n + k)"
        unfolding m F1 by (rule less.prems(4))
      from less.IH [OF rest(2) T1 _ rest(1) this] n obtain ys sb2 s2 where
        I: "second_loop (bitmap_write (Suc w)) (sectors - k) a sb1 s1 = Some (sectors - k - length ys, sb2, s2)"
          "length ys = min (max_blocks - (n + k)) (sectors - k)" "grew a s1 sb1 True (n + k) s2 sb2 True ys"
        by auto
      have "grew a s sb True n s2 sb2 True (xs @ ys)" using grew_trans [OF D(3)] I(3) D(2) by simp
      moreover have "length (xs @ ys) = min (max_blocks - n) sectors" using D(2) I(2) m by simp
      moreover have "second_loop (bitmap_write (Suc w)) sectors a sb s = Some (sectors - length (xs @ ys), sb2, s2)"
        using D(1,2) I(1) fl rest by (subst second_loop.simps) simp
      ultimately show ?thesis by blast
    qed
  qed
qed

text \<open>The doubly indirect block is read or allocated before the loop and written after it.\<close>

lemma second_start:
  assumes T: "tree a s (second_of s (data (inodes s a))) False n" and n: "138 \<le> n"
    and free: "n = 138 \<Longrightarrow> 0 < free_cnt s"
  shows "\<exists>sb s1.
     (if first_level_index (data (inodes s a)) = 0 \<and> second_level_index (data (inodes s a)) = 0
      then do {
        (r, s) \<leftarrow> free_map_allocate (bitmap_write (Suc w)) 1 s;
        let s = (case r of Some sec \<Rightarrow> upd_data a (\<lambda>d. d\<lparr>ptr := (ptr d)[SECOND_LEV_INDEX := sec]\<rparr>) s
                 | None \<Rightarrow> s);
        Some (junk s, s) }
      else do {
        p \<leftarrow> array_get (ptr (data (inodes s a))) SECOND_LEV_INDEX;
        b \<leftarrow> index_read s p;
        Some (b, s) }) = Some (sb, s1) \<and>
    grew a s (second_of s (data (inodes s a))) False n s1 sb True []"
proof -
  define sa where "sa = second_of s (data (inodes s a))"
  have O: "owns a s (ptrs s a) sa False n n" and L: "direct_level_index (data (inodes s a)) = 11"
    "first_level_index (data (inodes s a)) = (n - 138) div 128"
    "second_level_index (data (inodes s a)) = (n - 138) mod 128"
    using T n by (auto simp: tree_def levels_second sa_def)
  note own = ownsD [OF O]
  show ?thesis
  proof (cases "n = 138")
    case True
    obtain x s1 where x: "free_map_allocate (bitmap_write (Suc w)) 1 s = Some (Some (word_of_nat x), s1)"
      "x < dev_size s" "\<not> marked s x" "allocd a s {x} {} s1" "inodes s1 = inodes s"
      using alloc_zeroed [OF own(1) free [OF True]] by metis
    define s2 where "s2 = upd_data a (\<lambda>d. d\<lparr>ptr := (ptr d)[11 := word_of_nat x]\<rparr>) s1"
    have A: "allocd a s {x} {} s2"
      using allocd_trans [OF x(4) allocd_data [OF allocdD(3) [OF x(4)]], of "{}"] by (simp add: s2_def)
    have p: "ptrs s2 a = (ptrs s a)[11 := word_of_nat x]" by (simp add: s2_def x(5))
    have u: "unat (word_of_nat x :: u32) = x" using unat_sector [OF envD(1) [OF own(1)] x(2)] .
    have b: "blks D (ptrs s2 a) sb n = blks D (ptrs s a) sa n" for D sb
      using True by (simp add: p blk_def)
    have i: "idx (ptrs s2 a) sb True n = idx (ptrs s a) sa False n @ [x]" for sb
      using True own(2) u by (simp add: idx_def p)
    have j: "length (junk s2) = 128" using envD(3) [OF allocdD(3) [OF A]] .
    have O2: "owns a s2 (ptrs s2 a) (junk s2) True n n"
      by (rule owns_new_index [OF O A x(3)]) (use own(2,4) b i j in \<open>auto simp: p\<close>)
    have B: "blks (dev s2) (ptrs s2 a) (junk s2) n = blks (dev s) (ptrs s a) sa n"
      unfolding b by (rule owns_frame(1) [OF O A]) simp
    have F: "free_cnt s2 + cost True n = free_cnt s + cost False n"
      using allocd_free_cnt [OF A] True by (simp add: cost_def)
    have A': "allocd a s {x} (set (idx (ptrs s a) sa False n)) s2" using A by (simp add: allocd_def)
    have "grew a s sa False n s2 (junk s2) True []"
      unfolding grew_def tree_def using O2 B F A' L i
      by (auto simp: s2_def x(5) same_meta_def levels_second [OF n])
    then show ?thesis using x(1) L True by (intro exI [of _ "junk s2"] exI [of _ s2]) (simp add: s2_def sa_def)
  next
    case False
    then have n': "138 < n" using n by simp
    have m: "marked s (unat (ptrs s a ! 11))"
      using own(10) idx_members(2) [OF own(2) _ own(4) n', of sa False] own(5) n' by auto
    have i: "idx (ptrs s a) sa True n = idx (ptrs s a) sa False n" using n' by (simp add: idx_def)
    have "owns a s (ptrs s a) sa True n n" using O n' unfolding owns_def i by simp
    then have T': "tree a s sa True n" using T by (simp add: tree_def sa_def)
    have "grew a s sa False n s sa True []"
      using grew_refl [OF T'] n' unfolding grew_def i by (simp add: cost_def)
    moreover have "\<not> ((n - 138) div 128 = 0 \<and> (n - 138) mod 128 = 0)"
      using n' div_mult_mod_eq [of "n - 138" 128] by auto
    ultimately show ?thesis
      using index_read_ok [OF envD(1) [OF own(1)] m] L own(2)
      by (intro exI [of _ sa] exI [of _ s]) (auto simp: sa_def)
  qed
qed

lemma second_finish:
  assumes T: "tree a s sb True n" and n: "138 < n"
  shows "\<exists>s'. index_write s (ptrs s a ! 11) sb = Some s' \<and>
    grew a s sb True n s' (second_of s' (data (inodes s' a))) False []"
proof -
  have O: "owns a s (ptrs s a) sb True n n" using T by (simp add: tree_def)
  note own = ownsD [OF O]
  define q where "q = unat (ptrs s a ! 11)"
  have qI: "q \<in> set (idx (ptrs s a) sb True n)" by (simp add: idx_def q_def)
  have q: "marked s q" "q \<notin> map_owned s" using own(10) [OF qI] by auto
  have len: "length sb = 128" using own(5) by simp
  define s' where "s' = s\<lparr>dev := (dev s)(q := bytes_of sb)\<rparr>"
  note W = write_sector_ok [OF own(1) marked_less [OF q(1)] q(2), of "bytes_of sb"]
  have A: "allocd a s {} {q} s'" using W(2) len by (simp add: s'_def)
  have in': "inodes s' = inodes s" by (simp add: s'_def)
  have sa: "second_of s' (data (inodes s' a)) = sb" by (simp add: index_at_def s'_def q_def)
  have i: "idx (ptrs s a) sb False n = idx (ptrs s a) sb True n" using n by (simp add: idx_def)
  have d: "q \<notin> {unat (ptrs s a ! 10)} \<union> unat ` set (take (inner_cnt n) sb)"
    using own(7) n by (auto simp: idx_def q_def)
  have B: "blks (dev s') (ptrs s a) sb n = blks (dev s) (ptrs s a) sb n"
  proof -
    have "blk (dev s') (ptrs s a) sb k = blk (dev s) (ptrs s a) sb k" if "k < n" for k
    proof (rule blk_cong' [OF _ that])
      show "dev s' (unat (ptrs s a ! 10)) = dev s (unat (ptrs s a ! 10))" using d by (simp add: s'_def)
      show "dev s' (unat (sb ! j)) = dev s (unat (sb ! j))" if "j < inner_cnt n" for j
        using d that inner_cnt_le [OF own(4)] len nth_mem [of j "take (inner_cnt n) sb"] by (auto simp: s'_def)
    qed
    then show ?thesis by simp
  qed
  have "owns a s' (ptrs s a) sb False n n"
    using O own(9,10) allocdD(3,4,6) [OF A] unfolding owns_def B i by auto
  then have "tree a s' sb False n" using T by (simp add: tree_def in')
  moreover have "free_cnt s' = free_cnt s" using allocd_free_cnt [OF A] by simp
  moreover have "allocd a s {} (set (idx (ptrs s a) sb True n)) s'"
    using allocd_trans [OF allocd_refl [OF own(1)] A, of "set (idx (ptrs s a) sb True n)"] qI by simp
  ultimately have "grew a s sb True n s' sb False []"
    unfolding grew_def in' using i n B by (auto simp: same_meta_def cost_def)
  moreover have "index_write s (ptrs s a ! 11) sb = Some s'"
    using W(1) len by (simp add: index_write_def s'_def q_def)
  ultimately show ?thesis using sa by auto
qed

lemma second_grow:
  assumes T: "tree a s (second_of s (data (inodes s a))) False n" and n: "138 \<le> n" "n < max_blocks" and sec: "0 < sectors"
    and free: "cost False (n + min (max_blocks - n) sectors) \<le> free_cnt s + cost False n"
  shows "\<exists>xs s'. second_indir_alloc (bitmap_write (Suc w)) sectors a s = Some (sectors - length xs, s') \<and>
    length xs = min (max_blocks - n) sectors \<and>
    grew a s (second_of s (data (inodes s a))) False n s' (second_of s' (data (inodes s' a))) False xs"
proof -
  define sa where "sa = second_of s (data (inodes s a))"
  define k where "k = min (max_blocks - n) sectors"
  have k: "0 < k" using n sec by (simp add: k_def)
  have ct: "cost False (n + k) = cost True (n + k)" using k n by (simp add: cost_def)
  have "0 < free_cnt s" if "n = 138" using free [folded k_def] that k by (simp add: cost_def)
  from second_start [OF T n(1) this, of w] obtain sb s1 where
    S: "(if first_level_index (data (inodes s a)) = 0 \<and> second_level_index (data (inodes s a)) = 0
      then do {
        (r, s) \<leftarrow> free_map_allocate (bitmap_write (Suc w)) 1 s;
        let s = (case r of Some sec \<Rightarrow> upd_data a (\<lambda>d. d\<lparr>ptr := (ptr d)[SECOND_LEV_INDEX := sec]\<rparr>) s
                 | None \<Rightarrow> s);
        Some (junk s, s) }
      else do {
        p \<leftarrow> array_get (ptr (data (inodes s a))) SECOND_LEV_INDEX;
        b \<leftarrow> index_read s p;
        Some (b, s) }) = Some (sb, s1)" and G1: "grew a s sa False n s1 sb True []"
    unfolding sa_def by blast
  have T1: "tree a s1 sb True n" and F1: "free_cnt s1 + cost True n = free_cnt s + cost False n"
    using G1 by (simp_all add: grew_def)
  have "cost True (n + min (max_blocks - n) sectors) \<le> free_cnt s1 + cost True n"
    using free F1 ct by (simp add: k_def)
  from second_loop_grow [OF T1 n(1) sec this, of w] obtain xs sb2 s2 where
    L: "second_loop (bitmap_write (Suc w)) sectors a sb s1 = Some (sectors - length xs, sb2, s2)"
      "length xs = k" "grew a s1 sb True n s2 sb2 True xs" unfolding k_def by blast
  have T2: "tree a s2 sb2 True (n + k)" using L(2,3) by (simp add: grew_def)
  obtain s3 where W: "index_write s2 (ptrs s2 a ! 11) sb2 = Some s3"
      "grew a s2 sb2 True (n + k) s3 (second_of s3 (data (inodes s3 a))) False []"
    using second_finish [OF T2] k n by auto
  have G: "grew a s sa False n s2 sb2 True xs" using grew_trans [OF G1] L(3) by simp
  have "length (ptrs s2 a) = 12" using T2 by (simp add: tree_def owns_def)
  then have "second_indir_alloc (bitmap_write (Suc w)) sectors a s = Some (sectors - length xs, s3)"
    using S L(1) W(1) unfolding second_indir_alloc_def by simp
  moreover have "grew a s sa False n s3 (second_of s3 (data (inodes s3 a))) False xs"
    using grew_trans [OF G, of s3 "second_of s3 (data (inodes s3 a))" False "[]"] W(2) L(2) by simp
  ultimately show ?thesis using L(2) unfolding sa_def k_def by blast
qed

section \<open>All levels\<close>

text \<open>Up to 138 blocks the doubly indirect block plays no part.\<close>

lemma small_tree:
  assumes "n \<le> 138"
  shows "blks D p sa n = blks D p sa' n" "idx p sa False n = idx p sa' False n"
    "tree a s sa False n = tree a s sa' False n"
proof -
  show b: "blks D p sa n = blks D p sa' n" for D p using assms by (auto simp: blk_def)
  show i: "idx p sa False n = idx p sa' False n" for p using assms by (simp add: idx_def)
  show "tree a s sa False n = tree a s sa' False n"
    using assms unfolding tree_def owns_def b [of "dev s" "ptrs s a"] i [of "ptrs s a"] by auto
qed

lemma small_grew:
  assumes "n + length xs \<le> 138" "grew a s sa False n s' sa1 False xs"
  shows "grew a s sa False n s' sa2 False xs"
  using assms(2) small_tree(1) [OF assms(1), of "dev s'" "ptrs s' a" sa1 sa2]
    small_tree(2) [OF assms(1), of "ptrs s' a" sa1 sa2] small_tree(3) [OF assms(1), of a s' sa1 sa2]
  unfolding grew_def by metis

lemma direct_step:
  assumes T: "tree a s sa False n" and "min (10 - n) sectors \<le> free_cnt s"
  shows "\<exists>xs s1. direct_loop (bitmap_write (Suc w)) a (direct_level_index (data (inodes s a))) sectors s =
      Some (fst (levels (n + length xs)), sectors - length xs, s1) \<and> length xs = min (10 - n) sectors \<and>
    grew a s sa False n (upd_data a (\<lambda>d. d\<lparr>direct_level_index := fst (levels (n + length xs))\<rparr>) s1) sa False xs \<and>
    (10 < n \<longrightarrow> upd_data a (\<lambda>d. d\<lparr>direct_level_index := fst (levels (n + length xs))\<rparr>) s1 = s)"
proof (cases "n \<le> 10")
  case True
  have "direct_level_index (data (inodes s a)) = n" using T True by (simp add: tree_def levels_small)
  moreover have "fst (levels (n + length xs)) = n + length xs" if "length xs = min (10 - n) sectors" for xs :: "nat list"
    using True that by (simp add: levels_small)
  moreover have "\<not> 10 < n" using True by simp
  ultimately show ?thesis using direct_grow [OF T True assms(2), of w] by metis
next
  case False
  define l where "l = direct_level_index (data (inodes s a))"
  have l: "l = fst (levels n)" using T unfolding tree_def l_def by (metis fst_conv)
  then have "10 \<le> l" using False by (simp add: levels_def)
  then have "direct_loop (bitmap_write (Suc w)) a l sectors s = Some (l, sectors, s)"
    by (subst direct_loop.simps) simp
  moreover have "upd_data a (\<lambda>d. d\<lparr>direct_level_index := l\<rparr>) s = s" by (simp add: l_def)
  ultimately show ?thesis using grew_refl [OF T] False l by (intro exI [of _ "[]"] exI [of _ s]) (simp flip: l_def)
qed

lemma inode_grow_ok:
  assumes T: "tree a s (second_of s (data (inodes s a))) False n" and n: "n = dsectors (data (inodes s a))"
    and len: "bytes_to_sectors L = N" "n \<le> N" "N \<le> max_blocks" "0 \<le> L" "L < 2 ^ 31"
    and free: "cost False N \<le> free_cnt s + cost False n"
  shows "\<exists>xs s'. inode_grow (bitmap_write (Suc w)) L a s = Some (L, s') \<and> length xs = N - n \<and>
    grew a s (second_of s (data (inodes s a))) False n s' (second_of s' (data (inodes s' a))) False xs"
proof (cases "n = N")
  case True
  then show ?thesis using grew_refl [OF T] n len
    by (intro exI [of _ "[]"] exI [of _ s]) (simp add: inode_grow_def inode_length_def)
next
  case False
  define sa where "sa = second_of s (data (inodes s a))"
  define K where "K = N - n"
  have K: "0 < K" "N = n + K" "N < 2 ^ 32" using False len by (auto simp: K_def max_blocks_def)
  have sec: "nat ((int (bytes_to_sectors L) - int (bytes_to_sectors (inode_length a s))) mod 2 ^ 32) = K"
    using len n K by (simp add: inode_length_def)
  have costs: "cost False m \<le> free_cnt s + cost False n" if "m \<le> N" for m
    using cost_mono [OF that, of False] free by simp
  have "min (10 - n) K \<le> free_cnt s"
  proof (cases "n < 10")
    case True
    then show ?thesis using costs [of "n + min (10 - n) K"] K by (simp add: cost_def)
  qed simp
  from direct_step [OF T this, of w] obtain xs1 s1 where
    D: "direct_loop (bitmap_write (Suc w)) a (direct_level_index (data (inodes s a))) K s =
        Some (fst (levels (n + length xs1)), K - length xs1, s1)" "length xs1 = min (10 - n) K"
      "grew a s sa False n (upd_data a (\<lambda>d. d\<lparr>direct_level_index := fst (levels (n + length xs1))\<rparr>) s1) sa False xs1"
      "10 < n \<Longrightarrow> upd_data a (\<lambda>d. d\<lparr>direct_level_index := fst (levels (n + length xs1))\<rparr>) s1 = s"
    unfolding sa_def by blast
  define n1 where "n1 = n + length xs1"
  define s2 where "s2 = upd_data a (\<lambda>d. d\<lparr>direct_level_index := fst (levels n1)\<rparr>) s1"
  have G1: "grew a s sa False n s2 sa False xs1" using D(3) by (simp add: s2_def n1_def)
  have T2: "tree a s2 sa False n1" and F2: "free_cnt s2 + cost False n1 = free_cnt s + cost False n"
    using G1 by (simp_all add: grew_def n1_def)
  define K1 where "K1 = K - length xs1"
  have run1: "inode_grow (bitmap_write (Suc w)) L a s =
     (if K1 = 0 then Some (L, s2)
       else do {
         (sectors, s) \<leftarrow>
           (if fst (levels n1) = FIRST_LEV_INDEX
            then first_indir_alloc (bitmap_write (Suc w)) K1 a s2 else Some (K1, s2));
         if fst (levels n1) = FIRST_LEV_INDEX \<and> sectors = SIZE_MAX then Some (ERROR, s)
         else if fst (levels n1) = FIRST_LEV_INDEX \<and> sectors = 0 then Some (L, s)
         else do {
           let second = (direct_level_index (data (inodes s a)) = SECOND_LEV_INDEX);
           (sectors, s) \<leftarrow> (if second then second_indir_alloc (bitmap_write (Suc w)) sectors a s else Some (sectors, s));
           if second \<and> sectors = SIZE_MAX then Some (ERROR, s)
           else Some (i32 (L - int sectors * BLOCK_SECTOR_SIZE), s) } })"
    using sec K(1) D(1) unfolding inode_grow_def by (simp add: s2_def K1_def n1_def Let_def cong: if_cong)
  show ?thesis
  proof (cases "K1 = 0")
    case True
    then have "n + length xs1 \<le> 10" "length xs1 = K" using D(2) K(1) by (auto simp: K1_def)
    then show ?thesis using run1 True small_grew [OF _ G1, of "second_of s2 (data (inodes s2 a))"]
      unfolding sa_def by (intro exI [of _ xs1] exI [of _ s2]) (simp add: K_def)
  next
    case False
    then have n1: "10 \<le> n1" "n1 + K1 = N" using D(2) K(2) by (auto simp: n1_def K1_def)
    have "\<exists>xs2 s3. (if fst (levels n1) = FIRST_LEV_INDEX
            then first_indir_alloc (bitmap_write (Suc w)) K1 a s2 else Some (K1, s2)) = Some (K1 - length xs2, s3) \<and>
          length xs2 = min (138 - n1) K1 \<and> grew a s2 sa False n1 s3 sa False xs2"
    proof (cases "n1 < 138")
      case True
      have "cost False (n1 + min (138 - n1) K1) \<le> free_cnt s2 + cost False n1"
        unfolding F2 using n1 by (intro costs) simp
      from first_grow [OF T2 n1(1) True _ this, of w] False True n1 show ?thesis by (simp add: levels_first)
    next
      case False
      then show ?thesis using grew_refl [OF T2] by (intro exI [of _ "[]"] exI [of _ s2]) (simp add: levels_second)
    qed
    then obtain xs2 s3 where B: "(if fst (levels n1) = FIRST_LEV_INDEX
            then first_indir_alloc (bitmap_write (Suc w)) K1 a s2 else Some (K1, s2)) = Some (K1 - length xs2, s3)"
          "length xs2 = min (138 - n1) K1" "grew a s2 sa False n1 s3 sa False xs2" by blast
    have G2: "grew a s sa False n s3 sa False (xs1 @ xs2)"
      using grew_trans [OF G1, of s3 sa False xs2] B(3) by (simp add: n1_def)
    define n2 where "n2 = n1 + length xs2"
    define K2 where "K2 = K1 - length xs2"
    have n2: "n2 + K2 = N" "n2 = n + length (xs1 @ xs2)" using B(2) n1 by (simp_all add: n2_def K2_def n1_def)
    have sm: "K2 \<noteq> SIZE_MAX" using n2(1) len(3) by (simp add: SIZE_MAX_def max_blocks_def)
    show ?thesis
    proof (cases "K2 = 0")
      case True
      have "n2 \<le> 138" using True B(2) False by (auto simp: n2_def K2_def)
      moreover have lt: "n1 < 138" using True B(2) False by (simp add: K2_def)
      ultimately have "inode_grow (bitmap_write (Suc w)) L a s = Some (L, s3)"
        using run1 False B(1) True n1(1) sm by (simp add: levels_first K2_def [symmetric])
      moreover have "grew a s sa False n s3 (second_of s3 (data (inodes s3 a))) False (xs1 @ xs2)"
        using small_grew [OF _ G2] \<open>n2 \<le> 138\<close> n2(2) by simp
      ultimately show ?thesis using n2 True unfolding sa_def by (metis K(2) K_def add.right_neutral add_left_cancel)
    next
      case 2: False
      have n2': "138 \<le> n2" "n2 < max_blocks" using 2 B(2) n2(1) len(3) by (auto simp: n2_def K2_def)
      have T3: "tree a s3 (second_of s3 (data (inodes s3 a))) False n2"
      proof (cases "n1 < 138")
        case True
        then have "n2 = 138" using 2 B(2) by (simp add: n2_def K2_def)
        then show ?thesis using B(3) small_tree(3) [of n2 a s3 sa] unfolding grew_def n2_def by simp
      next
        case f: False
        have "xs2 = []" using B(2) f by simp
        moreover have "xs1 = []" using D(2) f by (cases "n < 10") (auto simp: n1_def)
        ultimately have "s3 = s2" "n2 = n" using B(1) f by (auto simp: n2_def n1_def levels_second)
        moreover have "s2 = s" using D(4) f \<open>xs1 = []\<close> by (simp add: s2_def n1_def)
        ultimately show ?thesis using T by simp
      qed
      have F3: "free_cnt s3 + cost False n2 = free_cnt s + cost False n" using G2 n2(2) by (simp add: grew_def)
      have mx: "min (max_blocks - n2) K2 = K2" using n2(1) len(3) by simp
      have "cost False (n2 + min (max_blocks - n2) K2) \<le> free_cnt s3 + cost False n2"
        unfolding F3 mx using n2(1) by (intro costs) simp
      from second_grow [OF T3 n2' _ this, of w] 2 mx obtain xs3 s4 where
        C: "second_indir_alloc (bitmap_write (Suc w)) K2 a s3 = Some (0, s4)" "length xs3 = K2"
          "grew a s3 (second_of s3 (data (inodes s3 a))) False n2 s4 (second_of s4 (data (inodes s4 a))) False xs3"
        by auto
      have "direct_level_index (data (inodes s3 a)) = 11"
        using T3 n2'(1) by (simp add: tree_def levels_second)
      then have "inode_grow (bitmap_write (Suc w)) L a s = Some (L, s4)"
        using run1 False B(1) 2 sm C(1) len(4,5) by (simp add: K2_def [symmetric] SIZE_MAX_def Let_def)
      moreover have "grew a s sa False n s4 (second_of s4 (data (inodes s4 a))) False (xs1 @ xs2 @ xs3)"
      proof -
        have "grew a s sa False n s3 (second_of s3 (data (inodes s3 a))) False (xs1 @ xs2)"
        proof (cases "n1 < 138")
          case True
          then have "n2 = 138" using 2 B(2) by (simp add: n2_def K2_def)
          then show ?thesis using small_grew [OF _ G2] n2(2) by simp
        next
          case f: False
          have "xs2 = []" using B(2) f by simp
          moreover have "xs1 = []" using D(2) f by (cases "n < 10") (auto simp: n1_def)
          ultimately have "s3 = s" using B(1) f D(4) by (auto simp: n1_def levels_second s2_def)
          then show ?thesis using G2 by (simp add: sa_def)
        qed
        from grew_trans [OF this, of s4 "second_of s4 (data (inodes s4 a))" False xs3] C(3) n2(2) show ?thesis by simp
      qed
      moreover have "length (xs1 @ xs2 @ xs3) = N - n" using C(2) n2 by simp
      ultimately show ?thesis unfolding sa_def by blast
    qed
  qed
qed

end
