(* ===== verification/FileOps.thy ===== *)
theory FileOps
  imports FileWrite
begin

text \<open>
  The operations on an inode, seen from outside: an inode is a list of bytes, reading
  returns a part of it, writing overwrites a part and extends the list with zeros where
  needed, and neither touches what belongs to another inode.
\<close>

section \<open>Well-formed files\<close>

definition padded :: "fs \<Rightarrow> inode_disk \<Rightarrow> bool" where
  "padded s d \<longleftrightarrow> raw (dev s) (dblocks s d) =
     dcontent s d @ replicate (512 * dsectors d - nat (flength d)) 0"

definition file_sectors :: "fs \<Rightarrow> inode_disk \<Rightarrow> nat set" where
  "file_sectors s d = set (dblocks s d) \<union> set (dindex s d)"

definition file_ok :: "nat \<Rightarrow> fs \<Rightarrow> bool" where
  "file_ok a s \<longleftrightarrow> a \<noteq> 0 \<and> env a s \<and> inode_ok s (data (inodes s a)) \<and>
     file_sectors s (data (inodes s a)) \<inter> map_owned s = {} \<and> padded s (data (inodes s a))"

definition content :: "fs \<Rightarrow> nat \<Rightarrow> u8 list" where
  "content s a = dcontent s (data (inodes s a))"

text \<open>What a write does to the bytes of a file.\<close>

definition file_put :: "u8 list \<Rightarrow> nat \<Rightarrow> u8 list \<Rightarrow> u8 list" where
  "file_put xs ofs ys = put (xs @ replicate (ofs + length ys - length xs) 0) ofs ys"

lemma length_dcontent:
  assumes "disk_ok s" "inode_ok s d"
  shows "length (dcontent s d) = nat (flength d)" "nat (flength d) \<le> 512 * dsectors d"
proof -
  show "nat (flength d) \<le> 512 * dsectors d" using inode_okD(3) [OF assms(2)] by simp
  then show "length (dcontent s d) = nat (flength d)"
    using length_raw [OF sized_blocks [OF assms]] inode_okD(8) [OF assms(2)] by (simp add: dcontent_def)
qed

lemma env_upd_inode:
  "env a s \<Longrightarrow> env a (upd_inode a f s) \<and> map_owned (upd_inode a f s) = map_owned s \<and>
     map_data (upd_inode a f s) = map_data s"
proof -
  let ?s = "upd_inode a f s"
  assume E: "env a s"
  have mi: "map_inode ?s = map_inode s" if "free_map_file s \<noteq> 0"
    using E that by (simp add: env_def map_inode_def)
  have "inode_ok ?s d = inode_ok s d \<and> disk_ok ?s = disk_ok s" for d
    by (rule inode_ok_same) simp_all
  moreover have "dblocks ?s d = dblocks s d \<and> dindex ?s d = dindex s d" for d
    by (simp add: dblocks_def dindex_def)
  ultimately show ?thesis using E mi by (auto simp: env_def map_owned_def map_data_def)
qed

lemma file_tree:
  assumes "file_ok a s"
  shows "tree a s (second_of s (data (inodes s a))) False (dsectors (data (inodes s a)))"
proof -
  define d where "d = data (inodes s a)"
  have ok: "inode_ok s d" and disj: "file_sectors s d \<inter> map_owned s = {}" and E: "env a s"
    using assms by (auto simp: file_ok_def d_def)
  have sh: "shape s d (second_of s d) False (dsectors d)" using ok by (simp add: inode_ok_def)
  have "owns a s (ptr d) (second_of s d) False (dsectors d) (dsectors d)"
    using sh disj E unfolding shape_def owns_def file_sectors_def dblocks_def dindex_def
    by (auto simp: marked_def)
  moreover have "(direct_level_index d, first_level_index d, second_level_index d) = levels (dsectors d)"
    using sh by (simp add: shape_def)
  ultimately show ?thesis by (simp add: tree_def d_def)
qed

section \<open>Growing a file\<close>

text \<open>The inode after \<open>inode_grow\<close>, with its new length.\<close>

lemma grown_file:
  assumes ok: "file_ok a s" and d: "d = data (inodes s a)" "n = dsectors d"
    and G: "grew a s (second_of s d) False n s' (second_of s' (data (inodes s' a))) False xs"
    and L: "0 \<le> L" "L < 2 ^ 31 - 511" "bytes_to_sectors L = n + length xs" "flength d \<le> L"
    and s2: "s2 = upd_inode a (\<lambda>i. (f i)\<lparr>data := (data (inodes s' a))\<lparr>flength := L\<rparr>\<rparr>) s'"
  shows "file_ok a s2" "content s2 a = content s a @ replicate (nat L - nat (flength d)) 0"
    "dblocks s2 (data (inodes s2 a)) = dblocks s d @ xs"
    "file_sectors s2 (data (inodes s2 a)) \<subseteq> file_sectors s d \<union> {x. \<not> marked s x}"
proof -
  define d2 where "d2 = (data (inodes s' a))\<lparr>flength := L\<rparr>"
  have d2: "data (inodes s2 a) = d2" by (simp add: s2 d2_def)
  obtain X where T: "tree a s' (second_of s' d2) False (n + length xs)"
    and B: "blks (dev s') (ptrs s' a) (second_of s' d2) (n + length xs) = blks (dev s) (ptr d) (second_of s d) n @ xs"
    and Z: "\<forall>x \<in> set xs. dev s' x = zeros"
    and A: "allocd a s X (set (idx (ptr d) (second_of s d) False n)) s'"
    and I: "set (idx (ptrs s' a) (second_of s' d2) False (n + length xs)) \<subseteq> set (idx (ptr d) (second_of s d) False n) \<union> X"
    and X: "set xs \<subseteq> X"
    using G unfolding grew_def d d2_def by auto
  have O: "owns a s' (ptrs s' a) (second_of s' d2) False (n + length xs) (n + length xs)" using T by (simp add: tree_def)
  have nd: "dsectors d2 = n + length xs" using L(3) by (simp add: d2_def)
  have p2: "ptr d2 = ptrs s' a" by (simp add: d2_def)
  have dev2: "dev s2 = dev s'" "dev_size s2 = dev_size s'" "free_map s2 = free_map s'" by (simp_all add: s2)
  have mk: "marked s2 x = marked s' x" for x by (simp add: marked_def dev2)
  have b2: "dblocks s2 d2 = dblocks s d @ xs" using B by (simp add: dblocks_def nd p2 dev2(1) d(2))
  then show "dblocks s2 (data (inodes s2 a)) = dblocks s d @ xs" by (simp add: d2)
  have sok: "inode_ok s d" using ok by (simp add: file_ok_def d)
  have "shape s2 d2 (second_of s2 d2) False (dsectors d2)"
    using O T unfolding shape_def owns_def tree_def nd p2 dev2 mk by (auto simp: d2_def)
  then have ok2: "inode_ok s2 d2" using L by (simp add: inode_ok_def d2_def)
  note E2 = env_upd_inode [OF ownsD(1) [OF O], of "\<lambda>i. (f i)\<lparr>data := d2\<rparr>", folded s2 [folded d2_def]]
  have disj: "file_sectors s2 d2 \<inter> map_owned s2 = {}"
    using ownsD(9,10) [OF O] E2 by (auto simp: file_sectors_def dblocks_def dindex_def nd p2 dev2(1))
  have same: "dev s' x = dev s x" if "x \<in> set (dblocks s d)" for x
  proof -
    have "marked s x" "x \<notin> set (dindex s d)" using inode_okD(7,9) [OF sok] that by blast+
    moreover have "x \<notin> map_data s"
      using ok that envD(5) [of a s] by (auto simp: file_ok_def file_sectors_def d)
    ultimately show ?thesis using allocdD(8) [OF A] by (simp add: dindex_def d(2))
  qed
  have "raw (dev s2) (dblocks s2 d2) = raw (dev s) (dblocks s d) @ concat (map (\<lambda>_. zeros) xs)"
  proof -
    have "map (dev s') (dblocks s d) = map (dev s) (dblocks s d)" "map (dev s') xs = map (\<lambda>_. zeros) xs"
      using same Z by auto
    then show ?thesis by (simp only: b2 dev2(1) map_append concat_append)
  qed
  also have "concat (map (\<lambda>_. zeros) xs) = replicate (512 * length xs) 0"
    by (induction xs) (simp_all add: zeros_def replicate_add)
  finally have r2: "raw (dev s2) (dblocks s2 d2) =
      content s a @ replicate (512 * n - nat (flength d) + 512 * length xs) 0"
    using ok by (simp add: file_ok_def padded_def content_def d replicate_add)
  have dok: "disk_ok s" "disk_ok s2" using envD(1) ok E2 by (auto simp: file_ok_def)
  have lc: "length (content s a) = nat (flength d)" "nat (flength d) \<le> 512 * n"
    using length_dcontent [OF dok(1) sok] by (simp_all add: content_def d)
  have l2: "nat L \<le> 512 * (n + length xs)" using length_dcontent(2) [OF dok(2) ok2] nd by (simp add: d2_def)
  have fl: "nat (flength d) \<le> nat L" using L(4) by simp
  show c2: "content s2 a = content s a @ replicate (nat L - nat (flength d)) 0"
    using lc l2 fl by (simp add: content_def d2 dcontent_def [of s2] r2 [unfolded content_def]) (simp add: d2_def min_def diff_le_mono)
  have "padded s2 d2"
    using r2 c2 lc l2 fl nd unfolding padded_def content_def d2
    by (simp add: replicate_add [symmetric]) (simp add: d2_def)
  then show "file_ok a s2" using ok2 disj E2 ok by (simp add: file_ok_def d2)
  show "file_sectors s2 (data (inodes s2 a)) \<subseteq> file_sectors s d \<union> {x. \<not> marked s x}"
  proof -
    have "X \<subseteq> {x. \<not> marked s x}" using allocdD(7) [OF A] by blast
    moreover have "set (dindex s2 d2) \<subseteq> set (dindex s d) \<union> X"
      using I by (simp add: dindex_def nd p2 dev2(1) d(2))
    ultimately show ?thesis using X b2 by (auto simp: file_sectors_def d2)
  qed
qed

section \<open>Writing\<close>

text \<open>
  What an operation on inode \<open>a\<close> leaves alone: every other inode in memory, the open files,
  and every sector in use that belongs neither to the file nor to the free map.
\<close>

definition same_handle :: "inode \<Rightarrow> inode \<Rightarrow> bool" where
  "same_handle i i' \<longleftrightarrow> open_cnt i' = open_cnt i \<and> deny_write_cnt i' = deny_write_cnt i \<and>
     removed i' = removed i \<and> sector i' = sector i \<and> ilock i' = ilock i"

definition outside :: "nat \<Rightarrow> fs \<Rightarrow> fs \<Rightarrow> bool" where
  "outside a s s' \<longleftrightarrow> dev_size s' = dev_size s \<and> open_inodes s' = open_inodes s \<and> files s' = files s \<and>
     free_map_file s' = free_map_file s \<and> (\<forall>b. b \<noteq> a \<longrightarrow> inodes s' b = inodes s b) \<and>
     same_handle (inodes s a) (inodes s' a) \<and> (\<forall>y. marked s y \<longrightarrow> marked s' y) \<and>
     (\<forall>y. marked s y \<and> y \<notin> file_sectors s (data (inodes s a)) \<and> y \<notin> map_data s \<longrightarrow> dev s' y = dev s y) \<and>
     file_sectors s' (data (inodes s' a)) \<subseteq> file_sectors s (data (inodes s a)) \<union> {x. \<not> marked s x}"

lemma take_put: "i + length ys \<le> n \<Longrightarrow> n \<le> length xs \<Longrightarrow> take n (put xs i ys) = put (take n xs) i ys"
  by (rule nth_equalityI) (auto simp: nth_put)

lemma drop_put: "i + length ys \<le> n \<Longrightarrow> n \<le> length xs \<Longrightarrow> drop n (put xs i ys) = drop n xs"
  by (rule nth_equalityI) (auto simp: nth_put)

text \<open>A write inside the file.\<close>

lemma write_inside:
  assumes ok: "file_ok a s" and "0 \<le> ofs" "0 \<le> sz" "ofs + sz \<le> inode_length a s" "nat sz \<le> length buf"
  shows "\<exists>s'. write_loop a buf sz ofs 0 False s = Some (sz, s') \<and> file_ok a s' \<and>
    content s' a = put (content s a) (nat ofs) (take (nat sz) buf) \<and> outside a s s' \<and>
    data (inodes s' a) = data (inodes s a) \<and> file_sectors s' (data (inodes s a)) = file_sectors s (data (inodes s a))"
proof -
  define d where "d = data (inodes s a)"
  have E: "env a s" and iok: "inode_ok s d" and pad: "padded s d" and disj: "file_sectors s d \<inter> map_owned s = {}" and a0: "a \<noteq> 0"
    using ok by (auto simp: file_ok_def d_def)
  note dok = envD(1) [OF E]
  have l: "0 + sz \<le> int (length buf)" using assms(3,5) by simp
  obtain D' c where W: "write_loop a buf sz ofs 0 False s = Some (sz, s\<lparr>dev := D', heap_calls := c\<rparr>)"
    "rewritten (set (dblocks s d)) (dev s) D'"
    "raw D' (dblocks s d) = put (raw (dev s) (dblocks s d)) (nat ofs) (take (nat sz) buf)"
    using write_loop_ok [OF dok iok [unfolded d_def] a0 assms(2,3,4) _ l envD(2) [OF E], of False]
    by (auto simp: d_def)
  define s' where "s' = s\<lparr>dev := D', heap_calls := c\<rparr>"
  have F: "disk_ok s'" "inode_ok s' d" "dblocks s' d = dblocks s d" "dindex s' d = dindex s d"
    using rewritten_file [OF dok iok, of s'] W(2) by (simp_all add: s'_def)
  have mk: "marked s' x = marked s x" for x by (simp add: marked_def s'_def)
  have off: "dev s' x = dev s x" if "x \<notin> set (dblocks s d)" for x using W(2) that by (simp add: rewritten_def s'_def)
  have "\<forall>x \<in> map_owned s - map_data s. dev s' x = dev s x" "\<forall>x \<in> map_owned s. marked s' x"
    using off disj envD(6) [OF E] mk by (auto simp: file_sectors_def)
  then have M: "env a s'" "map_owned s' = map_owned s"
    using map_frame [OF E, of s'] F(1) by (simp_all add: s'_def)
  define xs where "xs = take (nat sz) buf"
  have lx: "nat ofs + length xs \<le> nat (flength d)" using assms(2-5) by (simp add: xs_def inode_length_def d_def)
  have lr: "nat (flength d) \<le> length (raw (dev s) (dblocks s d))"
    using length_dcontent [OF dok iok] length_raw [OF sized_blocks [OF dok iok]] inode_okD(8) [OF iok] by simp
  have c: "dcontent s' d = put (dcontent s d) (nat ofs) xs"
    using W(3) take_put [OF lx lr] by (simp add: dcontent_def F(3)) (simp add: s'_def xs_def)
  have "raw D' (dblocks s d) = take (nat (flength d)) (raw D' (dblocks s d)) @ drop (nat (flength d)) (raw (dev s) (dblocks s d))"
    using drop_put [OF lx lr] W(3) append_take_drop_id [of "nat (flength d)" "raw D' (dblocks s d)"] by (simp add: xs_def)
  moreover have "drop (nat (flength d)) (raw (dev s) (dblocks s d)) = replicate (512 * dsectors d - nat (flength d)) 0"
    using pad length_dcontent(1) [OF dok iok] unfolding padded_def by simp
  ultimately have "padded s' d" unfolding padded_def dcontent_def F(3) by (simp add: s'_def)
  then have "file_ok a s'" using F M a0 disj by (simp add: file_ok_def s'_def d_def file_sectors_def)
  moreover have fs: "file_sectors s' d = file_sectors s d" by (simp add: file_sectors_def F)
  have dd: "data (inodes s' a) = d" by (simp add: s'_def d_def)
  have "outside a s s'"
    using off mk fs unfolding outside_def dd d_def [symmetric]
    by (auto simp: file_sectors_def same_handle_def) (simp_all add: s'_def)
  ultimately show ?thesis using W(1) c fs by (auto simp: s'_def content_def d_def xs_def)
qed

lemma inode_write_ok:
  assumes ok: "file_ok a s" and d: "d = data (inodes s a)"
    and wr: "deny_write_cnt (inodes s a) = 0" "\<not> ilock (inodes s a)"
    and rng: "0 \<le> ofs" "0 \<le> sz" "ofs + sz < 2 ^ 31 - 511" "nat sz \<le> length buf"
    and N: "N = bytes_to_sectors (max (flength d) (ofs + sz))" "N \<le> max_blocks"
      "cost False N \<le> free_cnt s + cost False (dsectors d)"
  shows "\<exists>s'. inode_write_at (bitmap_write (Suc w)) a buf sz ofs s = Some (sz, s') \<and> file_ok a s' \<and>
    content s' a = file_put (content s a) (nat ofs) (take (nat sz) buf) \<and> outside a s s' \<and>
    same_meta ((data (inodes s a))\<lparr>flength := max (flength d) (ofs + sz)\<rparr>) (data (inodes s' a))"
proof -
  have E: "env a s" and iok: "inode_ok s d" and a0: "a \<noteq> 0" using ok by (auto simp: file_ok_def d)
  have dok: "disk_ok s" using envD(1) [OF E] .
  have lc: "length (content s a) = nat (flength d)" using length_dcontent [OF dok iok] by (simp add: content_def d)
  have i: "i32 (ofs + sz) = ofs + sz" using rng by simp
  show ?thesis
  proof (cases "ofs + sz \<le> flength d")
    case True
    then have "ofs + sz \<le> inode_length a s" by (simp add: inode_length_def d)
    from write_inside [OF ok rng(1,2) this rng(4)] show ?thesis
      using True wr i lc rng by (auto simp: inode_write_at_def inode_length_def d file_put_def same_meta_def max_def)
  next
    case False
    define L where "L = ofs + sz"
    define s1 where "s1 = (if sub_dir d then s else upd_inode a (\<lambda>i. i\<lparr>ilock := True\<rparr>) s)"
    have s1: "data (inodes s1 a) = d" "dev s1 = dev s" "dev_size s1 = dev_size s" "free_map s1 = free_map s"
      "free_cnt s1 = free_cnt s" "\<And>x. marked s1 x = marked s x"
      by (simp_all add: s1_def d free_cnt_def marked_def)
    have E1: "env a s1" "map_owned s1 = map_owned s" "map_data s1 = map_data s"
      using env_upd_inode [OF E, of "\<lambda>i. i\<lparr>ilock := True\<rparr>"] E by (simp_all add: s1_def)
    have same: "dblocks s1 x = dblocks s x" "dindex s1 x = dindex s x" "dcontent s1 x = dcontent s x"
      "inode_ok s1 x = inode_ok s x" for x
      using inode_ok_same [of s1 s] s1 by (simp_all add: dblocks_def dindex_def dcontent_def)
    have ok1: "file_ok a s1" using ok E1 s1(1) same s1(2)
      by (simp add: file_ok_def d file_sectors_def padded_def)
    have NL: "bytes_to_sectors L = N" using False N(1) by (simp add: L_def max_def)
    have nN: "dsectors d \<le> N"
      using False rng inode_okD(1,3) [OF iok] NL bytes_to_sectors_eq [of L] by (simp add: L_def div_le_mono)
    have T1: "tree a s1 (second_of s1 (data (inodes s1 a))) False (dsectors d)"
      using file_tree [OF ok1] s1(1) by simp
    obtain xs s2 where G: "inode_grow (bitmap_write (Suc w)) L a s1 = Some (L, s2)" "length xs = N - dsectors d"
      "grew a s1 (second_of s1 d) False (dsectors d) s2 (second_of s2 (data (inodes s2 a))) False xs"
    proof -
      have "0 \<le> L" "L < 2 ^ 31" "dsectors d = dsectors (data (inodes s1 a))"
        "cost False N \<le> free_cnt s1 + cost False (dsectors d)"
        using rng s1(1,5) N(3) by (simp_all add: L_def)
      from inode_grow_ok [OF T1 this(3) NL nN N(2) this(1,2,4), of w] s1(1) that show thesis by auto
    qed
    obtain X where A: "allocd a s1 X (set (idx (ptr d) (second_of s1 d) False (dsectors d))) s2"
      and meta: "same_meta d (data (inodes s2 a))" using G(3) s1(1) unfolding grew_def by metis
    define unlock where "unlock = (\<lambda>i :: inode. if sub_dir d then i else i\<lparr>ilock := False\<rparr>)"
    define s3 where "s3 = upd_inode a (\<lambda>i. (unlock i)\<lparr>data := (data (inodes s2 a))\<lparr>flength := L\<rparr>\<rparr>) s2"
    have l2: "bytes_to_sectors L = dsectors d + length xs" using NL G(2) nN by simp
    have fl: "flength d \<le> L" "0 \<le> L" "L < 2 ^ 31 - 511" using False rng by (simp_all add: L_def)
    note F = grown_file [where f = unlock, OF ok1 s1(1) [symmetric] refl G(3) fl(2,3) l2 fl(1) s3_def]
    have nd: "deny_write_cnt (inodes s2 a) = 0" "ilock (inodes s2 a) = (\<not> sub_dir d)"
      "sub_dir (data (inodes s2 a)) = sub_dir d"
    proof -
      have *: "(inodes s2 a)\<lparr>data := data (inodes s1 a)\<rparr> = inodes s1 a" using A by (simp add: allocd_def)
      from arg_cong [OF *, of deny_write_cnt] arg_cong [OF *, of ilock]
      show "deny_write_cnt (inodes s2 a) = 0" "ilock (inodes s2 a) = (\<not> sub_dir d)"
        using wr by (auto simp: s1_def)
      show "sub_dir (data (inodes s2 a)) = sub_dir d" using meta by (simp add: same_meta_def)
    qed
    have len3: "inode_length a s3 = L" by (simp add: inode_length_def s3_def)
    have comm: "i\<lparr>data := e, ilock := False\<rparr> = i\<lparr>ilock := False, data := e\<rparr>" for i :: inode and e by simp
    have run: "inode_write_at (bitmap_write (Suc w)) a buf sz ofs s = write_loop a buf sz ofs 0 False s3"
      using False wr i G(1) nd by (auto simp: inode_write_at_def inode_length_def d L_def s1_def s3_def unlock_def comm)
    from write_inside [OF F(1) rng(1,2) _ rng(4)] len3 obtain s4 where
      W: "write_loop a buf sz ofs 0 False s3 = Some (sz, s4)" "file_ok a s4"
        "content s4 a = put (content s3 a) (nat ofs) (take (nat sz) buf)" "outside a s3 s4"
        "data (inodes s4 a) = data (inodes s3 a)" "file_sectors s4 (data (inodes s3 a)) = file_sectors s3 (data (inodes s3 a))"
      by (auto simp: L_def)
    have "content s3 a = content s a @ replicate (nat L - nat (flength d)) 0"
      using F(2) same(3) s1(1) by (simp add: content_def d)
    then have "content s4 a = file_put (content s a) (nat ofs) (take (nat sz) buf)"
      using W(3) lc rng by (simp add: file_put_def L_def nat_add_distrib)
    moreover have "outside a s s4"
    proof -
      have *: "(inodes s2 a)\<lparr>data := data (inodes s1 a)\<rparr> = inodes s1 a" using A by (simp add: allocd_def)
      have h2: "open_cnt (inodes s2 a) = open_cnt (inodes s a)" "removed (inodes s2 a) = removed (inodes s a)"
        "sector (inodes s2 a) = sector (inodes s a)"
        using arg_cong [OF *, of open_cnt] arg_cong [OF *, of removed] arg_cong [OF *, of sector]
        by (simp_all add: s1_def)
      have hd: "same_handle (inodes s a) (inodes s4 a)"
        using W(4) h2 nd wr by (auto simp: outside_def same_handle_def s3_def unlock_def)
      have m3: "map_data s3 = map_data s"
        using env_upd_inode [OF allocdD(3) [OF A], of "\<lambda>i. (unlock i)\<lparr>data := (data (inodes s2 a))\<lparr>flength := L\<rparr>\<rparr>"]
          allocdD(5) [OF A] E1(3) by (simp add: s3_def)
      have mk3: "marked s3 y \<longleftrightarrow> marked s2 y" for y by (simp add: s3_def marked_def)
      have dv: "dev s4 y = dev s y" if y: "marked s y" "y \<notin> file_sectors s d" "y \<notin> map_data s" for y
      proof -
        have "y \<notin> set (idx (ptr d) (second_of s1 d) False (dsectors d))"
          using y(2) by (simp add: file_sectors_def dindex_def s1(2))
        then have "dev s3 y = dev s y" using allocdD(8) [OF A] y E1(3) s1 by (simp add: s3_def)
        moreover have "marked s3 y" using allocdD(6) [OF A] y(1) s1(6) mk3 by simp
        moreover have "y \<notin> file_sectors s3 (data (inodes s3 a))"
          using F(4) y s1(6) same by (auto simp: file_sectors_def)
        ultimately show ?thesis using W(4) y(3) m3 by (simp add: outside_def)
      qed
      have "inodes s1 b = inodes s b \<and> inodes s2 b = inodes s1 b \<and> inodes s3 b = inodes s2 b" if "b \<noteq> a" for b
        using that A by (simp add: s1_def s3_def allocd_def)
      moreover have "dev_size s3 = dev_size s" "open_inodes s3 = open_inodes s" "files s3 = files s"
        "free_map_file s3 = free_map_file s"
        using A by (simp_all add: s1_def s3_def allocd_def)
      moreover have "marked s3 y" if "marked s y" for y using allocdD(6) [OF A] that s1(6) mk3 by simp
      moreover have "file_sectors s4 (data (inodes s4 a)) \<subseteq> file_sectors s d \<union> {x. \<not> marked s x}"
        using F(4) W(5,6) same s1(6) by (simp add: file_sectors_def)
      ultimately show ?thesis using W(4) hd dv unfolding outside_def d by auto
    qed
    moreover have "same_meta (d\<lparr>flength := max (flength d) (ofs + sz)\<rparr>) (data (inodes s4 a))"
      using W(5) meta False by (simp add: s3_def same_meta_def L_def max_def)
    ultimately show ?thesis using run W(1,2) d by auto
  qed
qed

end
