(* ===== verification/FileRelease.thy ===== *)
theory FileRelease
  imports FileOps
begin

text \<open>
  Removing files: what \<open>inode_deallocate\<close> gives back to the free map.
\<close>

section \<open>Releasing sectors\<close>

text \<open>From \<open>s\<close> to \<open>s'\<close> exactly the sectors \<open>X\<close> became free, and only the free map was written.\<close>

definition freed :: "nat \<Rightarrow> fs \<Rightarrow> nat set \<Rightarrow> fs \<Rightarrow> bool" where
  "freed a s X s' \<longleftrightarrow> inodes s' = inodes s \<and> open_inodes s' = open_inodes s \<and> files s' = files s \<and>
     free_map_file s' = free_map_file s \<and> dev_size s' = dev_size s \<and>
     env a s' \<and> map_owned s' = map_owned s \<and> map_data s' = map_data s \<and>
     (\<forall>y. marked s' y \<longleftrightarrow> marked s y \<and> y \<notin> X) \<and> (\<forall>y. y \<notin> map_data s \<longrightarrow> dev s' y = dev s y)"

lemma freedD:
  assumes "freed a s X s'"
  shows "inodes s' = inodes s" "env a s'" "map_owned s' = map_owned s" "free_map_file s' = free_map_file s"
    "marked s' y \<longleftrightarrow> marked s y \<and> y \<notin> X" "y \<notin> map_data s \<Longrightarrow> dev s' y = dev s y"
  using assms by (auto simp: freed_def)

lemma freed_refl: "env a s \<Longrightarrow> freed a s {} s"
  by (simp add: freed_def)

lemma freed_trans: "\<lbrakk>freed a s X s1; freed a s1 Y s2\<rbrakk> \<Longrightarrow> freed a s (X \<union> Y) s2"
  by (auto simp: freed_def)

text \<open>The states in which sector \<open>x\<close> can be released.\<close>

definition releasable :: "fs \<Rightarrow> nat \<Rightarrow> bool" where
  "releasable s x \<longleftrightarrow> marked s x \<and> x \<notin> map_owned s"

lemma freed_releasable: "\<lbrakk>freed a s X s'; releasable s y; y \<notin> X\<rbrakk> \<Longrightarrow> releasable s' y"
  by (auto simp: freed_def releasable_def)

lemma free_map_release_ok:
  assumes E: "env a s" and f: "free_map_file s \<noteq> 0" and x: "releasable s (unat p)"
  shows "\<exists>s'. free_map_release (bitmap_write (Suc n)) p 1 s = Some s' \<and> freed a s {unat p} s'"
proof -
  have dok: "disk_ok s" using envD(1) [OF E] .
  then have bok: "bitmap_ok (free_map s)" "bit_cnt (free_map s) = dev_size s" by (auto simp: disk_ok_def)
  have px: "unat p < dev_size s" "bm (free_map s) ! unat p" using x by (auto simp: releasable_def marked_def)
  have run: "bit_run (bm (free_map s)) (unat p) 1 True" using px bok by (simp add: bit_run_def)
  obtain b where b: "bitmap_all (free_map s) (unat p) 1 = Some True"
      "bitmap_set_multiple (free_map s) (unat p) 1 False = Some b" "bitmap_ok b"
      "bm b = fill (bm (free_map s)) (unat p) 1 False"
    using bitmap_alloc.release_marked [OF bok(1) run] by blast
  have bc: "bit_cnt b = dev_size s" using arg_cong [OF b(4), of length] px bok by simp
  define s1 where "s1 = s\<lparr>free_map := b\<rparr>"
  have mk: "marked s1 y \<longleftrightarrow> marked s y \<and> y \<noteq> unat p" for y
    using px b bc bok(2) by (auto simp: marked_def s1_def nth_fill split: if_splits)
  have dok1: "disk_ok s1" using dok b bc by (simp add: disk_ok_def s1_def)
  have "\<forall>y \<in> map_owned s. marked s1 y" using envD(6) [OF E] mk x by (auto simp: releasable_def)
  then have M1: "env a s1" "map_owned s1 = map_owned s" "map_data s1 = map_data s"
    using map_frame [OF E, of s1] dok1 by (simp_all add: s1_def)
  obtain D' c where w: "bitmap_write (Suc n) s1 = Some (True, s1\<lparr>dev := D', heap_calls := c\<rparr>)"
      "rewritten (map_data s1) (dev s1) D'"
    using map_write_ok [OF M1(1), of n] f unfolding s1_def by auto
  define s2 where "s2 = s1\<lparr>dev := D', heap_calls := c\<rparr>"
  have mk2: "marked s2 y = marked s1 y" for y by (simp add: marked_def s2_def)
  have "disk_ok s2" using dok1 w(2) by (simp add: disk_ok_def rewritten_def s2_def)
  moreover have "\<forall>y \<in> map_owned s1. marked s2 y" using mk2 envD(6) [OF M1(1)] by simp
  moreover have "\<forall>y \<in> map_owned s1 - map_data s1. dev s2 y = dev s1 y"
    using w(2) by (simp add: rewritten_def s2_def)
  ultimately have M2: "env a s2" "map_owned s2 = map_owned s1" "map_data s2 = map_data s1"
    using map_frame [OF M1(1), of s2] by (simp_all add: s2_def)
  have "freed a s {unat p} s2"
    using M1 M2 mk mk2 w(2) by (auto simp: freed_def s2_def s1_def rewritten_def)
  moreover have "free_map_release (bitmap_write (Suc n)) p 1 s = Some s2"
    using b w(1) by (simp add: free_map_release_def s1_def [symmetric] s2_def [symmetric])
  ultimately show ?thesis by blast
qed

lemma release_block_ok:
  assumes "env a s" "free_map_file s \<noteq> 0" "length ps = 128" "index < 128" "0 < sz"
    "distinct (map unat (take (min (128 - index) sz) (drop index ps)))"
    "\<forall>x \<in> set (map unat (take (min (128 - index) sz) (drop index ps))). releasable s x"
  shows "\<exists>s'. release_block (bitmap_write (Suc n)) ps index sz s = Some (sz - min (128 - index) sz, s') \<and>
    freed a s (unat ` set (take (min (128 - index) sz) (drop index ps))) s'"
  using assms
proof (induction sz arbitrary: index s)
  case (Suc sz)
  have d: "drop index ps = ps ! index # drop (Suc index) ps" using Suc.prems(3,4) by (simp add: Cons_nth_drop_Suc)
  define k where "k = min (128 - Suc index) sz"
  have k: "min (128 - index) (Suc sz) = Suc k" using Suc.prems(4) by (simp add: k_def)
  note P = Suc.prems(6,7) [unfolded k d]
  have x: "releasable s (unat (ps ! index))" using P(2) by simp
  obtain s1 where s1: "free_map_release (bitmap_write (Suc n)) (ps ! index) 1 s = Some s1" "freed a s {unat (ps ! index)} s1"
    using free_map_release_ok [OF Suc.prems(1,2) x] by blast
  show ?case
  proof (cases "sz = 0 \<or> \<not> Suc index < 128")
    case True
    then have "k = 0" using Suc.prems(4) by (auto simp: k_def)
    moreover have "release_block (bitmap_write (Suc n)) ps index (Suc sz) s = Some (sz, s1)"
      using s1(1) True Suc.prems(3,4) by (subst release_block.simps, subst release_block.simps) auto
    ultimately show ?thesis using s1(2) k d True by (auto simp: k_def)
  next
    case False
    have "\<exists>s'. release_block (bitmap_write (Suc n)) ps (Suc index) sz s1 = Some (sz - k, s') \<and>
        freed a s1 (unat ` set (take k (drop (Suc index) ps))) s'"
      unfolding k_def
    proof (rule Suc.IH)
      show "distinct (map unat (take (min (128 - Suc index) sz) (drop (Suc index) ps)))"
        using Suc.prems(6) unfolding k d k_def by simp
      show "\<forall>x \<in> set (map unat (take (min (128 - Suc index) sz) (drop (Suc index) ps))). releasable s1 x"
      proof
        fix x assume x: "x \<in> set (map unat (take (min (128 - Suc index) sz) (drop (Suc index) ps)))"
        have "x \<noteq> unat (ps ! index)" "releasable s x"
          using x P unfolding k_def [symmetric] take_Suc_Cons list.map distinct.simps list.set by blast+
        then show "releasable s1 x" using freed_releasable [OF s1(2)] by blast
      qed
    qed (use False Suc.prems(2,3) s1(2) in \<open>simp_all add: freed_def\<close>)
    then obtain s2 where s2: "release_block (bitmap_write (Suc n)) ps (Suc index) sz s1 = Some (sz - k, s2)"
      "freed a s1 (unat ` set (take k (drop (Suc index) ps))) s2" by blast
    have "release_block (bitmap_write (Suc n)) ps index (Suc sz) s = Some (Suc sz - Suc k, s2)"
      using s1(1) s2(1) False Suc.prems(3,4) by (subst release_block.simps) auto
    moreover have "freed a s (unat ` set (take (Suc k) (drop index ps))) s2"
      using freed_trans [OF s1(2) s2(2)] unfolding d by simp
    ultimately show ?thesis unfolding k by blast
  qed
qed simp

lemma release_direct_ok:
  assumes "env a s" "free_map_file s \<noteq> 0" "length (ptrs s a) = 12" "index < 10" "0 < sz"
    "distinct (map unat (take (min (10 - index) sz) (drop index (ptrs s a))))"
    "\<forall>x \<in> set (map unat (take (min (10 - index) sz) (drop index (ptrs s a)))). releasable s x"
  shows "\<exists>s'. release_direct (bitmap_write (Suc n)) a index sz s = Some (sz - min (10 - index) sz, s') \<and>
    freed a s (unat ` set (take (min (10 - index) sz) (drop index (ptrs s a)))) s'"
  using assms
proof (induction sz arbitrary: index s)
  case (Suc sz)
  define ps where "ps = ptrs s a"
  have len: "length ps = 12" using Suc.prems(3) by (simp add: ps_def)
  have d: "drop index ps = ps ! index # drop (Suc index) ps" using len Suc.prems(4) by (simp add: Cons_nth_drop_Suc)
  define k where "k = min (10 - Suc index) sz"
  have k: "min (10 - index) (Suc sz) = Suc k" using Suc.prems(4) by (simp add: k_def)
  note P = Suc.prems(6,7) [folded ps_def, unfolded k d]
  have x: "releasable s (unat (ps ! index))" using P(2) by simp
  obtain s1 where s1: "free_map_release (bitmap_write (Suc n)) (ps ! index) 1 s = Some s1" "freed a s {unat (ps ! index)} s1"
    using free_map_release_ok [OF Suc.prems(1,2) x] by blast
  have p1: "ptrs s1 a = ps" using freedD(1) [OF s1(2)] by (simp add: ps_def)
  show ?case
  proof (cases "sz = 0 \<or> \<not> Suc index < 10")
    case True
    then have "k = 0" using Suc.prems(4) by (auto simp: k_def)
    moreover have "release_direct (bitmap_write (Suc n)) a index (Suc sz) s = Some (sz, s1)"
      using s1(1) True len Suc.prems(4) by (subst release_direct.simps, subst release_direct.simps) (auto simp: ps_def)
    ultimately show ?thesis using s1(2) k d True by (auto simp: k_def ps_def [symmetric])
  next
    case False
    have "\<exists>s'. release_direct (bitmap_write (Suc n)) a (Suc index) sz s1 = Some (sz - k, s') \<and>
        freed a s1 (unat ` set (take k (drop (Suc index) (ptrs s1 a)))) s'"
      unfolding k_def
    proof (rule Suc.IH, unfold p1)
      show "distinct (map unat (take (min (10 - Suc index) sz) (drop (Suc index) ps)))"
        using P(1) unfolding k_def by simp
      show "\<forall>x \<in> set (map unat (take (min (10 - Suc index) sz) (drop (Suc index) ps))). releasable s1 x"
      proof
        fix x assume x: "x \<in> set (map unat (take (min (10 - Suc index) sz) (drop (Suc index) ps)))"
        have "x \<noteq> unat (ps ! index)" "releasable s x"
          using x P unfolding k_def [symmetric] take_Suc_Cons list.map distinct.simps list.set by blast+
        then show "releasable s1 x" using freed_releasable [OF s1(2)] by blast
      qed
    qed (use False Suc.prems(2) s1(2) len in \<open>simp_all add: freed_def\<close>)
    then obtain s2 where s2: "release_direct (bitmap_write (Suc n)) a (Suc index) sz s1 = Some (sz - k, s2)"
      "freed a s1 (unat ` set (take k (drop (Suc index) ps))) s2" by (auto simp: p1)
    have "release_direct (bitmap_write (Suc n)) a index (Suc sz) s = Some (Suc sz - Suc k, s2)"
      using s1(1) s2(1) False len Suc.prems(4) by (subst release_direct.simps) (auto simp: ps_def)
    moreover have "freed a s (unat ` set (take (Suc k) (drop index ps))) s2"
      using freed_trans [OF s1(2) s2(2)] unfolding d by simp
    ultimately show ?thesis unfolding k ps_def by blast
  qed
qed simp

section \<open>The levels\<close>

text \<open>The blocks that an index block names, as the \<open>k\<close> blocks of the file from \<open>base\<close> on.\<close>

lemma leaf_blocks:
  assumes "is_leaf base" "k \<le> 128" "length (index_at D (leaf p sa base)) = 128"
  shows "map unat (take k (index_at D (leaf p sa base))) = map (blk D p sa) [base..<base + k]"
proof (rule nth_equalityI)
  fix i assume "i < length (map unat (take k (index_at D (leaf p sa base))))"
  then have i: "i < k" "i < 128" using assms(2,3) by auto
  with leaf_blk [OF assms(1), of "base + i" D p sa] assms(3)
  show "map unat (take k (index_at D (leaf p sa base))) ! i = map (blk D p sa) [base..<base + k] ! i" by simp
qed (use assms in simp)

lemma release_leaf_ok:
  assumes "env a s" "free_map_file s \<noteq> 0" "is_leaf base" "0 < sz"
    and q: "unat (leaf p sa base) < dev_size s"
    and rel: "distinct (map (blk (dev s) p sa) [base..<base + min 128 sz])"
      "\<forall>x \<in> set (map (blk (dev s) p sa) [base..<base + min 128 sz]). releasable s x"
  shows "index_read s (leaf p sa base) = Some (index_at (dev s) (leaf p sa base))"
    "\<exists>s'. release_block (bitmap_write (Suc n)) (index_at (dev s) (leaf p sa base)) 0 sz s = Some (sz - 128, s') \<and>
    freed a s (set (map (blk (dev s) p sa) [base..<base + min 128 sz])) s'"
proof -
  have len: "length (index_at (dev s) (leaf p sa base)) = 128"
    using envD(1) [OF assms(1)] q by (simp add: index_at_def disk_ok_def)
  have m: "map unat (take (min (128 - 0) sz) (drop 0 (index_at (dev s) (leaf p sa base)))) =
      map (blk (dev s) p sa) [base..<base + min 128 sz]"
    using leaf_blocks [OF assms(3) _ len, of "min 128 sz"] by simp
  show "index_read s (leaf p sa base) = Some (index_at (dev s) (leaf p sa base))"
    using q by (simp add: index_read_def sector_read_def index_at_def)
  have "sz - min (128 - 0) sz = sz - 128" by simp
  with release_block_ok [OF assms(1,2) len, of 0 sz n, unfolded m] assms(4) rel m
  show "\<exists>s'. release_block (bitmap_write (Suc n)) (index_at (dev s) (leaf p sa base)) 0 sz s = Some (sz - 128, s') \<and>
    freed a s (set (map (blk (dev s) p sa) [base..<base + min 128 sz])) s'"
    by (simp only: set_map [symmetric] m)
qed

lemma release_second_ok:
  assumes "env a s" "free_map_file s \<noteq> 0" "length sb = 128" "n \<le> max_blocks"
    "138 + 128 * j < n" "sz = n - (138 + 128 * j)"
    "\<forall>t < inner_cnt n. unat (sb ! t) < dev_size s \<and> unat (sb ! t) \<notin> map_data s"
    "distinct (map (blk (dev s) p sb) [138 + 128 * j..<n])"
    "\<forall>x \<in> set (map (blk (dev s) p sb) [138 + 128 * j..<n]). releasable s x"
  shows "\<exists>s'. release_second (bitmap_write (Suc w)) sb j sz s = Some (0, s') \<and>
    freed a s (set (map (blk (dev s) p sb) [138 + 128 * j..<n])) s'"
  using assms
proof (induction sz arbitrary: s j rule: less_induct)
  case (less sz)
  define base where "base = 138 + 128 * j"
  have j: "j < 128" using less.prems(4,5) by (simp add: max_blocks_def)
  have lf: "is_leaf base" using j by (auto simp: is_leaf_def base_def)
  have lfq: "leaf p sb base = sb ! j" by (simp add: leaf_def base_def)
  define k where "k = min 128 sz"
  have k: "0 < k" "base + k \<le> n" using less.prems(5,6) by (auto simp: k_def base_def)
  have jc: "j < inner_cnt n" using less.prems(5) by (simp add: inner_cnt_def)
  have split: "[base..<n] = [base..<base + k] @ [base + k..<n]" using k(2) upt_add_eq_append [of base "base + k" "n - (base + k)"] by simp
  note D = less.prems(8,9) [folded base_def, unfolded split map_append distinct_append set_append]
  have rel: "distinct (map (blk (dev s) p sb) [base..<base + min 128 sz])"
    "\<forall>x \<in> set (map (blk (dev s) p sb) [base..<base + min 128 sz]). releasable s x"
    using D unfolding k_def by blast+
  have q: "unat (leaf p sb base) < dev_size s" using less.prems(7) jc lfq by simp
  have sz0: "0 < sz" using less.prems(5,6) by simp
  note R = release_leaf_ok(1) [OF less.prems(1,2) lf sz0 q rel, unfolded lfq]
    release_leaf_ok(2) [OF less.prems(1,2) lf sz0 q rel, of w, unfolded lfq, folded k_def]
  obtain s1 where s1: "second_level_dealloc_deep (bitmap_write (Suc w)) sz j sb s = Some (sz - 128, s1)"
    "freed a s (set (map (blk (dev s) p sb) [base..<base + k])) s1"
    using R j less.prems(3) by (auto simp: second_level_dealloc_deep_def)
  show ?case
  proof (cases "sz \<le> 128")
    case True
    then have "base + k = n" using less.prems(5,6) by (simp add: k_def base_def)
    then show ?thesis using s1 True j unfolding base_def by (subst release_second.simps) simp
  next
    case False
    have b1: "blk (dev s1) p sb i = blk (dev s) p sb i" if "138 \<le> i" "i < n" for i
      using less.prems(7) inner_less [OF that] freedD(6) [OF s1(2)] that by (simp add: blk_def index_at_def)
    have k128: "base + k = 138 + 128 * Suc j" using False by (simp add: k_def base_def)
    have m: "map (blk (dev s1) p sb) [138 + 128 * Suc j..<n] = map (blk (dev s) p sb) [base + k..<n]"
      unfolding k128 by (rule map_cong) (use b1 in auto)
    have "\<exists>s'. release_second (bitmap_write (Suc w)) sb (Suc j) (sz - 128) s1 = Some (0, s') \<and>
        freed a s1 (set (map (blk (dev s1) p sb) [138 + 128 * Suc j..<n])) s'"
    proof (rule less.IH)
      show "distinct (map (blk (dev s1) p sb) [138 + 128 * Suc j..<n])" unfolding m using D(1) by blast
      show "\<forall>x \<in> set (map (blk (dev s1) p sb) [138 + 128 * Suc j..<n]). releasable s1 x"
        unfolding m using D freed_releasable [OF s1(2)] by blast
      show "\<forall>t < inner_cnt n. unat (sb ! t) < dev_size s1 \<and> unat (sb ! t) \<notin> map_data s1"
        using less.prems(7) s1(2) by (simp add: freed_def)
    qed (use False less.prems s1(2) in \<open>auto simp: freed_def\<close>)
    then obtain s2 where s2: "release_second (bitmap_write (Suc w)) sb (Suc j) (sz - 128) s1 = Some (0, s2)"
        "freed a s1 (set (map (blk (dev s) p sb) [base + k..<n])) s2" unfolding m by blast
    have "release_second (bitmap_write (Suc w)) sb j sz s = Some (0, s2)"
      using s1(1) s2(1) False j by (subst release_second.simps) simp
    moreover have "freed a s (set (map (blk (dev s) p sb) [base..<n])) s2"
      using freed_trans [OF s1(2) s2(2)] unfolding split map_append set_append .
    ultimately show ?thesis unfolding base_def by blast
  qed
qed

text \<open>
  The sectors that \<open>inode_deallocate\<close> releases: all blocks, the indirect block and the doubly
  indirect block, but not the inner index blocks.
\<close>

definition inner_blocks :: "fs \<Rightarrow> inode_disk \<Rightarrow> nat set" where
  "inner_blocks s d = unat ` set (take (inner_cnt (dsectors d)) (second_of s d))"

lemma inode_deallocate_ok:
  assumes ok: "file_ok a s" and f: "free_map_file s \<noteq> 0"
  shows "\<exists>s'. inode_deallocate (bitmap_write (Suc w)) a s = Some s' \<and>
    freed a s (file_sectors s (data (inodes s a)) - inner_blocks s (data (inodes s a))) s'"
proof -
  define d where "d = data (inodes s a)"
  define p where "p = ptr d"
  define sa where "sa = second_of s d"
  define n where "n = dsectors d"
  have T: "tree a s sa False n" using file_tree [OF ok] by (simp add: d_def sa_def n_def)
  have O: "owns a s p sa False n n" using T by (simp add: tree_def p_def d_def)
  note own = ownsD [OF O]
  define B where "B = blks (dev s) p sa n"
  have rel: "releasable s x" if "x \<in> set B \<union> set (idx p sa False n)" for x
    using own(9,10) that unfolding B_def releasable_def by blast
  have E: "env a s" by (rule own(1))
  have off: "x \<notin> map_data s" if "x \<in> set (idx p sa False n)" for x
    using own(10) [OF that] envD(5) [OF E] by blast
  define X1 where "X1 = set (map (blk (dev s) p sa) [0..<min 10 n])"
  define X2 where "X2 = set (map (blk (dev s) p sa) [10..<10 + min 128 (n - 10)])"
  define X3 where "X3 = set (map (blk (dev s) p sa) [138..<n])"
  have inj: "inj_on (blk (dev s) p sa) {0..<n}" using own(6) by (simp add: distinct_map)
  have sub: "set (map (blk (dev s) p sa) [i..<j]) \<subseteq> set B" "distinct (map (blk (dev s) p sa) [i..<j])" if "j \<le> n" for i j
  proof -
    show "set (map (blk (dev s) p sa) [i..<j]) \<subseteq> set B" using that by (auto simp: B_def)
    show "distinct (map (blk (dev s) p sa) [i..<j])" using inj_on_subset [OF inj, of "{i..<j}"] that
      by (simp add: distinct_map)
  qed
  have disj: "blk (dev s) p sa i \<noteq> blk (dev s) p sa j" if "i < n" "j < n" "i \<noteq> j" for i j
    using inj_onD [OF inj, of i j] that by auto
  have pB: "x \<notin> set B" if "x \<in> set (idx p sa False n)" for x using own(8) that unfolding B_def by blast
  note run0 = inode_deallocate_def [of "bitmap_write (Suc w)" a s, unfolded inode_length_def, folded d_def n_def]
  consider "n = 0" | "0 < n" by blast
  then show ?thesis
  proof cases
    case 1
    then have "file_sectors s d = {}"
      by (simp add: file_sectors_def dblocks_def dindex_def idx_def n_def [symmetric])
    then show ?thesis using 1 freed_refl [OF E] run0 by (simp add: d_def)
  next
    case 2
    have m1: "map unat (take (min (10 - 0) n) (drop 0 p)) = map (blk (dev s) p sa) [0..<min 10 n]"
      by (rule nth_equalityI) (use own(2) in \<open>simp_all add: blk_def\<close>)
    obtain s1 where s1: "release_direct (bitmap_write (Suc w)) a 0 n s = Some (n - 10, s1)" "freed a s X1 s1"
    proof -
      have pa: "ptrs s a = p" by (simp add: p_def d_def)
      have "distinct (map (blk (dev s) p sa) [0..<min 10 n])"
        "\<forall>x \<in> set (map (blk (dev s) p sa) [0..<min 10 n]). releasable s x"
        using sub [OF min.cobounded2 [of 10 n], of 0] rel by blast+
      from release_direct_ok [OF E f, of 0 n w, unfolded pa set_map [symmetric] m1, OF own(2) _ 2 this] that
      show thesis unfolding X1_def by auto
    qed
    have fs: "file_sectors s d = set B \<union> set (idx p sa False n)"
      by (simp add: file_sectors_def dblocks_def dindex_def B_def p_def sa_def n_def)
    have ib: "inner_blocks s d = unat ` set (take (inner_cnt n) sa)" by (simp add: inner_blocks_def sa_def n_def)
    have X1B: "X1 = set B" if "n \<le> 10" using that by (simp add: X1_def B_def min_def)
    show ?thesis
    proof (cases "n \<le> 10")
      case True
      then have "file_sectors s d - inner_blocks s d = X1"
        using X1B pB unfolding fs ib by (auto simp: idx_def)
      then show ?thesis using s1 run0 True 2 unfolding d_def by auto
    next
      case False
      then have n10: "10 < n" by simp
      define q where "q = p ! 10"
      have qI: "unat q \<in> set (idx p sa False n)" using n10 by (simp add: idx_def q_def)
      have lf: "is_leaf 10" "leaf p sa 10 = q" by (simp_all add: is_leaf_def leaf_def q_def)
      have in1: "inodes s1 = inodes s" by (rule freedD(1) [OF s1(2)])
      have d1: "dev s1 x = dev s x" if "x \<in> set (idx p sa False n)" for x
        using freedD(6) [OF s1(2) off [OF that]] .
      have b1: "map (blk (dev s1) p sa) [10..<10 + min 128 (n - 10)] = map (blk (dev s) p sa) [10..<10 + min 128 (n - 10)]"
        using d1 [OF qI] by (auto simp: blk_def index_at_def q_def)
      have r1: "releasable s1 x" if "x \<in> set B \<union> set (idx p sa False n)" "x \<notin> X1" for x
        using freed_releasable [OF s1(2)] rel that by blast
      have X12: "X1 \<inter> X2 = {}" "X2 \<subseteq> set B" "X1 \<subseteq> set B"
        using disj by (auto simp: X1_def X2_def B_def)
      have le2: "10 + min 128 (n - 10) \<le> n" using n10 by simp
      have rl: "distinct (map (blk (dev s1) p sa) [10..<10 + min 128 (n - 10)])"
        "\<forall>x \<in> set (map (blk (dev s1) p sa) [10..<10 + min 128 (n - 10)]). releasable s1 x"
        unfolding b1 X2_def [symmetric]
        using sub(2) [OF le2, of 10] r1 X12 by auto
      have mq: "unat (leaf p sa 10) < dev_size s1"
        using own(10) [OF qI] s1(2) by (simp add: lf(2) marked_def freed_def)
      have f1: "free_map_file s1 \<noteq> 0" using f freedD(4) [OF s1(2)] by simp
      note L = release_leaf_ok(1) [OF freedD(2) [OF s1(2)] f1 lf(1) _ mq rl]
        release_leaf_ok(2) [OF freedD(2) [OF s1(2)] f1 lf(1) _ mq rl, of w]
      obtain s2 where s2: "first_level_dealloc (bitmap_write (Suc w)) (n - 10) a s1 = Some (n - 10 - 128, s2)" "freed a s1 X2 s2"
        using L n10 own(2) in1 unfolding lf b1 X2_def [symmetric]
        by (auto simp: first_level_dealloc_def q_def p_def d_def)
      have F2: "freed a s (X1 \<union> X2) s2" by (rule freed_trans [OF s1(2) s2(2)])
      have "releasable s2 (unat q)"
        by (rule freed_releasable [OF F2]) (use rel qI pB [OF qI] X12 in auto)
      then obtain s3 where s3: "free_map_release (bitmap_write (Suc w)) q 1 s2 = Some s3" "freed a s2 {unat q} s3"
        using free_map_release_ok [OF freedD(2) [OF F2], of q w] f freedD(4) [OF F2] by auto
      have F3: "freed a s (X1 \<union> X2 \<union> {unat q}) s3" by (rule freed_trans [OF F2 s3(2)])
      have pq: "ptrs s2 a = p" "ptrs s3 a = p" using freedD(1) [OF F2] freedD(1) [OF F3] by (simp_all add: p_def d_def)
      have run: "inode_deallocate (bitmap_write (Suc w)) a s =
          (if n \<le> 138 then Some s3
           else do {
             (_, s) \<leftarrow> second_level_dealloc (bitmap_write (Suc w)) (n - 138) a s3;
             p \<leftarrow> array_get (ptr (data (inodes s a))) SECOND_LEV_INDEX;
             free_map_release (bitmap_write (Suc w)) p 1 s })"
        using run0 2 n10 s1(1) s2(1) s3(1) pq own(2) by (simp add: q_def)
      show ?thesis
      proof (cases "n \<le> 138")
        case True
        have "{0..<n} = {0..<10} \<union> {10..<n}" using n10 by auto
        then have "X1 \<union> X2 = set B" using n10 True by (simp add: X1_def X2_def B_def image_Un)
        then have "file_sectors s d - inner_blocks s d = X1 \<union> X2 \<union> {unat q}"
          using True n10 unfolding fs ib by (auto simp: idx_def q_def)
        then show ?thesis using run True F3 unfolding d_def by auto
      next
        case False
        then have n138: "138 < n" by simp
        have len: "length sa = 128" using own(5) n138 by simp
        define r where "r = p ! 11"
        have rI: "unat r \<in> set (idx p sa False n)" using n138 by (simp add: idx_def r_def)
        have ii: "idx p sa False n = unat q # unat r # map unat (take (inner_cnt n) sa)"
          using n138 by (simp add: idx_def q_def r_def)
        have d3: "dev s3 x = dev s x" if "x \<in> set (idx p sa False n)" for x
          using freedD(6) [OF F3 off [OF that]] .
        have in3: "unat (sa ! t) \<in> set (idx p sa False n)" if "t < inner_cnt n" for t
          using that idx_members(3) [OF own(2) _ own(4), of sa] len by simp
        have b3: "map (blk (dev s3) p sa) [138 + 128 * 0..<n] = map (blk (dev s) p sa) [138..<n]"
          using d3 [OF in3] inner_less by (auto simp: blk_def index_at_def)
        have sa3: "second_of s3 d = sa" using d3 [OF rI] by (simp add: sa_def index_at_def r_def p_def)
        have X3: "X3 \<subseteq> set B" "X3 \<inter> (X1 \<union> X2 \<union> {unat q}) = {}"
          using disj pB [OF qI] by (auto simp: X1_def X2_def X3_def B_def)
        have rl3: "\<forall>x \<in> set (map (blk (dev s3) p sa) [138 + 128 * 0..<n]). releasable s3 x"
          unfolding b3 X3_def [symmetric] using freed_releasable [OF F3] rel X3 by blast
        have dist3: "distinct (map (blk (dev s3) p sa) [138 + 128 * 0..<n])" unfolding b3 by (rule sub(2)) simp
        have sm3: "\<forall>t < inner_cnt n. unat (sa ! t) < dev_size s3 \<and> unat (sa ! t) \<notin> map_data s3"
          using own(10) [OF in3] off [OF in3] F3 by (auto simp: freed_def marked_def)
        have f3: "free_map_file s3 \<noteq> 0" using f freedD(4) [OF F3] by simp
        obtain s4 where s4: "release_second (bitmap_write (Suc w)) sa 0 (n - 138) s3 = Some (0, s4)" "freed a s3 X3 s4"
          using release_second_ok [OF freedD(2) [OF F3] f3 len own(4), of 0 "n - 138" p w] n138 sm3 dist3 rl3
          unfolding b3 X3_def by auto
        have mr: "marked s3 (unat r)"
          using freedD(5) [OF F3] own(10) [OF rI] own(7) ii pB [OF rI] X12 by auto
        have dd: "data (inodes s3 a) = d" using freedD(1) [OF F3] by (simp add: d_def)
        have "second_level_dealloc (bitmap_write (Suc w)) (n - 138) a s3 = Some (0, s4)"
          using s4(1) index_read_ok [OF envD(1) [OF freedD(2) [OF F3]] mr] sa3 own(2) dd
          by (simp add: second_level_dealloc_def r_def p_def)
        moreover have F4: "freed a s (X1 \<union> X2 \<union> {unat q} \<union> X3) s4" by (rule freed_trans [OF F3 s4(2)])
        have "releasable s4 (unat r)"
          by (rule freed_releasable [OF F4]) (use rel rI pB [OF rI] X12 X3(1) own(7) ii in auto)
        then obtain s5 where s5: "free_map_release (bitmap_write (Suc w)) r 1 s4 = Some s5" "freed a s4 {unat r} s5"
          using free_map_release_ok [OF freedD(2) [OF F4], of r w] f freedD(4) [OF F4] by auto
        moreover have "ptrs s4 a = p" using freedD(1) [OF F4] by (simp add: p_def d_def)
        ultimately have "inode_deallocate (bitmap_write (Suc w)) a s = Some s5"
          using run False own(2) by (simp add: r_def)
        moreover have "file_sectors s d - inner_blocks s d = X1 \<union> X2 \<union> {unat q} \<union> X3 \<union> {unat r}"
        proof -
          have "{0..<n} = {0..<10} \<union> {10..<138} \<union> {138..<n}" using n138 by auto
          moreover have "min 10 n = 10" "10 + min 128 (n - 10) = 138" using n138 by simp_all
          ultimately have "set B = X1 \<union> X2 \<union> X3"
            by (simp only: X1_def X2_def X3_def B_def set_map set_upt image_Un)
          moreover have "unat ` set (take (inner_cnt n) sa) \<inter> (set B \<union> {unat q, unat r}) = {}"
            using own(7) pB unfolding ii by auto
          ultimately show ?thesis unfolding fs ib ii by auto
        qed
        moreover have "freed a s (X1 \<union> X2 \<union> {unat q} \<union> X3 \<union> {unat r}) s5" by (rule freed_trans [OF F4 s5(2)])
        ultimately show ?thesis unfolding d_def by auto
      qed
    qed
  qed
qed

end
