(* ===== verification/FileProps.thy ===== *)
theory FileProps
  imports FileRelease
begin

text \<open>
  The properties of the file system: files are lists of bytes, inodes do not disturb each
  other, the inode on the disk is the inode in memory, the free map in its file is the free
  map in memory; and the places where the code departs from its documentation.
\<close>

lemma length_file_put [simp]: "length (file_put xs ofs ys) = max (length xs) (ofs + length ys)"
  by (simp add: file_put_def max_def)

section \<open>The interface of a file\<close>

text \<open>
  What a user of an inode relies on: a read returns a part of the content, a write that
  there is room for puts the bytes into the content.
\<close>

locale byte_store =
  fixes ok :: "'s \<Rightarrow> bool"
    and bytes :: "'s \<Rightarrow> u8 list"
    and room :: "'s \<Rightarrow> int \<Rightarrow> bool"
    and rd :: "int \<Rightarrow> int \<Rightarrow> 's \<Rightarrow> (u8 list \<times> 's) option"
    and wr :: "u8 list \<Rightarrow> int \<Rightarrow> int \<Rightarrow> 's \<Rightarrow> (int \<times> 's) option"
  assumes rd_law: "\<lbrakk>ok s; 0 \<le> ofs; ofs < 2 ^ 31\<rbrakk> \<Longrightarrow>
      \<exists>s'. rd sz ofs s = Some (take (nat sz) (drop (nat ofs) (bytes s)), s') \<and> ok s' \<and> bytes s' = bytes s"
    and wr_law: "\<lbrakk>ok s; 0 \<le> ofs; 0 \<le> sz; nat sz \<le> length buf; room s (ofs + sz)\<rbrakk> \<Longrightarrow>
      \<exists>s'. wr buf sz ofs s = Some (sz, s') \<and> ok s' \<and> bytes s' = file_put (bytes s) (nat ofs) (take (nat sz) buf)"
    and room_inside: "\<lbrakk>ok s; 0 \<le> L; nat L \<le> length (bytes s)\<rbrakk> \<Longrightarrow> room s L"
begin

lemma read_back:
  assumes "ok s" "0 \<le> ofs" "ofs < 2 ^ 31" "0 \<le> sz" "nat sz \<le> length buf" "room s (ofs + sz)"
  shows "\<exists>s1 s2. wr buf sz ofs s = Some (sz, s1) \<and> rd sz ofs s1 = Some (take (nat sz) buf, s2) \<and> ok s2 \<and>
     bytes s2 = bytes s1"
proof -
  obtain s1 where w: "wr buf sz ofs s = Some (sz, s1)" "ok s1"
      "bytes s1 = file_put (bytes s) (nat ofs) (take (nat sz) buf)"
    using wr_law [OF assms(1,2,4,5,6)] by blast
  have "take (nat sz) (drop (nat ofs) (bytes s1)) = take (nat sz) buf"
    using assms(4,5) unfolding w(3) file_put_def put_def by (simp add: min_def)
  with rd_law [OF w(2) assms(2,3), of sz] w(1) show ?thesis by auto
qed

lemma read_elsewhere:
  assumes "ok s" "0 \<le> ofs" "0 \<le> sz" "nat sz \<le> length buf" "room s (ofs + sz)"
    and "0 \<le> ofs'" "ofs' < 2 ^ 31" "0 \<le> sz'" "ofs' + sz' \<le> ofs" "nat (ofs' + sz') \<le> length (bytes s)"
  shows "\<exists>s1 s2. wr buf sz ofs s = Some (sz, s1) \<and>
     rd sz' ofs' s1 = Some (take (nat sz') (drop (nat ofs') (bytes s)), s2)"
proof -
  obtain s1 where w: "wr buf sz ofs s = Some (sz, s1)" "ok s1"
      "bytes s1 = file_put (bytes s) (nat ofs) (take (nat sz) buf)"
    using wr_law [OF assms(1-5)] by blast
  have "take (nat sz') (drop (nat ofs') (bytes s1)) = take (nat sz') (drop (nat ofs') (bytes s))"
  proof (rule nth_equalityI)
    show "length (take (nat sz') (drop (nat ofs') (bytes s1))) = length (take (nat sz') (drop (nat ofs') (bytes s)))"
      using assms(3,4,6,8-10) unfolding w(3) file_put_def put_def by (simp add: nat_le_iff)
    fix i assume "i < length (take (nat sz') (drop (nat ofs') (bytes s1)))"
    then have i: "i < nat sz'" by simp
    then have "nat ofs' + i < nat ofs" "nat ofs' + i < length (bytes s)" using assms(6,8-10) by linarith+
    then have "bytes s1 ! (nat ofs' + i) = bytes s ! (nat ofs' + i)"
      unfolding w(3) file_put_def put_def by (simp add: nth_append)
    moreover have "nat ofs' + i < length (bytes s1)"
      unfolding w(3) using \<open>nat ofs' + i < nat ofs\<close> by simp
    ultimately show "take (nat sz') (drop (nat ofs') (bytes s1)) ! i = take (nat sz') (drop (nat ofs') (bytes s)) ! i"
      using i \<open>nat ofs' + i < length (bytes s)\<close> by (simp add: nth_take nth_drop)
  qed
  with rd_law [OF w(2) assms(6,7), of sz'] w(1) show ?thesis by auto
qed

end

section \<open>Inodes provide it\<close>

definition writable :: "nat \<Rightarrow> fs \<Rightarrow> bool" where
  "writable a s \<longleftrightarrow> file_ok a s \<and> deny_write_cnt (inodes s a) = 0 \<and> \<not> ilock (inodes s a)"

text \<open>The disk has room for the file to have the length \<open>L\<close>.\<close>

definition has_room :: "nat \<Rightarrow> fs \<Rightarrow> int \<Rightarrow> bool" where
  "has_room a s L \<longleftrightarrow> L < 2 ^ 31 - 511 \<and>
     bytes_to_sectors (max (inode_length a s) L) \<le> max_blocks \<and>
     cost False (bytes_to_sectors (max (inode_length a s) L)) \<le>
       free_cnt s + cost False (dsectors (data (inodes s a)))"

lemma inode_read_ok:
  assumes "file_ok a s" "0 \<le> ofs" "ofs < 2 ^ 31"
  shows "\<exists>c. inode_read_at a sz ofs s = Some (take (nat sz) (drop (nat ofs) (content s a)), s\<lparr>heap_calls := c\<rparr>)"
  using read_loop_ok [of s a ofs sz False "[]"] assms envD(1,2) [of a s]
  by (simp add: file_ok_def inode_read_at_def content_def)

lemma heap_calls_same:
  "file_ok a (s\<lparr>heap_calls := c\<rparr>) = file_ok a s" "content (s\<lparr>heap_calls := c\<rparr>) a = content s a"
  "writable a (s\<lparr>heap_calls := c\<rparr>) = writable a s"
proof -
  let ?s = "s\<lparr>heap_calls := c\<rparr>"
  have same: "inode_ok ?s d = inode_ok s d" "disk_ok ?s = disk_ok s" for d
    using inode_ok_same [of ?s s] by simp_all
  show f: "file_ok a ?s = file_ok a s"
    using same by (simp add: file_ok_def env_def map_inode_def map_owned_def file_sectors_def padded_def
        dblocks_def dindex_def dcontent_def)
  then show "writable a ?s = writable a s" by (simp add: writable_def)
  show "content ?s a = content s a" by (simp add: content_def dcontent_def dblocks_def)
qed

lemma room_inside_file:
  assumes "file_ok a s" "0 \<le> L" "nat L \<le> length (content s a)"
  shows "has_room a s L"
proof -
  have ok: "disk_ok s" "inode_ok s (data (inodes s a))" using assms(1) envD(1) by (auto simp: file_ok_def)
  have "L \<le> inode_length a s"
    using assms(2,3) length_dcontent(1) [OF ok] inode_okD(1) [OF ok(2)] by (simp add: content_def inode_length_def)
  then show ?thesis using inode_okD(2,4) [OF ok(2)]
    by (simp add: has_room_def max_def inode_length_def)
qed

interpretation inode_bytes: byte_store "writable a" "\<lambda>s. content s a" "has_room a" "inode_read_at a"
  "inode_write_at (bitmap_write (Suc w)) a" for a w
proof
  show "\<exists>s'. inode_read_at a sz ofs s = Some (take (nat sz) (drop (nat ofs) (content s a)), s') \<and>
      writable a s' \<and> content s' a = content s a"
    if "writable a s" "0 \<le> ofs" "ofs < 2 ^ 31" for s ofs sz
    using inode_read_ok [of a s ofs sz] that heap_calls_same by (auto simp: writable_def)
  show "\<exists>s'. inode_write_at (bitmap_write (Suc w)) a buf sz ofs s = Some (sz, s') \<and> writable a s' \<and>
      content s' a = file_put (content s a) (nat ofs) (take (nat sz) buf)"
    if "writable a s" "0 \<le> ofs" "0 \<le> sz" "nat sz \<le> length buf" "has_room a s (ofs + sz)" for s ofs sz buf
    using inode_write_ok [OF _ refl _ _ that(2,3) _ that(4) refl, of a s w] that
    by (auto simp: writable_def has_room_def inode_length_def outside_def same_handle_def)
qed (auto simp: writable_def room_inside_file)

section \<open>The inode on the disk\<close>

definition inode_fits :: "inode_disk \<Rightarrow> bool" where
  "inode_fits d \<longleftrightarrow> length (unused d) = 109 \<and> length (ptr d) = 12 \<and> - (2 ^ 31) \<le> flength d \<and> flength d < 2 ^ 31 \<and>
     direct_level_index d < 2 ^ 32 \<and> first_level_index d < 2 ^ 32 \<and> second_level_index d < 2 ^ 32"

lemma sint_word_of_int: "- (2 ^ 31) \<le> x \<Longrightarrow> x < 2 ^ 31 \<Longrightarrow> sint (word_of_int x :: u32) = x"
  by (simp add: sint_sbintrunc' signed_take_bit_int_eq_self)

lemma length_encode_inode: "inode_fits d \<Longrightarrow> length (encode_inode d) = 512"
  by (simp add: encode_inode_def inode_fits_def)

lemma decode_encode_inode [codec]:
  assumes "inode_fits d"
  shows "decode_inode (encode_inode d) = d"
proof -
  define ws where "ws = [word_of_int (flength d), magic d] @ unused d @ ptr d @
     [parent d, word_of_nat (direct_level_index d), word_of_nat (first_level_index d),
      word_of_nat (second_level_index d)]"
  have l: "length ws = 127" "length (unused d) = 109" "length (ptr d) = 12" using assms by (simp_all add: ws_def inode_fits_def)
  have e: "encode_inode d = bytes_of ws @ [if sub_dir d then 1 else 0, 0, 0, 0]" by (simp add: encode_inode_def ws_def)
  have w: "words_of (encode_inode d) = ws @ [un32 (if sub_dir d then 1 else 0) 0 0 0]" by (simp add: e)
  have b: "encode_inode d ! 508 = (if sub_dir d then 1 else 0)" using l(1) by (simp add: e nth_append)
  have n: "ws ! 0 = word_of_int (flength d)" "ws ! 1 = magic d" "ws ! 123 = parent d"
    "ws ! 124 = word_of_nat (direct_level_index d)" "ws ! 125 = word_of_nat (first_level_index d)"
    "ws ! 126 = word_of_nat (second_level_index d)"
    "take 109 (drop 2 ws) = unused d" "take 12 (drop 111 ws) = ptr d"
    using l by (simp_all add: ws_def nth_append)
  show ?thesis
    unfolding decode_inode_def w Let_def
    by (rule inode_disk.equality)
      (use n l b assms in \<open>simp_all add: nth_append inode_fits_def sint_word_of_int unat_of_nat\<close>)
qed

section \<open>A sample file system\<close>

text \<open>
  A device of 64 sectors.  Sector 0 holds the inode of the free map, sector 2 its data;
  sector 5 holds the inode of an empty file, which is open at address 28.
\<close>

definition sample_inode :: "u32 \<Rightarrow> int \<Rightarrow> u32 \<Rightarrow> nat \<Rightarrow> inode" where
  "sample_inode sec len p n = \<lparr>open_cnt = 1, deny_write_cnt = 0, removed = False, sector = sec,
     data = \<lparr>flength = len, magic = INODE_MAGIC, unused = replicate 109 0, ptr = p # replicate 11 0,
       parent = 1, direct_level_index = n, first_level_index = 0, second_level_index = 0, sub_dir = False\<rparr>,
     ilock = False\<rparr>"

definition sample_fs :: fs where
  "sample_fs = \<lparr>dev_size = 64, dev = (\<lambda>_. zeros),
     inodes = (\<lambda>a. if a = 20 then sample_inode 0 8 2 1 else sample_inode 5 0 0 0),
     open_inodes = [28, 20],
     files = (\<lambda>f. \<lparr>finode = if f = 24 then 20 else 28, pos = 0, deny_write = False\<rparr>),
     free_map = \<lparr>bit_cnt = 64, bits = [39, 0]\<rparr>, free_map_file = 24,
     heap = (\<lambda>i. i + 100), heap_calls = 0, junk = replicate 128 7,
     FREE_MAP_SECTOR = 0, ROOT_DIR_SECTOR = 1\<rparr>"

lemma sample_marked: "marked sample_fs x \<longleftrightarrow> x < 64 \<and> bit ([39, 0 :: u32] ! (x div 32)) (x mod 32)"
  by (auto simp: marked_def sample_fs_def bm_nth elem_idx_def ELEM_BITS_def)

lemma sample_sectors [simp]: "bytes_to_sectors 8 = 1" "bytes_to_sectors 0 = 0"
  by (simp_all add: bytes_to_sectors_eq)

lemma sample_blocks:
  "dblocks sample_fs (data (inodes sample_fs 20)) = [2]" "dindex sample_fs (data (inodes sample_fs 20)) = []"
  "dblocks sample_fs (data (inodes sample_fs 28)) = []" "dindex sample_fs (data (inodes sample_fs 28)) = []"
  by (simp_all add: dblocks_def dindex_def idx_def blk_def sample_fs_def sample_inode_def)

lemma sample_disk_ok: "disk_ok sample_fs"
  by (simp add: disk_ok_def sample_fs_def bitmap_ok_def elem_cnt_def DIV_ROUND_UP_def ELEM_BITS_def zeros_def)

lemma sample_inode_ok: "inode_ok sample_fs (data (inodes sample_fs 20))" "inode_ok sample_fs (data (inodes sample_fs 28))"
proof -
  have "marked sample_fs 2" by (simp add: sample_marked)
  then show "inode_ok sample_fs (data (inodes sample_fs 20))" "inode_ok sample_fs (data (inodes sample_fs 28))"
    using sample_blocks unfolding inode_ok_def shape_def dblocks_def dindex_def
    by (simp_all add: levels_def) (simp_all add: sample_fs_def sample_inode_def max_blocks_def)
qed

lemma sample_env: "env 28 sample_fs" "map_owned sample_fs = {2}" "map_data sample_fs = {2}"
proof -
  have m: "map_inode sample_fs = data (inodes sample_fs 20)" "free_map_file sample_fs = 24"
    by (simp_all add: map_inode_def sample_fs_def)
  have "byte_cnt 64 = 8" by (simp add: byte_cnt_def elem_cnt_def DIV_ROUND_UP_def ELEM_BITS_def)
  then show "env 28 sample_fs"
    using sample_disk_ok sample_inode_ok(1) unfolding env_def m
    by (simp add: sample_fs_def sample_inode_def)
  show "map_owned sample_fs = {2}" "map_data sample_fs = {2}"
    using sample_blocks m by (simp_all add: map_owned_def map_data_def)
qed

lemma sample_writable: "writable 28 sample_fs"
proof -
  have "padded sample_fs (data (inodes sample_fs 28))"
    by (simp add: padded_def sample_blocks dcontent_def) (simp add: sample_fs_def sample_inode_def)
  then show ?thesis
    using sample_env sample_inode_ok(2) sample_blocks
    by (simp add: writable_def file_ok_def file_sectors_def) (simp add: sample_fs_def sample_inode_def)
qed

lemma sample_room: "has_room 28 sample_fs 700"
proof -
  have "dev_size sample_fs = 64" by (simp add: sample_fs_def)
  then have "card {3, 4 :: nat} \<le> free_cnt sample_fs"
    unfolding free_cnt_def by (intro card_mono) (simp_all add: sample_marked)
  then have "2 \<le> free_cnt sample_fs" by simp
  moreover have "flength (data (inodes sample_fs 28)) = 0" by (simp add: sample_fs_def sample_inode_def)
  moreover have "bytes_to_sectors 700 = 2" by (simp add: bytes_to_sectors_eq)
  ultimately show ?thesis by (simp add: has_room_def cost_def max_blocks_def inode_length_def)
qed

lemma sample_content: "content sample_fs 28 = []"
  by (simp add: content_def dcontent_def sample_blocks)

section \<open>Properties\<close>

text \<open>
  C2: writing to an inode implements overwriting a list of bytes.  If the disk has room, the
  whole buffer is written, at any offset: inside the file, across its end or past its end.
  The content becomes the old one with the bytes put in, extended with zeros where there
  was a gap, through the direct, indirect and doubly indirect sectors alike.
\<close>

theorem inode_write_at_puts_bytes:
  assumes "writable a s" "0 \<le> ofs" "0 \<le> sz" "nat sz \<le> length buf" "has_room a s (ofs + sz)"
  shows "\<exists>s'. inode_write_at (bitmap_write (Suc n)) a buf sz ofs s = Some (sz, s') \<and> writable a s' \<and>
    content s' a = file_put (content s a) (nat ofs) (take (nat sz) buf)"
  by (rule inode_bytes.wr_law [OF assms])

theorem inode_write_at_puts_bytes_witness:
  "\<exists>s'. inode_write_at (bitmap_write 1) 28 [1, 2, 3] 3 697 sample_fs = Some (3, s') \<and>
     content s' 28 = replicate 697 0 @ [1, 2, 3]"
proof -
  have "has_room 28 sample_fs (697 + 3)" using sample_room by simp
  from inode_write_at_puts_bytes [OF sample_writable _ _ _ this, of "[1, 2, 3]" 0]
  show ?thesis by (auto simp: sample_content file_put_def put_def)
qed

text \<open>
  C4: writing to an inode leaves every other file alone.  An inode whose sectors are neither
  those of the written file nor the data of the free map keeps its sectors and its content,
  and the sectors of the two files stay different, however much the written file grows.
\<close>

theorem inode_write_at_leaves_others:
  assumes "writable a s" "0 \<le> ofs" "0 \<le> sz" "nat sz \<le> length buf" "has_room a s (ofs + sz)"
    and other: "inode_ok s d" "file_sectors s d \<inter> (file_sectors s (data (inodes s a)) \<union> map_data s) = {}"
  shows "\<exists>s'. inode_write_at (bitmap_write (Suc n)) a buf sz ofs s = Some (sz, s') \<and>
    inode_ok s' d \<and> dblocks s' d = dblocks s d \<and> dcontent s' d = dcontent s d \<and>
    file_sectors s' d \<inter> file_sectors s' (data (inodes s' a)) = {}"
proof -
  obtain s' where s': "inode_write_at (bitmap_write (Suc n)) a buf sz ofs s = Some (sz, s')" "outside a s s'"
    using inode_write_ok [OF _ refl _ _ assms(2,3) _ assms(4) refl, of a s n] assms(1,5)
    by (auto simp: writable_def has_room_def inode_length_def)
  have mk: "marked s x" if "x \<in> file_sectors s d" for x
    using that inode_okD(9,10) [OF other(1)] by (auto simp: file_sectors_def)
  have away: "x \<notin> file_sectors s (data (inodes s a))" "x \<notin> map_data s" if "x \<in> file_sectors s d" for x
    using other(2) that by blast+
  have same: "dev s' x = dev s x" "marked s x" "marked s' x" if "x \<in> file_sectors s d" for x
    using s'(2) mk [OF that] away [OF that] by (auto simp: outside_def)
  then have F: "inode_ok s' d" "dblocks s' d = dblocks s d" "dindex s' d = dindex s d"
    using inode_ok_frame [OF other(1), of s'] by (auto simp: file_sectors_def)
  have "map (dev s') (dblocks s d) = map (dev s) (dblocks s d)" using same by (auto simp: file_sectors_def)
  then have "dcontent s' d = dcontent s d" unfolding dcontent_def F(2) by (simp only:)
  moreover have "file_sectors s' d \<inter> file_sectors s' (data (inodes s' a)) = {}"
  proof -
    have "file_sectors s' d = file_sectors s d" using F by (simp add: file_sectors_def)
    moreover have "file_sectors s' (data (inodes s' a)) \<subseteq> file_sectors s (data (inodes s a)) \<union> {x. \<not> marked s x}"
      using s'(2) by (simp add: outside_def)
    ultimately show ?thesis using mk away(1) by blast
  qed
  ultimately show ?thesis using s'(1) F by blast
qed

theorem inode_write_at_leaves_others_witness:
  "\<exists>s'. inode_write_at (bitmap_write 1) 28 [1, 2, 3] 3 697 sample_fs = Some (3, s') \<and>
     dcontent s' \<lparr>flength = 512, magic = 0, unused = [], ptr = replicate 12 5, parent = 1,
       direct_level_index = 1, first_level_index = 0, second_level_index = 0, sub_dir = False\<rparr> = zeros"
proof -
  let ?d = "\<lparr>flength = 512, magic = 0, unused = [], ptr = replicate 12 5, parent = 1,
       direct_level_index = 1, first_level_index = 0, second_level_index = 0, sub_dir = False\<rparr>"
  have b: "dblocks sample_fs ?d = [5]" "dindex sample_fs ?d = []"
    by (simp_all add: dblocks_def dindex_def idx_def blk_def bytes_to_sectors_eq)
  moreover have "marked sample_fs 5" by (simp add: sample_marked)
  ultimately have ok: "inode_ok sample_fs ?d"
    unfolding inode_ok_def shape_def dblocks_def dindex_def by (simp add: levels_def max_blocks_def bytes_to_sectors_eq)
  have d: "file_sectors sample_fs ?d \<inter> (file_sectors sample_fs (data (inodes sample_fs 28)) \<union> map_data sample_fs) = {}"
    using b sample_blocks sample_env by (simp add: file_sectors_def)
  have c: "dcontent sample_fs ?d = zeros" using b by (simp add: dcontent_def) (simp add: sample_fs_def zeros_def)
  have "has_room 28 sample_fs (697 + 3)" using sample_room by simp
  from inode_write_at_leaves_others [OF sample_writable _ _ _ this ok d, of "[1, 2, 3]" 0] c
  show ?thesis by auto
qed


text \<open>
  C5: what is written to an open file is read back.  Writing at the position of the file,
  seeking back and reading returns the bytes that were written, and each operation leaves
  the position behind the bytes it transferred.
\<close>

theorem file_write_seek_read:
  assumes "f \<noteq> 0" "writable (finode (files s f)) s" "0 \<le> p" "p = pos (files s f)" "0 \<le> sz" "nat sz \<le> length buf"
    "has_room (finode (files s f)) s (p + sz)"
  shows "\<exists>s1 s2 s3. file_write (bitmap_write (Suc n)) f buf sz s = Some (sz, s1) \<and> file_tell f s1 = Some (p + sz) \<and>
    file_seek f p s1 = Some s2 \<and> file_read f sz s2 = Some (take (nat sz) buf, s3) \<and> file_tell f s3 = Some (p + sz)"
proof -
  define a where "a = finode (files s f)"
  have lt: "p + sz < 2 ^ 31" using assms(7) by (simp add: has_room_def)
  obtain s1 where w: "inode_write_at (bitmap_write (Suc n)) a buf sz p s = Some (sz, s1)" "outside a s s1"
      "writable a s1" "content s1 a = file_put (content s a) (nat p) (take (nat sz) buf)"
    using inode_write_ok [OF _ refl _ _ assms(3,5) _ assms(6) refl, of a s n] assms(2,7)
    by (auto simp: writable_def has_room_def inode_length_def a_def outside_def same_handle_def)
  have fs: "files s1 = files s" using w(2) by (simp add: outside_def)
  define t where "t = upd_file f (\<lambda>x. x\<lparr>pos := p\<rparr>) (upd_file f (\<lambda>x. x\<lparr>pos := i32 (pos x + sz)\<rparr>) s1)"
  have t: "writable a t" "content t a = content s1 a" "files t f = files s f" "inodes t = inodes s1"
  proof -
    have "t = s1\<lparr>files := files s1\<rparr>" using fs assms(4) by (simp add: t_def)
    then have "t = s1" by simp
    then show "writable a t" "content t a = content s1 a" "files t f = files s f" "inodes t = inodes s1"
      using w(3) fs by simp_all
  qed
  have "take (nat sz) (drop (nat p) (content t a)) = take (nat sz) buf"
    using assms(5,6) unfolding t(2) w(4) file_put_def put_def by (simp add: min_def)
  moreover have "\<exists>c. inode_read_at a sz p t = Some (take (nat sz) (drop (nat p) (content t a)), t\<lparr>heap_calls := c\<rparr>)"
    by (rule inode_read_ok) (use t(1) lt assms(3,5) in \<open>auto simp: writable_def\<close>)
  ultimately obtain c where r: "inode_read_at a sz p t = Some (take (nat sz) buf, t\<lparr>heap_calls := c\<rparr>)" by auto
  let ?s1 = "upd_file f (\<lambda>x. x\<lparr>pos := i32 (pos x + sz)\<rparr>) s1"
  have "file_write (bitmap_write (Suc n)) f buf sz s = Some (sz, ?s1)"
    using w(1) assms(1,4) by (simp add: file_write_def ASSERT_def flip: a_def)
  moreover have "file_tell f ?s1 = Some (p + sz)"
    using assms(1,3,4,5) lt fs by (simp add: file_tell_def ASSERT_def)
  moreover have "file_seek f p ?s1 = Some t" using assms(1,3) by (simp add: file_seek_def ASSERT_def t_def)
  moreover have "file_read f sz t = Some (take (nat sz) buf,
      upd_file f (\<lambda>x. x\<lparr>pos := i32 (pos x + int (length (take (nat sz) buf)))\<rparr>) (t\<lparr>heap_calls := c\<rparr>))"
    using r assms(1,4) t(3) by (simp add: file_read_def ASSERT_def flip: a_def)
  moreover have "file_tell f (upd_file f (\<lambda>x. x\<lparr>pos := i32 (pos x + int (length (take (nat sz) buf)))\<rparr>)
      (t\<lparr>heap_calls := c\<rparr>)) = Some (p + sz)"
    using assms(1,3,4,5,6) lt t(3) by (simp add: file_tell_def ASSERT_def min_def)
  ultimately show ?thesis by blast
qed

theorem file_write_seek_read_witness:
  "\<exists>s1 s2 s3. file_write (bitmap_write 1) 32 [1, 2, 3] 3 sample_fs = Some (3, s1) \<and>
     file_seek 32 0 s1 = Some s2 \<and> file_read 32 3 s2 = Some ([1, 2, 3], s3) \<and> file_tell 32 s3 = Some 3"
proof -
  have f: "finode (files sample_fs 32) = 28" "pos (files sample_fs 32) = 0" by (simp_all add: sample_fs_def)
  have "has_room 28 sample_fs 3" using sample_room
    by (auto simp: has_room_def inode_length_def sample_fs_def sample_inode_def bytes_to_sectors_eq cost_def max_def)
  with file_write_seek_read [of 32 sample_fs 0 3 "[1, 2, 3]" 0] sample_writable f show ?thesis by auto
qed

text \<open>
  C20: the sector that the code computes for a byte is the one the layout gives.  For every
  offset inside a file the arithmetic on the index blocks selects the entry of the list of
  data sectors, with no fault, and at or past the end the error value is returned.
\<close>

theorem byte_to_sector_layout:
  assumes "disk_ok s" "inode_ok s (data (inodes s a))" "a \<noteq> 0" "0 \<le> ofs"
  shows "\<exists>sec. byte_to_sector a ofs s = Some sec \<and>
    (if ofs < inode_length a s
     then nat ofs div 512 < length (dblocks s (data (inodes s a))) \<and>
       unat sec = dblocks s (data (inodes s a)) ! (nat ofs div 512) \<and> marked s (unat sec)
     else sec = word_of_int ERROR)"
proof (cases "ofs < inode_length a s")
  case True
  from byte_to_sector_blk [OF assms True] obtain sec where sec: "byte_to_sector a ofs s = Some sec"
    "unat sec = dblocks s (data (inodes s a)) ! (nat ofs div 512)" "nat ofs div 512 < dsectors (data (inodes s a))"
    by blast
  have "length (dblocks s (data (inodes s a))) = dsectors (data (inodes s a))" by (simp add: dblocks_def)
  then show ?thesis using sec True inode_okD(9) [OF assms(2), of "unat sec"] by simp
qed (use assms in \<open>simp add: byte_to_sector_def ASSERT_def\<close>)

theorem byte_to_sector_layout_witness: "\<exists>sec. byte_to_sector 20 7 sample_fs = Some sec \<and> unat sec = 2"
proof -
  have "inode_length 20 sample_fs = 8" by (simp add: inode_length_def sample_fs_def sample_inode_def)
  with byte_to_sector_layout [OF sample_disk_ok sample_inode_ok(1), of 7] sample_blocks show ?thesis by auto
qed

section \<open>Closing\<close>

lemma file_ok_meta:
  assumes "file_ok a s" "data i = data (inodes s a)" "t = s\<lparr>inodes := (inodes s)(a := i), open_inodes := l\<rparr>"
  shows "file_ok a t" "map_owned t = map_owned s" "map_data t = map_data s"
    "marked t x = marked s x" "dblocks t d = dblocks s d" "dindex t d = dindex s d" "inner_blocks t d = inner_blocks s d"
proof -
  have E: "env a s" using assms(1) by (simp add: file_ok_def)
  have mi: "map_inode t = map_inode s" if "free_map_file s \<noteq> 0"
    using E that by (simp add: env_def map_inode_def assms(3))
  show b: "dblocks t d = dblocks s d" "dindex t d = dindex s d" "inner_blocks t d = inner_blocks s d" "marked t x = marked s x" for d x
    by (simp_all add: dblocks_def dindex_def inner_blocks_def marked_def assms(3))
  have same: "inode_ok t d = inode_ok s d \<and> disk_ok t = disk_ok s" for d
    by (rule inode_ok_same) (simp_all add: assms(3))
  have fm: "free_map_file t = free_map_file s" by (simp add: assms(3))
  show m: "map_owned t = map_owned s" "map_data t = map_data s"
    using mi unfolding map_owned_def map_data_def fm b by simp_all
  have "env a t" using E same mi by (simp add: env_def assms(3))
  then show "file_ok a t"
    using assms(1,2) same m b unfolding file_ok_def file_sectors_def padded_def dcontent_def by (simp add: assms(3))
qed

lemma file_ok_freed:
  assumes "file_ok a s" "freed a s X t" "X \<inter> file_sectors s (data (inodes s a)) = {}"
  shows "file_ok a t" "dblocks t (data (inodes s a)) = dblocks s (data (inodes s a))"
    "dindex t (data (inodes s a)) = dindex s (data (inodes s a))"
    "inner_blocks t (data (inodes s a)) = inner_blocks s (data (inodes s a))"
proof -
  define d where "d = data (inodes s a)"
  have ok: "inode_ok s d" and disj: "file_sectors s d \<inter> map_owned s = {}" and pad: "padded s d" and a: "a \<noteq> 0"
    using assms(1) by (auto simp: file_ok_def d_def)
  have F: "inodes t = inodes s" "env a t" "map_owned t = map_owned s" using freedD [OF assms(2)] by blast+
  have dev: "dev t x = dev s x" "marked t x" if "x \<in> file_sectors s d" for x
  proof -
    have "x \<notin> map_data s" using disj that by (auto simp: map_data_def map_owned_def split: if_splits)
    then show "dev t x = dev s x" using assms(2) by (simp add: freed_def)
    have "marked s x" using that inode_okD(9,10) [OF ok] by (auto simp: file_sectors_def)
    then show "marked t x" using assms(2,3) that by (auto simp: freed_def d_def)
  qed
  have I: "inode_ok t d" "dblocks t d = dblocks s d" "dindex t d = dindex s d"
    by (rule inode_ok_frame [OF ok]; use dev in \<open>simp add: file_sectors_def\<close>)+
  have "map (dev t) (dblocks s d) = map (dev s) (dblocks s d)" using dev by (auto simp: file_sectors_def)
  then have "padded t d" using pad unfolding padded_def dcontent_def I(2) by (simp only:)
  then show "file_ok a t" using a F I disj by (simp add: file_ok_def file_sectors_def d_def)
  show "dblocks t (data (inodes s a)) = dblocks s (data (inodes s a))"
    "dindex t (data (inodes s a)) = dindex s (data (inodes s a))" using I by (simp_all add: d_def)
  have "dev t (unat (ptr d ! 11)) = dev s (unat (ptr d ! 11))" if "138 < dsectors d"
    using dev(1) that by (simp add: file_sectors_def dindex_def idx_def)
  moreover have "inner_cnt (dsectors d) = 0" if "\<not> 138 < dsectors d" using that by (simp add: inner_cnt_def)
  ultimately show "inner_blocks t (data (inodes s a)) = inner_blocks s (data (inodes s a))"
    by (cases "138 < dsectors d") (simp_all add: inner_blocks_def index_at_def flip: d_def)
qed

text \<open>
  C21: when the last opener of a removed file closes it, the sector of the inode and the
  data and index sectors of the file become free, and no other sector does.  The sectors
  that the doubly indirect block points to are not released: a removed file of more than
  138 sectors leaves them marked for ever.
\<close>

theorem inode_close_removed:
  assumes ok: "file_ok a s" "free_map_file s \<noteq> 0" "open_cnt (inodes s a) = 1" "removed (inodes s a)"
    and sec: "marked s (unat (sector (inodes s a)))"
      "unat (sector (inodes s a)) \<notin> file_sectors s (data (inodes s a)) \<union> map_owned s"
  shows "\<exists>s'. inode_close (bitmap_write (Suc n)) a s = Some s' \<and> open_inodes s' = remove1 a (open_inodes s) \<and>
    (\<forall>x. marked s' x \<longleftrightarrow> marked s x \<and> x \<noteq> unat (sector (inodes s a)) \<and>
       (x \<in> file_sectors s (data (inodes s a)) \<longrightarrow> x \<in> inner_blocks s (data (inodes s a)))) \<and>
    (\<forall>x. x \<notin> map_data s \<longrightarrow> dev s' x = dev s x)"
proof -
  define p where "p = sector (inodes s a)"
  define d where "d = data (inodes s a)"
  define i where "i = (inodes s a)\<lparr>open_cnt := open_cnt (inodes s a) - 1\<rparr>"
  define t where "t = s\<lparr>inodes := (inodes s)(a := i), open_inodes := remove1 a (open_inodes s)\<rparr>"
  note T = file_ok_meta [OF ok(1) _ t_def]
  have a: "a \<noteq> 0" and Et: "env a t" using ok(1) T(1) by (auto simp: file_ok_def i_def)
  have ft: "free_map_file t \<noteq> 0" and dt: "data (inodes t a) = d" using ok(2) by (simp_all add: t_def d_def i_def)
  have "releasable t (unat p)" using sec T(2,4) by (auto simp: releasable_def p_def i_def)
  then obtain u where u: "free_map_release (bitmap_write (Suc n)) p 1 t = Some u" "freed a t {unat p} u"
    using free_map_release_ok [OF Et ft] by blast
  have "{unat p} \<inter> file_sectors t (data (inodes t a)) = {}"
    using sec(2) T(5,6) by (auto simp: file_sectors_def dt p_def i_def d_def)
  note U = file_ok_freed [OF T(1) u(2) this, unfolded dt]
  have fu: "free_map_file u \<noteq> 0" "inodes u = inodes t" using ft freedD [OF u(2)] by simp_all
  obtain v where v: "inode_deallocate (bitmap_write (Suc n)) a u = Some v"
      "freed a u (file_sectors u d - inner_blocks u d) v"
    using inode_deallocate_ok [OF U(1) fu(1), of n] fu(2) dt by (auto simp: i_def)
  have X: "file_sectors u d = file_sectors s d" "inner_blocks u d = inner_blocks s d"
    using U T(5,6,7) by (simp_all add: file_sectors_def i_def)
  have "inode_close (bitmap_write (Suc n)) a s = Some v"
    using u(1) v(1) a ok(3,4) by (simp add: inode_close_def t_def i_def p_def)
  moreover have "marked v x \<longleftrightarrow> marked s x \<and> x \<noteq> unat p \<and> (x \<in> file_sectors s d \<longrightarrow> x \<in> inner_blocks s d)" for x
    using v(2) u(2) T(4) X by (auto simp: freed_def i_def)
  moreover have "dev v x = dev s x" if "x \<notin> map_data s" for x
    using v(2) u(2) T(3) that by (simp add: freed_def i_def) (simp add: t_def)
  moreover have "open_inodes v = remove1 a (open_inodes s)"
    using v(2) u(2) by (simp add: freed_def) (simp add: t_def)
  ultimately show ?thesis unfolding p_def d_def by blast
qed

theorem inode_close_removed_witness:
  "\<exists>s'. inode_close (bitmap_write 1) 28 (upd_inode 28 (\<lambda>i. i\<lparr>removed := True\<rparr>) sample_fs) = Some s' \<and>
     \<not> marked s' 5 \<and> marked s' 2"
proof -
  define i where "i = (inodes sample_fs 28)\<lparr>removed := True\<rparr>"
  define s where "s = sample_fs\<lparr>inodes := (inodes sample_fs)(28 := i), open_inodes := open_inodes sample_fs\<rparr>"
  have f: "file_ok 28 sample_fs" using sample_writable by (simp add: writable_def)
  have i: "data i = data (inodes sample_fs 28)" "open_cnt i = 1" "removed i" "sector i = 5"
    by (simp_all add: i_def sample_fs_def sample_inode_def)
  note T = file_ok_meta [OF f i(1) s_def]
  have si: "inodes s 28 = i" "free_map_file s \<noteq> 0" by (simp_all add: s_def) (simp add: sample_fs_def)
  have b: "file_sectors s (data i) = {}" using sample_blocks T(5,6) i(1) by (simp add: file_sectors_def)
  have m: "marked s 5" "marked s 2" using T(4) by (simp_all add: sample_marked)
  have "upd_inode 28 (\<lambda>i. i\<lparr>removed := True\<rparr>) sample_fs = s" by (simp add: s_def i_def)
  moreover have "\<exists>s'. inode_close (bitmap_write 1) 28 s = Some s' \<and> \<not> marked s' 5 \<and> marked s' 2"
    using inode_close_removed [of 28 s 0, unfolded si(1)] T(1,2) b m i si(2) sample_env(2) by auto
  ultimately show ?thesis by simp
qed

end
