(* ===== verification/FilePersist.thy ===== *)
theory FilePersist
  imports FileProps
begin

text \<open>
  What stays on the disk: an inode survives closing and opening, the free map survives
  writing and reading; and what a full disk does to the creation of a file.
\<close>

section \<open>Closing and opening\<close>

text \<open>
  C22: an inode survives being closed and opened again.  The last close writes it to its
  sector, and opening that sector brings back the same inode, length, pointers and level
  indexes included, with one opener and writing allowed.
\<close>

theorem inode_close_open:
  assumes "a \<noteq> 0" "open_cnt (inodes s a) = 1" "\<not> removed (inodes s a)" "inode_fits (data (inodes s a))"
    "unat (sector (inodes s a)) < dev_size s" "heap s (heap_calls s) \<noteq> 0"
    "\<forall>b \<in> set (remove1 a (open_inodes s)). b \<noteq> a \<and> sector (inodes s b) \<noteq> sector (inodes s a)"
  shows "\<exists>s1 s2 b. inode_close w a s = Some s1 \<and> a \<notin> set (open_inodes s1) \<and>
    inode_open (sector (inodes s a)) s1 = Some (b, s2) \<and> open_inodes s2 = b # remove1 a (open_inodes s) \<and>
    inodes s2 b = (inodes s a)\<lparr>open_cnt := 1, deny_write_cnt := 0, ilock := False\<rparr>"
proof -
  let ?p = "sector (inodes s a)"
  define s1 where "s1 = s\<lparr>inodes := (inodes s)(a := (inodes s a)\<lparr>open_cnt := 0\<rparr>),
     open_inodes := remove1 a (open_inodes s), dev := (dev s)(unat ?p := encode_inode (data (inodes s a)))\<rparr>"
  have c: "inode_close w a s = Some s1"
    using assms(1,2,3,5) by (simp add: inode_close_def sector_write_def s1_def)
  have "List.find (\<lambda>x. sector (inodes s1 x) = ?p) (open_inodes s1) = None"
    using assms(7) by (auto simp: find_None_iff s1_def)
  moreover have "fs_malloc s1 = (heap s (heap_calls s), s1\<lparr>heap_calls := heap_calls s + 1\<rparr>)"
    by (simp add: fs_malloc_def s1_def)
  moreover have "dev_size s1 = dev_size s" "dev s1 (unat ?p) = encode_inode (data (inodes s a))"
    by (simp_all add: s1_def)
  ultimately have "\<exists>s2. inode_open ?p s1 = Some (heap s (heap_calls s), s2) \<and>
      open_inodes s2 = heap s (heap_calls s) # open_inodes s1 \<and>
      inodes s2 (heap s (heap_calls s)) = \<lparr>open_cnt = 1, deny_write_cnt = 0, removed = False,
        sector = ?p, data = data (inodes s a), ilock = False\<rparr>"
    using assms(5,6) by (simp add: inode_open_def sector_read_def decode_encode_inode [OF assms(4)])
  moreover have "\<lparr>open_cnt = 1, deny_write_cnt = 0, removed = False, sector = ?p, data = data (inodes s a),
      ilock = False\<rparr> = (inodes s a)\<lparr>open_cnt := 1, deny_write_cnt := 0, ilock := False\<rparr>"
    using assms(3) by simp
  moreover have "a \<notin> set (open_inodes s1)" "open_inodes s1 = remove1 a (open_inodes s)"
    using assms(7) by (auto simp: s1_def)
  ultimately show ?thesis using c by auto
qed

theorem inode_close_open_witness:
  "\<exists>s1 s2 b. inode_close (bitmap_write 1) 20 sample_fs = Some s1 \<and> inode_open 0 s1 = Some (b, s2) \<and>
     flength (data (inodes s2 b)) = 8"
proof -
  have "inode_fits (data (inodes sample_fs 20))" by (simp add: inode_fits_def sample_fs_def sample_inode_def)
  moreover have "sector (inodes sample_fs 20) = 0" "flength (data (inodes sample_fs 20)) = 8"
    "open_cnt (inodes sample_fs 20) = 1" "\<not> removed (inodes sample_fs 20)" "dev_size sample_fs = 64"
    "heap sample_fs (heap_calls sample_fs) \<noteq> 0" "open_inodes sample_fs = [28, 20]"
    "sector (inodes sample_fs 28) = 5"
    by (simp_all add: sample_fs_def sample_inode_def)
  ultimately show ?thesis using inode_close_open [of 20 sample_fs "bitmap_write 1"] by fastforce
qed

section \<open>A full disk\<close>

lemma free_map_allocate_full:
  assumes "disk_ok s" "\<forall>x < dev_size s. marked s x"
  shows "free_map_allocate w 1 s = Some (None, s)"
proof -
  have bok: "bitmap_ok (free_map s)" "bit_cnt (free_map s) = dev_size s" using assms(1) by (auto simp: disk_ok_def)
  obtain r where r: "bitmap_scan (free_map s) 0 1 False = Some r" "first_run (bm (free_map s)) 0 1 False r"
    using bitmap_scan_bm [OF bok(1), of 0 1 False] by blast
  have "r = BITMAP_ERROR"
    using r(2) assms(2) bok(2) by (auto simp: first_run_def bit_run_def marked_def split: if_splits)
  then show ?thesis using r(1) by (simp add: free_map_allocate_def bitmap_scan_and_flip_def)
qed

text \<open>
  C23: on a full disk the creation of a file still reports success.  No sector can be
  allocated for the data, the failure is ignored, and the zeros meant for the new sector
  go to whatever sector the uninitialised local inode happens to name; the inode that is
  then written points to that sector.
\<close>

theorem inode_create_full_disk:
  assumes "disk_ok s" "\<forall>x < dev_size s. marked s x" "0 < len" "len \<le> 512"
    "heap s (heap_calls s) \<noteq> 0" "length (junk s) = 128" "unat (junk s ! 0) < dev_size s" "unat sec < dev_size s"
  shows "\<exists>s' d. inode_create w sec len is_dir s = Some (True, s') \<and> free_map s' = free_map s \<and>
    dev s' = (dev s)(unat (junk s ! 0) := zeros, unat sec := encode_inode d) \<and> ptr d ! 0 = junk s ! 0 \<and> flength d = len"
proof -
  define t where "t = s\<lparr>heap_calls := heap_calls s + 1, inodes := (inodes s)(LOCAL_INODE := local_inode s)\<rparr>"
  have t: "disk_ok t" "\<forall>x < dev_size t. marked t x" using assms(1,2) by (simp_all add: t_def disk_ok_def marked_def)
  have b: "bytes_to_sectors len = 1" "bytes_to_sectors 0 = 0" using assms(3,4) by (simp_all add: bytes_to_sectors_eq)
  have p: "ptr (data (inodes t LOCAL_INODE)) = take 12 (junk s)" "array_get (take 12 (junk s)) 0 = Some (junk s ! 0)"
    using assms(6) by (simp_all add: t_def local_inode_def array_get_def)
  let ?u = "t\<lparr>dev := (dev t)(unat (junk s ! 0) := zeros)\<rparr>"
  have "direct_loop w LOCAL_INODE 0 1 t = direct_loop w LOCAL_INODE 1 0 ?u"
    using free_map_allocate_full [OF t] assms(7) p
    by (subst direct_loop.simps) (simp add: sector_write_def t_def)
  then have "direct_loop w LOCAL_INODE 0 1 t = Some (1, 0, ?u)" by (simp add: direct_loop.simps)
  then have "inode_grow w len LOCAL_INODE t = Some (len, upd_data LOCAL_INODE (\<lambda>d. d\<lparr>direct_level_index := 1\<rparr>) ?u)"
    using b by (simp add: inode_grow_def inode_length_def t_def local_inode_def)
  then show ?thesis using assms(3,5,6,8)
    by (simp add: inode_create_def fs_malloc_def inode_allocate_def sector_write_def t_def local_inode_def)
      (rule exI, rule conjI, rule refl, simp)
qed

theorem inode_create_full_disk_witness:
  "\<exists>s'. inode_create (bitmap_write 1) 9 100 False (sample_fs\<lparr>free_map := \<lparr>bit_cnt = 64, bits = [- 1, - 1]\<rparr>\<rparr>) = Some (True, s') \<and>
     dev s' 7 = zeros"
proof -
  define s where "s = sample_fs\<lparr>free_map := \<lparr>bit_cnt = 64, bits = [- 1, - 1]\<rparr>\<rparr>"
  have "disk_ok s"
    by (simp add: disk_ok_def s_def sample_fs_def bitmap_ok_def elem_cnt_def DIV_ROUND_UP_def ELEM_BITS_def zeros_def)
  moreover have "\<forall>x < dev_size s. marked s x"
  proof (intro allI impI)
    fix x assume x: "x < dev_size s"
    then have "x div 32 = 0 \<or> x div 32 = 1" by (simp add: s_def sample_fs_def) linarith
    then have "[- 1, - 1 :: u32] ! (x div 32) = - 1" by auto
    with x show "marked s x" by (simp add: marked_def s_def sample_fs_def bm_nth elem_idx_def ELEM_BITS_def)
  qed
  moreover have "heap s (heap_calls s) \<noteq> 0" "length (junk s) = 128" "junk s ! 0 = 7" "dev_size s = 64"
    by (simp_all add: s_def sample_fs_def)
  ultimately show ?thesis unfolding s_def [symmetric]
    using inode_create_full_disk [of s 100 9 "bitmap_write 1" False] by auto
qed

section \<open>The free map on the disk\<close>

text \<open>Reading a file does not look at the free map.\<close>

lemma byte_to_sector_free_map: "byte_to_sector a ofs (s\<lparr>free_map := b\<rparr>) = byte_to_sector a ofs s"
proof -
  have "index_read (s\<lparr>free_map := b\<rparr>) = index_read s" by (simp add: fun_eq_iff index_read_def sector_read_def)
  then show ?thesis by (simp add: byte_to_sector_def inode_length_def Let_def cong: if_cong)
qed

lemma read_loop_free_map:
  "read_loop a sz ofs bounce buf (s\<lparr>free_map := b\<rparr>) =
   map_option (\<lambda>(bs, t). (bs, t\<lparr>free_map := b\<rparr>)) (read_loop a sz ofs bounce buf s)"
proof (induction "nat sz" arbitrary: sz ofs bounce buf s rule: less_induct)
  case less
  obtain so sl ch where ch: "chunk_of (inode_length a s) ofs sz = (so, sl, ch)" by (cases "chunk_of (inode_length a s) ofs sz")
  have l: "inode_length a (s\<lparr>free_map := b\<rparr>) = inode_length a s" by (simp add: inode_length_def)
  have IH: "0 < c \<Longrightarrow> 0 < sz \<Longrightarrow> read_loop a (sz - c) ofs' bo bu (t\<lparr>free_map := b\<rparr>) =
     map_option (\<lambda>(bs, t). (bs, t\<lparr>free_map := b\<rparr>)) (read_loop a (sz - c) ofs' bo bu t)" for c ofs' bo bu t
    by (rule less) simp
  have c: "t\<lparr>free_map := b, heap_calls := n\<rparr> = t\<lparr>heap_calls := n, free_map := b\<rparr>" for t :: fs and n by simp
  show ?case
    unfolding read_loop.simps [of a sz ofs bounce buf s] read_loop.simps [of a sz ofs bounce buf "s\<lparr>free_map := b\<rparr>"]
      byte_to_sector_free_map l ch
    by (cases "byte_to_sector a ofs s") (use IH in \<open>simp_all add: c sector_read_def fs_malloc_def Let_def\<close>)
qed

lemma take_bytes_of: "take (4 * k) (bytes_of ws) = bytes_of (take k ws)"
proof (cases "k \<le> length ws")
  case True
  have "bytes_of ws = bytes_of (take k ws) @ bytes_of (drop k ws)" by (simp flip: bytes_of_simps(3))
  then show ?thesis using True by simp
qed simp

lemma bit_last_mask: "i < 32 \<Longrightarrow> bit (last_mask b) i \<longleftrightarrow> bit_cnt b mod 32 = 0 \<or> i < bit_cnt b mod 32"
proof -
  assume "i < 32"
  moreover have "push_bit n 1 - 1 = (mask n :: u32)" for n by (simp add: mask_eq_exp_minus_1 push_bit_eq_mult)
  ultimately show ?thesis by (simp add: last_mask_def ELEM_BITS_def bit_mask_iff Let_def)
qed

lemma bm_masked:
  assumes "bitmap_ok b" "0 < bit_cnt b" "bits b' = es[elem_cnt (bit_cnt b) - 1 := es ! (elem_cnt (bit_cnt b) - 1) AND last_mask b]"
    "es = take (elem_cnt (bit_cnt b)) (bits b)" "bit_cnt b' = bit_cnt b"
  shows "bm b' = bm b"
proof (rule nth_equalityI)
  fix i assume "i < length (bm b')"
  then have i: "i < bit_cnt b" using assms(5) by simp
  define k where "k = elem_cnt (bit_cnt b)"
  have k: "k = (bit_cnt b + 31) div 32" "k \<le> length (bits b)" using assms(1) elem_cnt_eq [of "bit_cnt b"] by (auto simp: bitmap_ok_def k_def)
  have ik: "i div 32 < k" using i k(1) by linarith
  have "i mod 32 < bit_cnt b mod 32" if "i div 32 = k - 1" "bit_cnt b mod 32 \<noteq> 0"
  proof -
    define q r where "q = bit_cnt b div 32" and "r = bit_cnt b mod 32"
    then have c: "bit_cnt b = 32 * q + r" "r < 32" "0 < r" using that(2) by simp_all
    then have "k = q + 1" using k(1) by linarith
    moreover have "i = 32 * (i div 32) + i mod 32" by simp
    ultimately show ?thesis using that(1) i c(1) unfolding r_def [symmetric] by linarith
  qed
  then have "i div 32 = k - 1 \<Longrightarrow> bit_cnt b mod 32 = 0 \<or> i mod 32 < bit_cnt b mod 32" by blast
  then show "bm b' ! i = bm b ! i"
    using i ik k assms by (auto simp: bm_nth elem_idx_def ELEM_BITS_def nth_list_update bit_and_iff bit_last_mask simp flip: k_def)
qed (use assms in simp)

text \<open>
  C24: the free map survives being written and read.  After the map in memory has been
  written to its file, reading the file into any bitmap of the size of the disk gives the
  same bits, so the map found at the next boot is the one that was in use.
\<close>

theorem free_map_write_read:
  assumes "env a s" "free_map_file s \<noteq> 0" "0 < dev_size s"
    and b: "bit_cnt b = dev_size s" "length (bits b) = elem_cnt (dev_size s)"
  shows "\<exists>s1 s2. bitmap_write (Suc n) s = Some (True, s1) \<and> free_map s1 = free_map s \<and>
    bitmap_read (s1\<lparr>free_map := b\<rparr>) = Some (True, s2) \<and> bm (free_map s2) = bm (free_map s)"
proof -
  define f where "f = finode (files s (free_map_file s))"
  define k where "k = elem_cnt (dev_size s)"
  have dok: "disk_ok s" "bitmap_ok (free_map s)" "bit_cnt (free_map s) = dev_size s"
    using envD(1) [OF assms(1)] by (auto simp: disk_ok_def)
  then have k: "k = (dev_size s + 31) div 32" "k \<le> length (bits (free_map s))" "dev_size s + 31 < 2 ^ 32"
    by (auto simp: bitmap_ok_def elem_cnt_eq k_def)
  then have sz: "byte_cnt (dev_size s) = 4 * k" by (simp add: byte_cnt_def flip: k_def)
  obtain D c where w: "bitmap_write (Suc n) s = Some (True, s\<lparr>dev := D, heap_calls := c\<rparr>)"
      "rewritten (map_data s) (dev s) D"
      "take (4 * k) (raw D (dblocks s (map_inode s))) = take (4 * k) (bytes_of (bits (free_map s)))"
    using map_write_ok [OF assms(1,2), of n] unfolding sz by blast
  define s1 where "s1 = s\<lparr>dev := D, heap_calls := c\<rparr>"
  have f: "f \<noteq> 0" "inode_ok s (data (inodes s f))" "flength (data (inodes s f)) = int (4 * k)" "map_inode s = data (inodes s f)"
    using assms(1,2) sz by (auto simp: env_def map_inode_def f_def)
  have ok: "disk_ok s1" "inode_ok s1 (data (inodes s f))" "dblocks s1 (data (inodes s f)) = dblocks s (data (inodes s f))"
    using rewritten_file [OF dok(1) f(2), of s1] w(2) assms(2) f(4) by (simp_all add: s1_def map_data_def)
  have cont: "dcontent s1 (data (inodes s f)) = bytes_of (take k (bits (free_map s)))"
    using w(3) f(3,4) unfolding dcontent_def ok(3) by (simp add: s1_def take_bytes_of nat_mult_distrib)
  have "\<exists>c. inode_read_at f (int (4 * k)) 0 s1 = Some (bytes_of (take k (bits (free_map s))), s1\<lparr>heap_calls := c\<rparr>)"
    using read_loop_ok [of s1 f 0 "int (4 * k)" False "[]"] ok f cont k(2) envD(2) [OF assms(1)]
    by (simp add: inode_read_at_def s1_def)
  then obtain c' where "inode_read_at f (int (4 * k)) 0 (s1\<lparr>free_map := b\<rparr>) =
      Some (bytes_of (take k (bits (free_map s))), s1\<lparr>heap_calls := c', free_map := b\<rparr>)"
    by (auto simp: inode_read_at_def read_loop_free_map)
  moreover have "i32 (int (4 * k)) = int (4 * k)" using k(1,3) by simp
  moreover have "words_of (put (bytes_of (bits b)) 0 (bytes_of (take k (bits (free_map s))))) = take k (bits (free_map s))"
    using b(2) k(2) by (simp add: put_all k_def)
  moreover have "0 < k" using assms(3) k(1) by linarith
  ultimately have "bitmap_read (s1\<lparr>free_map := b\<rparr>) = Some (True, s1\<lparr>heap_calls := c',
      free_map := b\<lparr>bits := (take k (bits (free_map s)))[k - 1 := take k (bits (free_map s)) ! (k - 1) AND last_mask b]\<rparr>\<rparr>)"
    using assms(2,3) b k(2) sz
    by (simp add: bitmap_read_def file_read_at_def f_def s1_def array_get_def array_set_def last_mask_def Let_def flip: k_def)
  moreover have "last_mask b = last_mask (free_map s)" using b(1) dok(3) by (simp add: last_mask_def)
  moreover have "bm (b\<lparr>bits := (take k (bits (free_map s)))[k - 1 := take k (bits (free_map s)) ! (k - 1) AND last_mask (free_map s)]\<rparr>) = bm (free_map s)"
    by (rule bm_masked [OF dok(2)]) (use assms(3) b dok(3) in \<open>simp_all flip: k_def\<close>)
  ultimately show ?thesis using w(1) unfolding s1_def [symmetric] by (auto simp: s1_def)
qed

theorem free_map_write_read_witness:
  "\<exists>s1 s2. bitmap_write 1 sample_fs = Some (True, s1) \<and>
     bitmap_read (s1\<lparr>free_map := \<lparr>bit_cnt = 64, bits = [0, 0]\<rparr>\<rparr>) = Some (True, s2) \<and> bm (free_map s2) = bm (free_map sample_fs)"
proof -
  have "free_map_file sample_fs \<noteq> 0" "dev_size sample_fs = 64" by (simp_all add: sample_fs_def)
  moreover have "elem_cnt 64 = 2" by (simp add: elem_cnt_eq)
  ultimately show ?thesis
    using free_map_write_read [OF sample_env(1), of "\<lparr>bit_cnt = 64, bits = [0, 0]\<rparr>" 0] by auto
qed

section \<open>Denying writes\<close>

text \<open>
  \<open>F\<close> is the set of open files.  The count of an inode is the number of its open files that
  deny writing; an inode may have further openers that are not files.
\<close>

definition deniers :: "nat set \<Rightarrow> fs \<Rightarrow> nat \<Rightarrow> nat set" where
  "deniers F s a = {f \<in> F. finode (files s f) = a \<and> deny_write (files s f)}"

definition deny_ok :: "nat set \<Rightarrow> fs \<Rightarrow> bool" where
  "deny_ok F s \<longleftrightarrow> finite F \<and> 0 \<notin> F \<and> (\<forall>a. deny_write_cnt (inodes s a) = int (card (deniers F s a)) \<and>
     int (card {f \<in> F. finode (files s f) = a}) \<le> open_cnt (inodes s a))"

lemma deniers_le: "finite F \<Longrightarrow> card (deniers F s a) \<le> card {f \<in> F. finode (files s f) = a}"
  by (rule card_mono) (auto simp: deniers_def)

lemma deny_okD:
  assumes "deny_ok F s"
  shows "deny_write_cnt (inodes s a) = int (card (deniers F s a))" "deny_write_cnt (inodes s a) \<le> open_cnt (inodes s a)"
proof -
  have "finite F" "deny_write_cnt (inodes s a) = int (card (deniers F s a))"
    "int (card {f \<in> F. finode (files s f) = a}) \<le> open_cnt (inodes s a)" using assms by (simp_all add: deny_ok_def)
  with deniers_le [of F s a] show "deny_write_cnt (inodes s a) = int (card (deniers F s a))"
    "deny_write_cnt (inodes s a) \<le> open_cnt (inodes s a)" by linarith+
qed

lemma deny_ok_set:
  assumes ok: "deny_ok F s" and f: "f \<in> F" "deny_write (files s f) = (\<not> v)"
  defines "a \<equiv> finode (files s f)"
  defines "t \<equiv> upd_inode a (\<lambda>i. i\<lparr>deny_write_cnt := deny_write_cnt i + (if v then 1 else - 1)\<rparr>)
    (upd_file f (\<lambda>x. x\<lparr>deny_write := v\<rparr>) s)"
  shows "deny_ok F t" "deniers F t a = (if v then insert f (deniers F s a) else deniers F s a - {f})"
proof -
  have fin: "finite F" using ok by (simp add: deny_ok_def)
  show D: "deniers F t a = (if v then insert f (deniers F s a) else deniers F s a - {f})"
    using f by (auto simp: deniers_def t_def a_def)
  have D': "deniers F t b = deniers F s b" if "b \<noteq> a" for b using that by (auto simp: deniers_def t_def a_def)
  have G: "{g \<in> F. finode (files t g) = b} = {g \<in> F. finode (files s g) = b}" for b by (auto simp: t_def)
  have C: "int (card (deniers F t a)) = int (card (deniers F s a)) + (if v then 1 else - 1)"
  proof (cases v)
    case True
    then have "f \<notin> deniers F s a" using f by (simp add: deniers_def)
    then show ?thesis unfolding D using True fin by (simp add: deniers_def)
  next
    case False
    then have "f \<in> deniers F s a" "finite (deniers F s a)" using f fin by (simp_all add: deniers_def a_def)
    then have "card (deniers F s a) = card (deniers F s a - {f}) + 1"
      by (metis Suc_eq_plus1 card.remove)
    then show ?thesis unfolding D using False by simp
  qed
  show "deny_ok F t" unfolding deny_ok_def G
  proof (intro conjI allI)
    fix b
    show "deny_write_cnt (inodes t b) = int (card (deniers F t b))"
      using ok C D' [of b] by (cases "b = a") (simp_all add: deny_ok_def t_def)
    show "int (card {g \<in> F. finode (files s g) = b}) \<le> open_cnt (inodes t b)"
      using ok by (simp add: deny_ok_def t_def)
  qed (use ok in \<open>simp_all add: deny_ok_def\<close>)
qed

text \<open>
  C25: a file whose writing is denied stays unwritten.  Denying and allowing writes never
  fail their assertions and keep the count of an inode equal to the number of its open
  files that deny writing, however often each of them is called; while there is such a file,
  a write through any open file of the inode transfers nothing and changes no sector.
\<close>

theorem deny_write_protects:
  assumes ok: "deny_ok F s" and f: "f \<in> F"
  shows "\<exists>s'. (if v then file_deny_write f s else file_allow_write f s) = Some s' \<and> deny_ok F s' \<and>
    deniers F s' (finode (files s f)) =
      (if v then insert f (deniers F s (finode (files s f))) else deniers F s (finode (files s f)) - {f}) \<and>
    (\<forall>g \<in> F. deniers F s' (finode (files s' g)) \<noteq> {} \<longrightarrow>
       file_write w g buf sz s' = Some (0, upd_file g (\<lambda>x. x\<lparr>pos := i32 (pos x)\<rparr>) s'))"
proof -
  define a where "a = finode (files s f)"
  let ?t = "upd_inode a (\<lambda>i. i\<lparr>deny_write_cnt := deny_write_cnt i + (if v then 1 else - 1)\<rparr>)
    (upd_file f (\<lambda>x. x\<lparr>deny_write := v\<rparr>) s)"
  have nz: "f \<noteq> 0" and fin: "finite F" using ok f by (metis deny_ok_def)+
  have writes: "file_write w g buf sz s' = Some (0, upd_file g (\<lambda>x. x\<lparr>pos := i32 (pos x)\<rparr>) s')"
    if "deny_ok F s'" "g \<in> F" "deniers F s' (finode (files s' g)) \<noteq> {}" for s' g
  proof -
    have "finite (deniers F s' (finode (files s' g)))" using fin by (simp add: deniers_def)
    then have "card (deniers F s' (finode (files s' g))) \<noteq> 0" using that(3) by simp
    moreover note deny_okD(1) [OF that(1), of "finode (files s' g)"]
    moreover have "g \<noteq> 0" using that(1,2) by (metis deny_ok_def)
    ultimately have "deny_write_cnt (inodes s' (finode (files s' g))) \<noteq> 0" "g \<noteq> 0" by linarith+
    then show ?thesis by (simp add: file_write_def inode_write_at_def)
  qed
  show ?thesis
  proof (cases "deny_write (files s f) = v")
    case True
    then have "(if v then file_deny_write f s else file_allow_write f s) = Some s"
      using nz by (simp add: file_deny_write_def file_allow_write_def)
    moreover have "deniers F s a = (if v then insert f (deniers F s a) else deniers F s a - {f})"
      using True f by (auto simp: deniers_def a_def)
    ultimately show ?thesis using ok writes unfolding a_def by blast
  next
    case False
    then have "deny_write (files s f) = (\<not> v)" by blast
    note S = deny_ok_set [OF ok f this, folded a_def]
    note cnt = deny_okD [OF ok, of a] deny_okD(2) [OF S(1), of a]
    have "0 < card (deniers F s a)" if "\<not> v"
      using that f False fin by (auto simp: card_gt_0_iff deniers_def a_def)
    then have "(if v then file_deny_write f s else file_allow_write f s) = Some ?t"
      using nz False cnt
      by (cases v) (simp_all add: file_deny_write_def file_allow_write_def inode_deny_write_def inode_allow_write_def flip: a_def)
    then show ?thesis using S writes unfolding a_def by blast
  qed
qed

theorem deny_write_protects_witness:
  "\<exists>s'. file_deny_write 32 sample_fs = Some s' \<and> deniers {32} s' 28 = {32} \<and>
     file_write (bitmap_write 1) 32 [1] 1 s' = Some (0, upd_file 32 (\<lambda>x. x\<lparr>pos := i32 (pos x)\<rparr>) s')"
proof -
  have d: "deniers {32} sample_fs b = {}" for b by (simp add: deniers_def sample_fs_def)
  have "card {f \<in> {32}. finode (files sample_fs f) = b} \<le> card {32 :: nat}" for b by (rule card_mono) auto
  moreover have "open_cnt (inodes sample_fs b) = 1" "deny_write_cnt (inodes sample_fs b) = 0" for b
    by (simp_all add: sample_fs_def sample_inode_def)
  ultimately have "deny_ok {32} sample_fs" unfolding deny_ok_def d by simp
  moreover have "finode (files sample_fs 32) = 28" by (simp add: sample_fs_def)
  moreover have "finode (files s' 32) = 28" if "file_deny_write 32 sample_fs = Some s'" for s'
    using that by (auto simp: file_deny_write_def inode_deny_write_def sample_fs_def ASSERT_def split: if_splits)
  ultimately show ?thesis using deny_write_protects [of "{32}" sample_fs 32 True "bitmap_write 1" "[1]" 1] d by auto
qed

end
