(* ===== verification/CString.thy ===== *)
theory CString
  imports Bytes
begin

text \<open>
  \<open>lib/string.c\<close>: blocks of memory and null-terminated strings.  Memory is a list of bytes
  indexed by the address; an access at the null pointer or past the end faults.  An
  address computed by the code never passes the end of the memory by more than one, so
  the wrap-around of pointers at the end of the address space is a fault as well.
\<close>

type_synonym mem = "u8 list"

definition load8 :: "mem \<Rightarrow> nat \<Rightarrow> u8 option" where
  "load8 m p = (if p \<noteq> 0 \<and> p < length m then Some (m ! p) else None)"

definition store8 :: "mem \<Rightarrow> nat \<Rightarrow> u8 \<Rightarrow> mem option" where
  "store8 m p v = (if p \<noteq> 0 \<and> p < length m then Some (m[p := v]) else None)"

section \<open>Blocks\<close>

fun copy_up :: "mem \<Rightarrow> nat \<Rightarrow> nat \<Rightarrow> nat \<Rightarrow> mem option" where
  "copy_up m dst src 0 = Some m"
| "copy_up m dst src (Suc sz) = do {
     b \<leftarrow> load8 m src;
     m \<leftarrow> store8 m dst b;
     copy_up m (dst + 1) (src + 1) sz }"

fun copy_down :: "mem \<Rightarrow> nat \<Rightarrow> nat \<Rightarrow> nat \<Rightarrow> mem option" where
  "copy_down m dst src 0 = Some m"
| "copy_down m dst src (Suc sz) = do {
     b \<leftarrow> load8 m (src - 1);
     m \<leftarrow> store8 m (dst - 1) b;
     copy_down m (dst - 1) (src - 1) sz }"

definition memcpy :: "mem \<Rightarrow> nat \<Rightarrow> nat \<Rightarrow> nat \<Rightarrow> (nat \<times> mem) option" where
  "memcpy m dst src sz = do {
     ASSERT (dst \<noteq> 0 \<or> sz = 0);
     ASSERT (src \<noteq> 0 \<or> sz = 0);
     m \<leftarrow> copy_up m dst src sz;
     Some (dst, m) }"

text \<open>The first loop leaves \<open>dst\<close> behind the block, and that is the value returned.\<close>

definition memmove :: "mem \<Rightarrow> nat \<Rightarrow> nat \<Rightarrow> nat \<Rightarrow> (nat \<times> mem) option" where
  "memmove m dst src sz = do {
     ASSERT (dst \<noteq> 0 \<or> sz = 0);
     ASSERT (src \<noteq> 0 \<or> sz = 0);
     if dst < src
     then do { m \<leftarrow> copy_up m dst src sz; Some (dst + sz, m) }
     else do { m \<leftarrow> copy_down m (dst + sz) (src + sz) sz; Some (dst, m) } }"

fun memcmp_loop :: "mem \<Rightarrow> nat \<Rightarrow> nat \<Rightarrow> nat \<Rightarrow> int option" where
  "memcmp_loop m a b 0 = Some 0"
| "memcmp_loop m a b (Suc sz) = do {
     x \<leftarrow> load8 m a;
     y \<leftarrow> load8 m b;
     if x \<noteq> y then Some (if x > y then 1 else - 1) else memcmp_loop m (a + 1) (b + 1) sz }"

definition memcmp :: "mem \<Rightarrow> nat \<Rightarrow> nat \<Rightarrow> nat \<Rightarrow> int option" where
  "memcmp m a b sz = do {
     ASSERT (a \<noteq> 0 \<or> sz = 0);
     ASSERT (b \<noteq> 0 \<or> sz = 0);
     memcmp_loop m a b sz }"

fun memchr_loop :: "mem \<Rightarrow> nat \<Rightarrow> u8 \<Rightarrow> nat \<Rightarrow> nat option" where
  "memchr_loop m block ch 0 = Some 0"
| "memchr_loop m block ch (Suc sz) = do {
     x \<leftarrow> load8 m block;
     if x = ch then Some block else memchr_loop m (block + 1) ch sz }"

definition memchr :: "mem \<Rightarrow> nat \<Rightarrow> u8 \<Rightarrow> nat \<Rightarrow> nat option" where
  "memchr m block ch sz = do {
     ASSERT (block \<noteq> 0 \<or> sz = 0);
     memchr_loop m block ch sz }"

fun memset_loop :: "mem \<Rightarrow> nat \<Rightarrow> u8 \<Rightarrow> nat \<Rightarrow> mem option" where
  "memset_loop m dst v 0 = Some m"
| "memset_loop m dst v (Suc sz) = do { m \<leftarrow> store8 m dst v; memset_loop m (dst + 1) v sz }"

definition memset :: "mem \<Rightarrow> nat \<Rightarrow> u8 \<Rightarrow> nat \<Rightarrow> (nat \<times> mem) option" where
  "memset m dst v sz = do {
     ASSERT (dst \<noteq> 0 \<or> sz = 0);
     m \<leftarrow> memset_loop m dst v sz;
     Some (dst, m) }"

section \<open>Strings\<close>

lemma load8_less: "load8 m p = Some c \<Longrightarrow> p < length m"
  by (simp add: load8_def split: if_splits)

function strcmp_loop :: "mem \<Rightarrow> nat \<Rightarrow> nat \<Rightarrow> int option" where
  "strcmp_loop m a b = do {
     x \<leftarrow> load8 m a;
     y \<leftarrow> load8 m b;
     if x \<noteq> 0 \<and> x = y then strcmp_loop m (a + 1) (b + 1)
     else Some (if x < y then - 1 else if x > y then 1 else 0) }"
  by pat_completeness auto
termination
  by (relation "measure (\<lambda>(m, a, b). length m - a)") (auto dest: load8_less)

definition strcmp :: "mem \<Rightarrow> nat \<Rightarrow> nat \<Rightarrow> int option" where
  "strcmp m a b = do { ASSERT (a \<noteq> 0); ASSERT (b \<noteq> 0); strcmp_loop m a b }"

function strchr_loop :: "mem \<Rightarrow> nat \<Rightarrow> u8 \<Rightarrow> nat option" where
  "strchr_loop m string c = do {
     x \<leftarrow> load8 m string;
     if x = c then Some string
     else if x = 0 then Some 0
     else strchr_loop m (string + 1) c }"
  by pat_completeness auto
termination
  by (relation "measure (\<lambda>(m, p, c). length m - p)") (auto dest: load8_less)

definition strchr :: "mem \<Rightarrow> nat \<Rightarrow> u8 \<Rightarrow> nat option" where
  "strchr m string c = do { ASSERT (string \<noteq> 0); strchr_loop m string c }"

text \<open>
  The loops of \<open>strcspn\<close> and \<open>strspn\<close> differ in the outcome of \<open>strchr\<close> at which they stop,
  the argument \<open>hit\<close>.
\<close>

function span_loop :: "bool \<Rightarrow> mem \<Rightarrow> nat \<Rightarrow> nat \<Rightarrow> nat \<Rightarrow> nat option" where
  "span_loop hit m string chars len = do {
     x \<leftarrow> load8 m (string + len);
     if x \<noteq> 0
     then do {
       r \<leftarrow> strchr m chars x;
       if (r \<noteq> 0) = hit then Some len else span_loop hit m string chars (len + 1) }
     else Some len }"
  by pat_completeness auto
termination
  by (relation "measure (\<lambda>(h, m, p, q, n). length m - (p + n))") (auto dest: load8_less)

definition strcspn :: "mem \<Rightarrow> nat \<Rightarrow> nat \<Rightarrow> nat option" where
  "strcspn m string stop = span_loop True m string stop 0"

definition strspn :: "mem \<Rightarrow> nat \<Rightarrow> nat \<Rightarrow> nat option" where
  "strspn m string skip = span_loop False m string skip 0"

function strpbrk :: "mem \<Rightarrow> nat \<Rightarrow> nat \<Rightarrow> nat option" where
  "strpbrk m string stop = do {
     x \<leftarrow> load8 m string;
     if x \<noteq> 0
     then do {
       r \<leftarrow> strchr m stop x;
       if r \<noteq> 0 then Some string else strpbrk m (string + 1) stop }
     else Some 0 }"
  by pat_completeness auto
termination
  by (relation "measure (\<lambda>(m, p, q). length m - p)") (auto dest: load8_less)

function strrchr_loop :: "mem \<Rightarrow> nat \<Rightarrow> u8 \<Rightarrow> nat \<Rightarrow> nat option" where
  "strrchr_loop m string c p = do {
     x \<leftarrow> load8 m string;
     if x \<noteq> 0 then strrchr_loop m (string + 1) c (if x = c then string else p)
     else Some p }"
  by pat_completeness auto
termination
  by (relation "measure (\<lambda>(m, s, c, p). length m - s)") (auto dest: load8_less)

definition strrchr :: "mem \<Rightarrow> nat \<Rightarrow> u8 \<Rightarrow> nat option" where
  "strrchr m string c = strrchr_loop m string c 0"

function strlen_loop :: "mem \<Rightarrow> nat \<Rightarrow> nat option" where
  "strlen_loop m p = do {
     x \<leftarrow> load8 m p;
     if x \<noteq> 0 then strlen_loop m (p + 1) else Some p }"
  by pat_completeness auto
termination
  by (relation "measure (\<lambda>(m, p). length m - p)") (auto dest: load8_less)

definition strlen :: "mem \<Rightarrow> nat \<Rightarrow> nat option" where
  "strlen m string = do {
     ASSERT (string \<noteq> 0);
     p \<leftarrow> strlen_loop m string;
     Some (p - string) }"

text \<open>The byte is read before the length is compared.\<close>

function strnlen_loop :: "mem \<Rightarrow> nat \<Rightarrow> nat \<Rightarrow> nat \<Rightarrow> nat option" where
  "strnlen_loop m string maxlen len = do {
     x \<leftarrow> load8 m (string + len);
     if x \<noteq> 0 \<and> len < maxlen then strnlen_loop m string maxlen (len + 1) else Some len }"
  by pat_completeness auto
termination
  by (relation "measure (\<lambda>(m, p, k, n). length m - (p + n))") (auto dest: load8_less)

definition strnlen :: "mem \<Rightarrow> nat \<Rightarrow> nat \<Rightarrow> nat option" where
  "strnlen m string maxlen = strnlen_loop m string maxlen 0"

function strstr_loop :: "mem \<Rightarrow> nat \<Rightarrow> nat \<Rightarrow> nat \<Rightarrow> nat \<Rightarrow> nat \<Rightarrow> nat option" where
  "strstr_loop m haystack needle needle_len lim i =
     (if i \<le> lim
      then do {
        r \<leftarrow> memcmp m (haystack + i) needle needle_len;
        if r = 0 then Some (haystack + i)
        else strstr_loop m haystack needle needle_len lim (i + 1) }
      else Some 0)"
  by pat_completeness auto
termination
  by (relation "measure (\<lambda>(m, h, n, k, l, i). l + 1 - i)") auto

definition strstr :: "mem \<Rightarrow> nat \<Rightarrow> nat \<Rightarrow> nat option" where
  "strstr m haystack needle = do {
     haystack_len \<leftarrow> strlen m haystack;
     needle_len \<leftarrow> strlen m needle;
     if haystack_len \<ge> needle_len
     then strstr_loop m haystack needle needle_len (haystack_len - needle_len) 0
     else Some 0 }"

text \<open>
  \<open>strtok_r\<close>: \<open>save\<close> is the variable that \<open>save_ptr\<close> points to.  The first loop ends at the end
  of the string, with no token, or at the first character of a token.
\<close>

function skip_loop :: "mem \<Rightarrow> nat \<Rightarrow> nat \<Rightarrow> (bool \<times> nat) option" where
  "skip_loop m s delimiters = do {
     x \<leftarrow> load8 m s;
     r \<leftarrow> strchr m delimiters x;
     if r \<noteq> 0
     then if x = 0 then Some (False, s) else skip_loop m (s + 1) delimiters
     else Some (True, s) }"
  by pat_completeness auto
termination
  by (relation "measure (\<lambda>(m, s, d). length m - s)") (auto dest: load8_less)

function token_loop :: "mem \<Rightarrow> nat \<Rightarrow> nat \<Rightarrow> nat option" where
  "token_loop m s delimiters = do {
     x \<leftarrow> load8 m s;
     r \<leftarrow> strchr m delimiters x;
     if r = 0 then token_loop m (s + 1) delimiters else Some s }"
  by pat_completeness auto
termination
  by (relation "measure (\<lambda>(m, s, d). length m - s)") (auto dest: load8_less)

definition strtok_r :: "mem \<Rightarrow> nat \<Rightarrow> nat \<Rightarrow> nat \<Rightarrow> (nat \<times> nat \<times> mem) option" where
  "strtok_r m s delimiters save = do {
     ASSERT (delimiters \<noteq> 0);
     let s = (if s = 0 then save else s);
     ASSERT (s \<noteq> 0);
     (found, s) \<leftarrow> skip_loop m s delimiters;
     if \<not> found then Some (0, s, m)
     else do {
       let token = s;
       s \<leftarrow> token_loop m s delimiters;
       x \<leftarrow> load8 m s;
       if x \<noteq> 0
       then do { m \<leftarrow> store8 m s 0; Some (token, s + 1, m) }
       else Some (token, s, m) } }"

definition strlcpy :: "mem \<Rightarrow> nat \<Rightarrow> nat \<Rightarrow> nat \<Rightarrow> (nat \<times> mem) option" where
  "strlcpy m dst src sz = do {
     ASSERT (dst \<noteq> 0);
     ASSERT (src \<noteq> 0);
     src_len \<leftarrow> strlen m src;
     m \<leftarrow> (if sz > 0
          then do {
            let dst_len = (if src_len < sz - 1 then src_len else sz - 1);
            (_, m) \<leftarrow> memcpy m dst src dst_len;
            store8 m (dst + dst_len) 0 }
          else Some m);
     Some (src_len, m) }"

definition strlcat :: "mem \<Rightarrow> nat \<Rightarrow> nat \<Rightarrow> nat \<Rightarrow> (nat \<times> mem) option" where
  "strlcat m dst src sz = do {
     ASSERT (dst \<noteq> 0);
     ASSERT (src \<noteq> 0);
     src_len \<leftarrow> strlen m src;
     dst_len \<leftarrow> strlen m dst;
     m \<leftarrow> (if sz > 0 \<and> dst_len < sz
          then do {
            let copy_cnt = (if src_len < sz - dst_len - 1 then src_len else sz - dst_len - 1);
            (_, m) \<leftarrow> memcpy m (dst + dst_len) src copy_cnt;
            store8 m (dst + dst_len + copy_cnt) 0 }
          else Some m);
     Some (src_len + dst_len, m) }"

declare strcmp_loop.simps [simp del] strchr_loop.simps [simp del] span_loop.simps [simp del]
  strpbrk.simps [simp del] strrchr_loop.simps [simp del] strlen_loop.simps [simp del]
  strnlen_loop.simps [simp del] strstr_loop.simps [simp del] skip_loop.simps [simp del]
  token_loop.simps [simp del]

section \<open>Copying\<close>

lemma load8_in [simp]: "\<lbrakk>0 < p; p < length m\<rbrakk> \<Longrightarrow> load8 m p = Some (m ! p)"
  by (simp add: load8_def)

lemma store8_in [simp]: "\<lbrakk>0 < p; p < length m\<rbrakk> \<Longrightarrow> store8 m p v = Some (m[p := v])"
  by (simp add: store8_def)

lemma nth_put_block:
  assumes "dst + n \<le> length m" "src + n \<le> length m'" "i < length m"
  shows "put m dst (take n (drop src m')) ! i = (if dst \<le> i \<and> i < dst + n then m' ! (src + (i - dst)) else m ! i)"
proof -
  have "length (take n (drop src m')) = n" using assms(2) by simp
  moreover have "take n (drop src m') ! (i - dst) = m' ! (src + (i - dst))" if "dst \<le> i" "i < dst + n"
    using assms(2) that by simp
  ultimately show ?thesis
    using nth_put [of dst "take n (drop src m')" m i] assms by (cases "dst \<le> i \<and> i < dst + n") auto
qed

lemma copy_up_ok:
  assumes "0 < dst" "0 < src" "dst + n \<le> length m" "src + n \<le> length m" "dst \<le> src \<or> src + n \<le> dst"
  shows "copy_up m dst src n = Some (put m dst (take n (drop src m)))"
  using assms
proof (induction n arbitrary: m dst src)
  case (Suc n)
  let ?m = "m[dst := m ! src]"
  have "copy_up ?m (dst + 1) (src + 1) n = Some (put ?m (dst + 1) (take n (drop (src + 1) ?m)))"
    by (rule Suc.IH) (use Suc.prems in auto)
  moreover have "put ?m (dst + 1) (take n (drop (src + 1) ?m)) = put m dst (take (Suc n) (drop src m))"
  proof (rule nth_equalityI)
    fix i assume "i < length (put ?m (dst + 1) (take n (drop (src + 1) ?m)))"
    then have i: "i < length m" using Suc.prems by simp
    have p: "put m dst (take (Suc n) (drop src m)) ! i = (if dst \<le> i \<and> i < dst + Suc n then m ! (src + (i - dst)) else m ! i)"
      using Suc.prems i by (subst nth_put_block) simp_all
    have "put ?m (dst + 1) (take n (drop (src + 1) ?m)) ! i =
        (if dst + 1 \<le> i \<and> i < dst + 1 + n then ?m ! (src + 1 + (i - (dst + 1))) else ?m ! i)"
      using Suc.prems i by (subst nth_put_block) simp_all
    moreover have "?m ! (src + 1 + (i - (dst + 1))) = m ! (src + (i - dst))" if "dst + 1 \<le> i" "i < dst + 1 + n"
    proof -
      have "src + 1 + (i - (dst + 1)) = src + (i - dst)" "src + (i - dst) \<noteq> dst" using that Suc.prems(5) by linarith+
      then show ?thesis by (simp only: nth_list_update_neq)
    qed
    ultimately show "put ?m (dst + 1) (take n (drop (src + 1) ?m)) ! i = put m dst (take (Suc n) (drop src m)) ! i"
      unfolding p using i by (cases "i = dst") simp_all
  qed (use Suc.prems in simp)
  ultimately show ?case using Suc.prems by simp
qed simp

lemma copy_down_ok:
  assumes "0 < dst" "0 < src" "dst + n \<le> length m" "src + n \<le> length m" "src \<le> dst"
  shows "copy_down m (dst + n) (src + n) n = Some (put m dst (take n (drop src m)))"
  using assms
proof (induction n arbitrary: m)
  case (Suc n)
  let ?m = "m[dst + n := m ! (src + n)]"
  have "copy_down ?m (dst + n) (src + n) n = Some (put ?m dst (take n (drop src ?m)))"
    by (rule Suc.IH) (use Suc.prems in auto)
  moreover have "put ?m dst (take n (drop src ?m)) = put m dst (take (Suc n) (drop src m))"
  proof (rule nth_equalityI)
    fix i assume "i < length (put ?m dst (take n (drop src ?m)))"
    then have i: "i < length m" using Suc.prems by simp
    have p: "put m dst (take (Suc n) (drop src m)) ! i = (if dst \<le> i \<and> i < dst + Suc n then m ! (src + (i - dst)) else m ! i)"
      using Suc.prems i by (subst nth_put_block) simp_all
    have "put ?m dst (take n (drop src ?m)) ! i = (if dst \<le> i \<and> i < dst + n then ?m ! (src + (i - dst)) else ?m ! i)"
      using Suc.prems i by (subst nth_put_block) simp_all
    moreover have "?m ! (src + (i - dst)) = m ! (src + (i - dst))" if "dst \<le> i" "i < dst + n"
    proof -
      have "src + (i - dst) \<noteq> dst + n" using that Suc.prems(5) by linarith
      then show ?thesis by (simp only: nth_list_update_neq)
    qed
    ultimately show "put ?m dst (take n (drop src ?m)) ! i = put m dst (take (Suc n) (drop src m)) ! i"
      unfolding p using i by (cases "i = dst + n") simp_all
  qed (use Suc.prems in simp)
  ultimately show ?case using Suc.prems by simp
qed simp

lemma memcpy_ok:
  assumes "0 < dst" "0 < src" "dst + n \<le> length m" "src + n \<le> length m" "dst + n \<le> src \<or> src + n \<le> dst"
  shows "memcpy m dst src n = Some (dst, put m dst (take n (drop src m)))"
  using copy_up_ok [of dst src n m] assms by (auto simp: memcpy_def)

lemma memset_ok:
  "\<lbrakk>0 < dst; dst + n \<le> length m\<rbrakk> \<Longrightarrow> memset m dst v n = Some (dst, fill m dst n v)"
proof -
  have "\<lbrakk>0 < dst; dst + n \<le> length m\<rbrakk> \<Longrightarrow> memset_loop m dst v n = Some (fill m dst n v)"
  proof (induction n arbitrary: m dst)
    case (Suc n)
    have "fill (m[dst := v]) (dst + 1) n v = fill m dst (Suc n) v"
      by (rule nth_equalityI) (use Suc.prems in \<open>auto simp: nth_fill nth_list_update\<close>)
    then show ?case using Suc by simp
  qed simp
  then show "\<lbrakk>0 < dst; dst + n \<le> length m\<rbrakk> \<Longrightarrow> memset m dst v n = Some (dst, fill m dst n v)"
    by (simp add: memset_def)
qed

text \<open>
  C26: \<open>memmove\<close> copies correctly whether or not the blocks overlap: afterwards the destination
  holds what the source held before, and nothing else has changed.  The value it returns is
  the destination only if that does not lie below the source; otherwise it is the address
  behind the copied block.
\<close>

theorem memmove_copies:
  assumes "0 < dst" "0 < src" "dst + n \<le> length m" "src + n \<le> length m"
  shows "\<exists>m'. memmove m dst src n = Some (if dst < src then dst + n else dst, m') \<and> length m' = length m \<and>
    take n (drop dst m') = take n (drop src m) \<and>
    (\<forall>i < length m. \<not> (dst \<le> i \<and> i < dst + n) \<longrightarrow> m' ! i = m ! i)"
proof -
  have l: "length (take n (drop src m)) = n" using assms(4) by simp
  have "memmove m dst src n = Some (if dst < src then dst + n else dst, put m dst (take n (drop src m)))"
    using copy_up_ok [of dst src n m] copy_down_ok [of dst src n m] assms by (auto simp: memmove_def)
  moreover have "take n (drop dst (put m dst (take n (drop src m)))) = take n (drop src m)"
    using take_drop_put [of dst "take n (drop src m)" m] l assms(3) by simp
  moreover have "length (put m dst (take n (drop src m))) = length m" using l assms(3) by simp
  moreover have "\<forall>i < length m. \<not> (dst \<le> i \<and> i < dst + n) \<longrightarrow> put m dst (take n (drop src m)) ! i = m ! i"
    using l assms(3) by (simp add: nth_put)
  ultimately show ?thesis by blast
qed

theorem memmove_copies_witness:
  "\<exists>m'. memmove [0, 1, 2, 3, 4] 2 1 3 = Some (2, m') \<and> take 3 (drop 2 m') = [1, 2, 3]"
  using memmove_copies [of 2 1 3 "[0, 1, 2, 3, 4]"] by auto

section \<open>Null-terminated strings\<close>

text \<open>The bytes \<open>xs\<close>, followed by a null byte, are at address \<open>p\<close>.\<close>

fun str_at :: "mem \<Rightarrow> nat \<Rightarrow> u8 list \<Rightarrow> bool" where
  "str_at m p [] \<longleftrightarrow> load8 m p = Some 0"
| "str_at m p (x # xs) \<longleftrightarrow> load8 m p = Some x \<and> x \<noteq> 0 \<and> str_at m (p + 1) xs"

lemma str_at_append:
  "str_at m p (xs @ ys) \<longleftrightarrow> (\<forall>i < length xs. load8 m (p + i) = Some (xs ! i) \<and> xs ! i \<noteq> 0) \<and> str_at m (p + length xs) ys"
proof (induction xs arbitrary: p)
  case (Cons x xs)
  then show ?case by (auto simp: All_less_Suc2)
qed simp

lemma str_at_nth:
  "str_at m p xs \<longleftrightarrow> (\<forall>i < length xs. load8 m (p + i) = Some (xs ! i) \<and> xs ! i \<noteq> 0) \<and> load8 m (p + length xs) = Some 0"
  using str_at_append [of m p xs "[]"] by simp

lemma str_at_pos: "str_at m p xs \<Longrightarrow> 0 < p \<and> p + length xs < length m"
  by (induction xs arbitrary: p) (fastforce simp: load8_def split: if_splits)+

lemma str_at_block: "str_at m p xs \<Longrightarrow> take (length xs) (drop p m) = xs"
proof (rule nth_equalityI)
  assume s: "str_at m p xs"
  note b = str_at_pos [OF s]
  show "length (take (length xs) (drop p m)) = length xs" using b by auto
  fix i assume "i < length (take (length xs) (drop p m))"
  then have i: "i < length xs" by simp
  then have "load8 m (p + i) = Some (xs ! i)" using s by (simp add: str_at_nth)
  then show "take (length xs) (drop p m) ! i = xs ! i" using b i by simp
qed

text \<open>A string does not change when the memory changes elsewhere.\<close>

lemma str_at_frame:
  assumes "str_at m p xs" "length m' = length m" "\<forall>i. p \<le> i \<and> i \<le> p + length xs \<longrightarrow> m' ! i = m ! i"
  shows "str_at m' p xs"
proof -
  have "load8 m' (p + i) = load8 m (p + i)" if "i \<le> length xs" for i
    using assms(2,3) that by (simp add: load8_def)
  then show ?thesis using assms(1) by (simp add: str_at_nth)
qed

lemma strlen_at [simp]: "str_at m p xs \<Longrightarrow> strlen m p = Some (length xs)"
proof -
  assume s: "str_at m p xs"
  have "str_at m q ys \<Longrightarrow> strlen_loop m q = Some (q + length ys)" for q ys
    by (induction ys arbitrary: q) (subst strlen_loop.simps; simp)+
  from this [OF s] str_at_pos [OF s] show ?thesis by (simp add: strlen_def)
qed

lemma strchr_at:
  assumes "str_at m p xs"
  shows "\<exists>r. strchr m p c = Some r \<and> (r \<noteq> 0 \<longleftrightarrow> c \<in> set xs \<union> {0}) \<and>
    (r \<noteq> 0 \<longrightarrow> r = p + length (takeWhile (\<lambda>x. x \<noteq> c) xs))"
proof -
  have "str_at m q ys \<Longrightarrow> \<exists>r. strchr_loop m q c = Some r \<and> (r \<noteq> 0 \<longleftrightarrow> c \<in> set ys \<union> {0}) \<and>
      (r \<noteq> 0 \<longrightarrow> r = q + length (takeWhile (\<lambda>x. x \<noteq> c) ys))" for q ys
  proof (induction ys arbitrary: q)
    case Nil
    then show ?case by (subst strchr_loop.simps) (auto simp: load8_def split: if_splits)
  next
    case (Cons y ys)
    from Cons.IH [of "q + 1"] Cons.prems obtain r where r: "strchr_loop m (q + 1) c = Some r"
      "r \<noteq> 0 \<longleftrightarrow> c \<in> set ys \<union> {0}" "r \<noteq> 0 \<longrightarrow> r = q + 1 + length (takeWhile (\<lambda>x. x \<noteq> c) ys)" by auto
    have "0 < q" using Cons.prems str_at_pos by blast
    then show ?case using r Cons.prems by (subst strchr_loop.simps) auto
  qed
  from this [OF assms] str_at_pos [OF assms] show ?thesis by (simp add: strchr_def)
qed

lemma skip_loop_at:
  assumes d: "str_at m d ds" and "str_at m p xs"
  shows "skip_loop m p d = Some (dropWhile (\<lambda>x. x \<in> set ds) xs \<noteq> [], p + length (takeWhile (\<lambda>x. x \<in> set ds) xs))"
  using assms(2)
proof (induction xs arbitrary: p)
  case Nil
  from strchr_at [OF d, of 0] Nil show ?case by (subst skip_loop.simps) auto
next
  case (Cons x xs)
  from strchr_at [OF d, of x] obtain r where "strchr m d x = Some r" "r \<noteq> 0 \<longleftrightarrow> x \<in> set ds \<union> {0}" by blast
  with Cons show ?case by (subst skip_loop.simps) auto
qed

lemma token_loop_at:
  assumes d: "str_at m d ds" and "str_at m p xs"
  shows "token_loop m p d = Some (p + length (takeWhile (\<lambda>x. x \<notin> set ds) xs))"
  using assms(2)
proof (induction xs arbitrary: p)
  case Nil
  from strchr_at [OF d, of 0] Nil show ?case by (subst token_loop.simps) auto
next
  case (Cons x xs)
  from strchr_at [OF d, of x] obtain r where "strchr m d x = Some r" "r \<noteq> 0 \<longleftrightarrow> x \<in> set ds \<union> {0}" by blast
  with Cons show ?case by (subst token_loop.simps) auto
qed

lemma tokens_shorter:
  assumes ne: "dropWhile (\<lambda>x. x \<in> D) xs \<noteq> []"
  shows "length (dropWhile (\<lambda>x. x \<notin> D) (dropWhile (\<lambda>x. x \<in> D) xs)) < length xs"
proof -
  have "hd (dropWhile (\<lambda>x. x \<in> D) xs) \<notin> D" using hd_dropWhile [OF ne] .
  with ne have "length (dropWhile (\<lambda>x. x \<notin> D) (dropWhile (\<lambda>x. x \<in> D) xs)) < length (dropWhile (\<lambda>x. x \<in> D) xs)"
    by (cases "dropWhile (\<lambda>x. x \<in> D) xs") (auto simp: le_imp_less_Suc length_dropWhile_le)
  also have "\<dots> \<le> length xs" by (rule length_dropWhile_le)
  finally show ?thesis .
qed

text \<open>The words of a string: its longest parts without a delimiter.\<close>

function tokens :: "u8 set \<Rightarrow> u8 list \<Rightarrow> u8 list list" where
  "tokens D xs = (let ys = dropWhile (\<lambda>x. x \<in> D) xs in
     if ys = [] then [] else takeWhile (\<lambda>x. x \<notin> D) ys # tokens D (dropWhile (\<lambda>x. x \<notin> D) ys))"
  by pat_completeness auto
termination
  by (relation "measure (\<lambda>(D, xs). length xs)") (simp_all add: tokens_shorter)

declare tokens.simps [simp del]

lemma tokens_drop: "x \<in> D \<Longrightarrow> tokens D (x # xs) = tokens D xs"
  by (subst (1 2) tokens.simps) simp

lemma str_at_cut:
  assumes "str_at m p (xs @ y # ys)"
  shows "str_at (m[p + length xs := 0]) p xs" "str_at (m[p + length xs := 0]) (p + length xs + 1) ys"
proof -
  note b = str_at_pos [OF assms]
  let ?m = "m[p + length xs := 0]"
  have A: "\<forall>i < length xs. load8 m (p + i) = Some (xs ! i) \<and> xs ! i \<noteq> 0" "str_at m (p + length xs + 1) ys"
    using assms by (simp_all add: str_at_append)
  have "load8 ?m (p + i) = load8 m (p + i)" if "i < length xs" for i using that by (simp add: load8_def)
  moreover have "load8 ?m (p + length xs) = Some 0" using b by (simp add: load8_def)
  ultimately show "str_at ?m p xs" using A(1) by (simp add: str_at_nth)
  show "str_at ?m (p + length xs + 1) ys" by (rule str_at_frame [OF A(2)]) auto
qed

text \<open>
  C11: \<open>strtok_r\<close> takes the words of a string one after the other.  At a string with a word left
  it returns the address of the first word, terminates the word in place and saves the
  address of a string that holds exactly the remaining words; at a string without a word it
  returns the null pointer.  It writes only inside the string.
\<close>

theorem strtok_r_tokens:
  assumes d: "str_at m d ds" and p: "str_at m p xs" and s: "s = p \<or> s = 0 \<and> save = p"
  shows "case tokens (set ds) xs of
      [] \<Rightarrow> strtok_r m s d save = Some (0, p + length xs, m)
    | t # ts \<Rightarrow> \<exists>tok q rest m'. strtok_r m s d save = Some (tok, q, m') \<and> t \<noteq> [] \<and> str_at m' tok t \<and>
        str_at m' q rest \<and> tokens (set ds) rest = ts \<and> length m' = length m \<and>
        p \<le> tok \<and> tok + length t \<le> q \<and> q + length rest = p + length xs \<and>
        (\<forall>i. i < p \<or> p + length xs \<le> i \<longrightarrow> m' ! i = m ! i)"
proof -
  let ?D = "\<lambda>x. x \<in> set ds" and ?N = "\<lambda>x. x \<notin> set ds"
  define us ys where "us = takeWhile ?D xs" and "ys = dropWhile ?D xs"
  define t zs where "t = takeWhile ?N ys" and "zs = dropWhile ?N ys"
  have xs: "xs = us @ ys" "ys = t @ zs" by (simp_all add: us_def ys_def t_def zs_def)
  have pos: "d \<noteq> 0" "p \<noteq> 0" "(if s = 0 then save else s) = p" using str_at_pos [OF d] str_at_pos [OF p] s by auto
  have skip: "skip_loop m p d = Some (ys \<noteq> [], p + length us)" using skip_loop_at [OF d p] by (simp add: us_def ys_def)
  show ?thesis
  proof (cases "ys = []")
    case True
    then have "tokens (set ds) xs = []" by (subst tokens.simps) (simp add: ys_def)
    moreover have "strtok_r m s d save = Some (0, p + length xs, m)"
      using skip True pos xs by (simp add: strtok_r_def)
    ultimately show ?thesis by simp
  next
    case False
    have ys: "str_at m (p + length us) ys" using p xs(1) by (simp add: str_at_append)
    have T: "tokens (set ds) xs = t # tokens (set ds) zs"
      using False by (subst tokens.simps) (simp add: Let_def ys_def t_def zs_def)
    have tl: "token_loop m (p + length us) d = Some (p + length us + length t)"
      using token_loop_at [OF d ys] by (simp add: t_def)
    have t: "t \<noteq> []" using False hd_dropWhile [of ?D xs] by (cases ys) (auto simp: t_def ys_def)
    have len: "length xs = length us + length t + length zs" using xs by simp
    show ?thesis
    proof (cases zs)
      case Nil
      then have "load8 m (p + length us + length t) = Some 0" using ys xs(2) by (simp add: str_at_nth)
      then have "strtok_r m s d save = Some (p + length us, p + length us + length t, m)"
        using skip tl False pos by (simp add: strtok_r_def)
      moreover have "str_at m (p + length us + length t) []" "str_at m (p + length us) t"
        using ys xs(2) Nil by (simp_all add: str_at_nth)
      moreover have "tokens (set ds) [] = []" by (subst tokens.simps) simp
      ultimately show ?thesis using t len Nil unfolding T by fastforce
    next
      case (Cons z rest)
      then have z: "z \<in> set ds" using hd_dropWhile [of ?N ys] by (simp add: zs_def)
      let ?k = "p + length us + length t"
      note C = str_at_cut [of m "p + length us" t z rest]
      have l: "load8 m ?k = Some z" "z \<noteq> 0" using ys xs(2) Cons by (simp_all add: str_at_append)
      then have "strtok_r m s d save = Some (p + length us, ?k + 1, m[?k := 0])"
        using skip tl False pos by (simp add: strtok_r_def store8_def load8_def split: if_splits)
      moreover have "str_at (m[?k := 0]) (p + length us) t" "str_at (m[?k := 0]) (?k + 1) rest"
        using C ys xs(2) Cons by simp_all
      moreover have "tokens (set ds) rest = tokens (set ds) zs" using tokens_drop [OF z] Cons by simp
      moreover have "m[?k := 0] ! i = m ! i" if "i < p \<or> p + length xs \<le> i" for i
        using that len Cons by (intro nth_list_update_neq) auto
      ultimately show ?thesis using t len Cons unfolding T by fastforce
    qed
  qed
qed

theorem strtok_r_tokens_witness:
  "\<exists>tok q m'. strtok_r [0, 32, 0, 32, 97, 98, 32, 99, 0] 3 1 0 = Some (tok, q, m') \<and> str_at m' tok [97, 98]"
proof -
  let ?m = "[0, 32, 0, 32, 97, 98, 32, 99, 0] :: mem"
  have "str_at ?m 1 [32]" "str_at ?m 3 [32, 97, 98, 32, 99]" by (simp_all add: load8_def)
  moreover have "tokens (set [32]) [32, 97, 98, 32, 99] = [[97, 98], [99]]" by (simp add: tokens.simps)
  ultimately show ?thesis using strtok_r_tokens [of ?m 1 "[32]" 3 "[32, 97, 98, 32, 99]" 3 0] by auto
qed

lemma str_at_not0: "str_at m p xs \<Longrightarrow> i < length xs \<Longrightarrow> xs ! i \<noteq> 0"
  by (simp add: str_at_nth)

lemma put_terminated:
  assumes "0 < d" "d + k < length m" "k \<le> length xs" "\<forall>i < length xs. xs ! i \<noteq> 0"
  shows "str_at ((put m d (take k xs))[d + k := 0]) d (take k xs)"
proof -
  let ?m = "(put m d (take k xs))[d + k := 0]"
  have l: "length (take k xs) = k" using assms(3) by simp
  have "load8 ?m (d + i) = Some (xs ! i)" if "i < k" for i
    using that assms l by (simp add: load8_def nth_put)
  moreover have "load8 ?m (d + k) = Some 0" using assms(1,2) l by (simp add: load8_def)
  ultimately show ?thesis using assms(3,4) l by (simp add: str_at_nth)
qed

lemma put_outside:
  assumes "d + k < length m" "k \<le> length xs" "i < d \<or> d + k < i"
  shows "(put m d (take k xs))[d + k := 0] ! i = m ! i"
proof (cases "i < length m")
  case True
  then show ?thesis using assms by (auto simp: nth_put)
next
  case False
  then have "\<not> i - d < k" "\<not> i < d" using assms(1) by linarith+
  then show ?thesis using assms False by (simp add: put_def nth_append)
qed



section \<open>Searching and comparing\<close>

lemma span_loop_at:
  assumes q: "str_at m q cs" and "str_at m (p + n) xs"
  shows "span_loop h m p q n = Some (n + length (takeWhile (\<lambda>x. (x \<in> set cs) \<noteq> h) xs))"
  using assms(2)
proof (induction xs arbitrary: n)
  case Nil
  then show ?case by (subst span_loop.simps) simp
next
  case (Cons x xs)
  from strchr_at [OF q, of x] obtain r where "strchr m q x = Some r" "r \<noteq> 0 \<longleftrightarrow> x \<in> set cs \<union> {0}" by blast
  with Cons show ?case by (subst span_loop.simps) auto
qed

lemma strcspn_strspn_at:
  assumes "str_at m q cs" "str_at m p xs"
  shows "strcspn m p q = Some (length (takeWhile (\<lambda>x. x \<notin> set cs) xs))"
    "strspn m p q = Some (length (takeWhile (\<lambda>x. x \<in> set cs) xs))"
  using span_loop_at [of m q cs p 0 xs] assms by (simp_all add: strcspn_def strspn_def)

lemma strpbrk_at:
  assumes q: "str_at m q cs" and "str_at m p xs"
  shows "strpbrk m p q = Some (if set xs \<inter> set cs = {} then 0 else p + length (takeWhile (\<lambda>x. x \<notin> set cs) xs))"
  using assms(2)
proof (induction xs arbitrary: p)
  case Nil
  then show ?case by (subst strpbrk.simps) simp
next
  case (Cons x xs)
  from strchr_at [OF q, of x] obtain r where "strchr m q x = Some r" "r \<noteq> 0 \<longleftrightarrow> x \<in> set cs \<union> {0}" by blast
  with Cons show ?case by (subst strpbrk.simps) auto
qed

lemma strcmp_at:
  assumes "str_at m a xs" "str_at m b ys"
  shows "strcmp m a b = Some (if xs = ys then 0 else if ord_class.lexordp xs ys then - 1 else 1)"
proof -
  have "\<lbrakk>str_at m p us; str_at m q vs\<rbrakk> \<Longrightarrow>
      strcmp_loop m p q = Some (if us = vs then 0 else if ord_class.lexordp us vs then - 1 else 1)" for p q us vs
  proof (induction us arbitrary: p q vs)
    case Nil
    then show ?case by (cases vs) (simp_all add: strcmp_loop.simps [of m p q] word_gt_0)
  next
    case C: (Cons u us)
    show ?case
    proof (cases vs)
      case Nil
      then show ?thesis using C.prems by (simp add: strcmp_loop.simps [of m p q] word_gt_0)
    next
      case (Cons v ws)
      have "strcmp_loop m p q = (if u = v then strcmp_loop m (p + 1) (q + 1) else Some (if u < v then - 1 else 1))"
        using C.prems \<open>vs = v # ws\<close> by (subst strcmp_loop.simps, cases u v rule: linorder_cases) simp_all
      moreover have "strcmp_loop m (p + 1) (q + 1) = Some (if us = ws then 0 else if ord_class.lexordp us ws then - 1 else 1)"
        by (rule C.IH) (use C.prems \<open>vs = v # ws\<close> in simp_all)
      ultimately show ?thesis using \<open>vs = v # ws\<close> by (cases "u = v"; cases "u < v") simp_all
    qed
  qed
  from this [OF assms] str_at_pos [OF assms(1)] str_at_pos [OF assms(2)] show ?thesis by (simp add: strcmp_def)
qed

lemma memcmp_at:
  assumes "0 < a" "0 < b" "a + n \<le> length m" "b + n \<le> length m"
  shows "\<exists>r. memcmp m a b n = Some r \<and> (r = 0 \<longleftrightarrow> take n (drop a m) = take n (drop b m))"
proof -
  have "\<lbrakk>0 < a; 0 < b; a + n \<le> length m; b + n \<le> length m\<rbrakk> \<Longrightarrow>
      \<exists>r. memcmp_loop m a b n = Some r \<and> (r = 0 \<longleftrightarrow> take n (drop a m) = take n (drop b m))"
  proof (induction n arbitrary: a b)
    case (Suc n)
    have "take (Suc n) (drop a m) = m ! a # take n (drop (Suc a) m)" "take (Suc n) (drop b m) = m ! b # take n (drop (Suc b) m)"
      using Suc.prems by (simp_all add: Cons_nth_drop_Suc [symmetric])
    then show ?case using Suc.IH [of "Suc a" "Suc b"] Suc.prems by auto
  qed simp
  then show ?thesis using assms by (simp add: memcmp_def)
qed

text \<open>\<open>strstr\<close> finds the first place at which the needle occurs.\<close>

lemma strstr_at:
  assumes h: "str_at m hp hs" and n: "str_at m np ns"
  shows "\<exists>r. strstr m hp np = Some r \<and>
    (if r = 0 then \<forall>i. take (length ns) (drop i hs) \<noteq> ns \<or> length hs < i + length ns
     else \<exists>i. r = hp + i \<and> i + length ns \<le> length hs \<and> take (length ns) (drop i hs) = ns \<and>
       (\<forall>j < i. take (length ns) (drop j hs) \<noteq> ns))"
proof -
  let ?k = "length ns" and ?occ = "\<lambda>i. take (length ns) (drop i hs) = ns"
  note bh = str_at_pos [OF h] and bn = str_at_pos [OF n]
  have cmp: "\<exists>r. memcmp m (hp + i) np ?k = Some r \<and> (r = 0 \<longleftrightarrow> ?occ i)" if "i + ?k \<le> length hs" for i
  proof -
    have "take ?k (drop (hp + i) m) = take ?k (drop i (take (length hs) (drop hp m)))"
      using that by (simp add: drop_take min_def add.commute)
    then have "take ?k (drop (hp + i) m) = take ?k (drop i hs)" using str_at_block [OF h] by simp
    moreover have "take ?k (drop np m) = ns" using str_at_block [OF n] .
    moreover have "\<exists>r. memcmp m (hp + i) np ?k = Some r \<and> (r = 0 \<longleftrightarrow> take ?k (drop (hp + i) m) = take ?k (drop np m))"
      by (rule memcmp_at) (use bh bn that in auto)
    ultimately show ?thesis by metis
  qed
  have loop: "\<exists>r. strstr_loop m hp np ?k (length hs - ?k) i = Some r \<and>
      (if r = 0 then \<forall>j \<ge> i. j \<le> length hs - ?k \<longrightarrow> \<not> ?occ j
       else \<exists>j \<ge> i. r = hp + j \<and> j \<le> length hs - ?k \<and> ?occ j \<and> (\<forall>l. i \<le> l \<and> l < j \<longrightarrow> \<not> ?occ l))"
    if "?k \<le> length hs" for i
  proof (induction "length hs - ?k + 1 - i" arbitrary: i rule: less_induct)
    case less
    show ?case
    proof (cases "i \<le> length hs - ?k")
      case True
      then have "i + ?k \<le> length hs" using that by linarith
      from cmp [OF this] obtain r where r: "memcmp m (hp + i) np ?k = Some r" "r = 0 \<longleftrightarrow> ?occ i" by blast
      show ?thesis
      proof (cases "r = 0")
        case True
        then show ?thesis using r \<open>i \<le> length hs - ?k\<close> bh by (subst strstr_loop.simps) auto
      next
        case False
        have "length hs - ?k + 1 - (i + 1) < length hs - ?k + 1 - i" using \<open>i \<le> length hs - ?k\<close> by linarith
        from less [OF this] obtain q where
          q: "strstr_loop m hp np ?k (length hs - ?k) (i + 1) = Some q"
            "if q = 0 then \<forall>j \<ge> i + 1. j \<le> length hs - ?k \<longrightarrow> \<not> ?occ j
             else \<exists>j \<ge> i + 1. q = hp + j \<and> j \<le> length hs - ?k \<and> ?occ j \<and> (\<forall>l. i + 1 \<le> l \<and> l < j \<longrightarrow> \<not> ?occ l)"
          by blast
        have "strstr_loop m hp np ?k (length hs - ?k) i = Some q"
          using q(1) r False \<open>i \<le> length hs - ?k\<close> by (subst strstr_loop.simps) simp
        moreover have "\<not> ?occ i" using r False by simp
        ultimately show ?thesis using q(2)
          by (cases "q = 0") (simp_all, metis Suc_leI le_neq_implies_less, metis Suc_leI le_neq_implies_less Suc_leD)
      qed
    qed (subst strstr_loop.simps, simp)
  qed
  show ?thesis
  proof (cases "?k \<le> length hs")
    case True
    from loop [OF True, of 0] obtain r where r: "strstr_loop m hp np ?k (length hs - ?k) 0 = Some r"
      "if r = 0 then \<forall>j. j \<le> length hs - ?k \<longrightarrow> \<not> ?occ j
       else \<exists>j. r = hp + j \<and> j \<le> length hs - ?k \<and> ?occ j \<and> (\<forall>l < j. \<not> ?occ l)" by (auto cong: if_cong)
    have le: "j \<le> length hs - ?k \<longleftrightarrow> j + ?k \<le> length hs" for j using True by linarith
    have "strstr m hp np = Some r" using r(1) True h n by (simp add: strstr_def)
    moreover have "if r = 0 then \<forall>i. \<not> ?occ i \<or> length hs < i + ?k
       else \<exists>i. r = hp + i \<and> i + ?k \<le> length hs \<and> ?occ i \<and> (\<forall>j < i. \<not> ?occ j)"
      using r(2) unfolding le by (cases "r = 0") (simp_all, metis not_le)
    ultimately show ?thesis by blast
  qed (use h n in \<open>simp add: strstr_def\<close>)
qed

text \<open>
  \<open>strnlen\<close> is right on a string, but it reads one byte more than it is told to: on a block
  of \<open>maxlen\<close> bytes without a null byte that ends the memory it faults.
\<close>

lemma strnlen_at:
  assumes "str_at m p xs"
  shows "strnlen m p k = Some (min k (length xs))"
proof -
  have "str_at m (p + n) ys \<Longrightarrow> n \<le> k \<Longrightarrow> strnlen_loop m p k n = Some (min k (n + length ys))" for n ys
  proof (induction ys arbitrary: n)
    case (Cons y ys)
    then show ?case by (subst strnlen_loop.simps) (auto simp: min_def)
  qed (subst strnlen_loop.simps, simp)
  from this [of 0 xs] assms show ?thesis by (simp add: strnlen_def)
qed

lemma strnlen_overreads:
  assumes "0 < p" "length m = p + k" "\<forall>i. p \<le> i \<and> i < p + k \<longrightarrow> m ! i \<noteq> 0"
  shows "strnlen m p k = None"
proof -
  have "n \<le> k \<Longrightarrow> strnlen_loop m p k n = None" for n
  proof (induction "k - n" arbitrary: n)
    case 0
    then show ?case using assms by (subst strnlen_loop.simps) (simp add: load8_def)
  next
    case (Suc d)
    then have "strnlen_loop m p k (n + 1) = None" by simp
    then show ?case using assms by (subst strnlen_loop.simps) (simp add: load8_def)
  qed
  then show ?thesis by (simp add: strnlen_def)
qed

end
