(* ===== verification/Stdlib.thy ===== *)
theory Stdlib
  imports CString "HOL-Library.Multiset"
begin

text \<open>
  \<open>lib/stdlib.c\<close>: conversion of numbers, heap sort and binary search.  An array of \<open>cnt\<close>
  elements of \<open>sz\<close> bytes is the list of its bytes; the comparison, which the caller passes,
  is a function of the bytes of two elements, with the auxiliary pointer a part of it.
\<close>

section \<open>Numbers\<close>

definition isdigit :: "u8 \<Rightarrow> bool" where
  "isdigit c \<longleftrightarrow> 48 \<le> c \<and> c \<le> 57"

definition isspace :: "u8 \<Rightarrow> bool" where
  "isspace c \<longleftrightarrow> c = 32 \<or> c = 12 \<or> c = 10 \<or> c = 13 \<or> c = 9 \<or> c = 11"

function space_loop :: "mem \<Rightarrow> nat \<Rightarrow> nat option" where
  "space_loop m s = do { c \<leftarrow> load8 m s; if isspace c then space_loop m (s + 1) else Some s }"
  by pat_completeness auto
termination
  by (relation "measure (\<lambda>(m, s). length m - s)") (auto dest: load8_less)

function digit_loop :: "mem \<Rightarrow> nat \<Rightarrow> int \<Rightarrow> int option" where
  "digit_loop m s value = do {
     c \<leftarrow> load8 m s;
     if isdigit c then digit_loop m (s + 1) (i32 (i32 (value * 10) - (uint c - 48))) else Some value }"
  by pat_completeness auto
termination
  by (relation "measure (\<lambda>(m, s, v). length m - s)") (auto dest: load8_less)

declare space_loop.simps [simp del] digit_loop.simps [simp del]

definition atoi :: "mem \<Rightarrow> nat \<Rightarrow> int option" where
  "atoi m s = do {
     ASSERT (s \<noteq> 0);
     s \<leftarrow> space_loop m s;
     c \<leftarrow> load8 m s;
     let (negative, s) = (if c = 43 then (False, s + 1) else if c = 45 then (True, s + 1) else (False, s));
     value \<leftarrow> digit_loop m s 0;
     Some (if \<not> negative then i32 (- value) else value) }"

section \<open>Arrays\<close>

type_synonym compare = "u8 list \<Rightarrow> u8 list \<Rightarrow> int"

text \<open>The element with the 1-based index \<open>i\<close>.\<close>

definition elem :: "nat \<Rightarrow> u8 list \<Rightarrow> nat \<Rightarrow> u8 list" where
  "elem sz array i = take sz (drop ((i - 1) * sz) array)"

definition do_swap :: "u8 list \<Rightarrow> nat \<Rightarrow> nat \<Rightarrow> nat \<Rightarrow> u8 list option" where
  "do_swap array a_idx b_idx sz =
     (let a = (a_idx - 1) * sz; b = (b_idx - 1) * sz in
      for_loop 0 sz (\<lambda>i array. do {
        t \<leftarrow> array_get array (a + i);
        u \<leftarrow> array_get array (b + i);
        array \<leftarrow> array_set array (a + i) u;
        array_set array (b + i) t }) array)"

definition do_compare :: "u8 list \<Rightarrow> nat \<Rightarrow> nat \<Rightarrow> nat \<Rightarrow> compare \<Rightarrow> int" where
  "do_compare array a_idx b_idx sz compare = compare (elem sz array a_idx) (elem sz array b_idx)"

text \<open>The loop of \<open>heapify\<close> goes down the heap, so at most \<open>cnt\<close> iterations are made.\<close>

definition heap_max :: "u8 list \<Rightarrow> nat \<Rightarrow> nat \<Rightarrow> nat \<Rightarrow> compare \<Rightarrow> nat" where
  "heap_max array i cnt sz compare =
     (let left = wrap32 (2 * i); right = wrap32 (2 * i + 1); max = i;
          max = (if left \<le> cnt \<and> do_compare array left max sz compare > 0 then left else max)
      in if right \<le> cnt \<and> do_compare array right max sz compare > 0 then right else max)"

partial_function (option) heapify :: "u8 list \<Rightarrow> nat \<Rightarrow> nat \<Rightarrow> nat \<Rightarrow> compare \<Rightarrow> u8 list option" where
  "heapify array i cnt sz compare =
     (let max = heap_max array i cnt sz compare in
      if max = i then Some array
      else do {
        array \<leftarrow> do_swap array i max sz;
        heapify array max cnt sz compare })"

fun build_loop :: "u8 list \<Rightarrow> nat \<Rightarrow> nat \<Rightarrow> nat \<Rightarrow> compare \<Rightarrow> u8 list option" where
  "build_loop array 0 cnt sz compare = Some array"
| "build_loop array (Suc i) cnt sz compare = do {
     array \<leftarrow> heapify array (Suc i) cnt sz compare;
     build_loop array i cnt sz compare }"

fun extract_loop :: "u8 list \<Rightarrow> nat \<Rightarrow> nat \<Rightarrow> compare \<Rightarrow> u8 list option" where
  "extract_loop array i sz compare =
     (if i > 1
      then do {
        array \<leftarrow> do_swap array 1 i sz;
        array \<leftarrow> heapify array 1 (i - 1) sz compare;
        extract_loop array (i - 1) sz compare }
      else Some array)"

definition sort_array :: "u8 list \<Rightarrow> nat \<Rightarrow> nat \<Rightarrow> compare \<Rightarrow> u8 list option" where
  "sort_array array cnt sz compare = do {
     ASSERT (sz > 0);
     array \<leftarrow> build_loop array (cnt div 2) cnt sz compare;
     extract_loop array cnt sz compare }"

text \<open>\<open>binary_search\<close>; the pointers are offsets into the array, \<open>Some None\<close> is the null pointer.\<close>

lemma half_range: "0 < n \<Longrightarrow> n div sz div 2 * sz < (n :: nat)"
proof -
  assume n: "0 < n"
  have "n div sz div 2 * sz * 2 \<le> n div sz * sz" by (simp add: algebra_simps)
  moreover have "n div sz * sz \<le> n" by simp
  ultimately show ?thesis using n by linarith
qed

function search_loop :: "u8 list \<Rightarrow> u8 list \<Rightarrow> nat \<Rightarrow> compare \<Rightarrow> nat \<Rightarrow> nat \<Rightarrow> nat option option" where
  "search_loop key array sz compare first lst =
     (if first < lst
      then do {
        ASSERT (sz \<noteq> 0);
        let range = (lst - first) div sz;
        let middle = first + (range div 2) * sz;
        let cmp = compare key (take sz (drop middle array));
        if cmp < 0 then search_loop key array sz compare first middle
        else if cmp > 0 then search_loop key array sz compare (middle + sz) lst
        else Some (Some middle) }
      else Some None)"
  by pat_completeness auto
termination
  by (relation "measure (\<lambda>(_, _, _, _, f, l). l - f)") (use half_range in \<open>auto simp: ASSERT_def split: if_splits\<close>)

declare search_loop.simps [simp del]

definition binary_search :: "u8 list \<Rightarrow> u8 list \<Rightarrow> nat \<Rightarrow> nat \<Rightarrow> compare \<Rightarrow> nat option option" where
  "binary_search key array cnt sz compare = search_loop key array sz compare 0 (sz * cnt)"

text \<open>
  \<open>qsort\<close> and \<open>bsearch\<close> pass the caller's comparison on through \<open>compare_thunk\<close>, with the
  comparison itself as the auxiliary data.
\<close>

definition compare_thunk :: "compare \<Rightarrow> compare" where
  "compare_thunk compare a b = compare a b"

definition qsort_array :: "u8 list \<Rightarrow> nat \<Rightarrow> nat \<Rightarrow> compare \<Rightarrow> u8 list option" where
  "qsort_array array cnt sz compare = sort_array array cnt sz (compare_thunk compare)"

definition bsearch :: "u8 list \<Rightarrow> u8 list \<Rightarrow> nat \<Rightarrow> nat \<Rightarrow> compare \<Rightarrow> nat option option" where
  "bsearch key array cnt sz compare = binary_search key array cnt sz (compare_thunk compare)"

section \<open>Swapping elements\<close>

definition xchg :: "nat \<Rightarrow> nat \<Rightarrow> nat \<Rightarrow> nat" where
  "xchg i j k = (if k = i then j else if k = j then i else k)"

lemma block_pos: "(k :: nat) < sz \<Longrightarrow> p = q * sz + k \<longleftrightarrow> p div sz = q \<and> p mod sz = k"
  by auto

lemma block_less:
  assumes "(q :: nat) < cnt" "k < sz"
  shows "q * sz + k < cnt * sz"
proof -
  have "q * sz + k < Suc q * sz" using assms(2) by simp
  also have "\<dots> \<le> cnt * sz" using assms(1) by (intro mult_le_mono1) simp
  finally show ?thesis .
qed

lemma elem_nth:
  assumes "length array = cnt * sz" "0 < k" "k \<le> cnt" "r < sz"
  shows "elem sz array k ! r = array ! ((k - 1) * sz + r)"
proof -
  have "(k - 1) * sz + r < cnt * sz" by (rule block_less) (use assms in auto)
  then show ?thesis using assms by (simp add: elem_def)
qed

lemma length_elem:
  assumes "length array = cnt * sz" "0 < k" "k \<le> cnt"
  shows "length (elem sz array k) = sz"
proof -
  have "(k - 1) * sz + sz \<le> cnt * sz" using assms(2,3) mult_le_mono1 [of k cnt sz] by (cases k) auto
  then show ?thesis using assms(1) by (simp add: elem_def)
qed

lemma do_swap_ok:
  assumes len: "length array = cnt * sz" and i: "0 < i" "i \<le> cnt" and j: "0 < j" "j \<le> cnt" and "i \<noteq> j"
  shows "\<exists>array'. do_swap array i j sz = Some array' \<and> length array' = length array \<and>
    (\<forall>k. 0 < k \<and> k \<le> cnt \<longrightarrow> elem sz array' k = elem sz array (xchg i j k))"
proof -
  define a b where "a = (i - 1) * sz" and "b = (j - 1) * sz"
  define pos where "pos n p = (if p mod sz < n then
      if p div sz = i - 1 then b + p mod sz else if p div sz = j - 1 then a + p mod sz else p else p)" for n p
  define I where "I n array' \<longleftrightarrow> length array' = length array \<and> (\<forall>p < length array. array' ! p = array ! pos n p)"
    for n and array' :: "u8 list"
  have "\<exists>array'. do_swap array i j sz = Some array' \<and> I sz array'"
    unfolding do_swap_def Let_def a_def [symmetric] b_def [symmetric]
  proof (rule for_loop_total)
    show "I 0 array" by (simp add: I_def pos_def)
    fix n array' assume n: "n < sz" and I: "I n array'"
    have ab: "a + n < length array" "b + n < length array"
      unfolding a_def b_def len using i j n by (auto intro!: block_less)
    have ap: "p = a + n \<longleftrightarrow> p div sz = i - 1 \<and> p mod sz = n" "p = b + n \<longleftrightarrow> p div sz = j - 1 \<and> p mod sz = n" for p
      unfolding a_def b_def using block_pos [OF n] by auto
    have ne: "i - 1 \<noteq> j - 1" using i j assms(6) by simp
    have v: "array' ! (a + n) = array ! (a + n)" "array' ! (b + n) = array ! (b + n)"
      using I ab ap [of "a + n"] ap [of "b + n"] by (simp_all add: I_def pos_def)
    have "I (Suc n) (array'[a + n := array ! (b + n), b + n := array ! (a + n)])"
      unfolding I_def
    proof (intro conjI allI impI)
      fix p assume p: "p < length array"
      have old: "array' ! p = array ! pos n p" "length array' = length array" using I p by (simp_all add: I_def)
      have abn: "a + n \<noteq> b + n" using ap(1) [of "a + n"] ap(2) [of "a + n"] ne by auto
      consider "p = a + n" | "p = b + n" | "p \<noteq> a + n" "p \<noteq> b + n" by blast
      then show "array'[a + n := array ! (b + n), b + n := array ! (a + n)] ! p = array ! pos (Suc n) p"
      proof cases
        case 1
        then have "pos (Suc n) p = b + n" using ap(1) [of p] by (simp add: pos_def)
        then show ?thesis using 1 abn ab old(2) by simp
      next
        case 2
        then have "pos (Suc n) p = a + n" using ap(2) [of p] ne by (simp add: pos_def)
        then show ?thesis using 2 ab old(2) by simp
      next
        case 3
        have "pos (Suc n) p = pos n p"
        proof (cases "p mod sz = n")
          case True
          then have "p div sz \<noteq> i - 1" "p div sz \<noteq> j - 1" using ap [of p] 3 by blast+
          then show ?thesis by (simp add: pos_def)
        qed (simp add: pos_def less_Suc_eq)
        then show ?thesis using 3 old by simp
      qed
    qed (use I in \<open>simp add: I_def\<close>)
    then show "\<exists>s'. (do { t \<leftarrow> array_get array' (a + n); u \<leftarrow> array_get array' (b + n);
        array \<leftarrow> array_set array' (a + n) u; array_set array (b + n) t }) = Some s' \<and> I (Suc n) s'"
      using I ab v by (simp add: I_def)
  qed simp
  then obtain array' where r: "do_swap array i j sz = Some array'" "I sz array'" by blast
  have "elem sz array' k = elem sz array (xchg i j k)" if k: "0 < k" "k \<le> cnt" for k
  proof (rule nth_equalityI)
    have k': "0 < xchg i j k" "xchg i j k \<le> cnt" using k i j by (auto simp: xchg_def)
    have len': "length array' = cnt * sz" using r(2) len by (simp add: I_def)
    show "length (elem sz array' k) = length (elem sz array (xchg i j k))"
      using length_elem [OF len' k] length_elem [OF len k'] by simp
    fix t assume "t < length (elem sz array' k)"
    then have t: "t < sz" using length_elem [OF len' k] by simp
    have "(k - 1) * sz + t < length array" unfolding len by (rule block_less) (use k t in auto)
    then have "elem sz array' k ! t = array ! pos sz ((k - 1) * sz + t)"
      using r(2) elem_nth [OF len' k t] by (simp add: I_def)
    also have "pos sz ((k - 1) * sz + t) = (xchg i j k - 1) * sz + t"
      using t k i j by (auto simp: pos_def a_def b_def xchg_def)
    also have "array ! \<dots> = elem sz array (xchg i j k) ! t" using elem_nth [OF len k' t] by simp
    finally show "elem sz array' k ! t = elem sz array (xchg i j k) ! t" .
  qed
  then show ?thesis using r by (auto simp: I_def)
qed

section \<open>Heaps\<close>

definition strcmp_type :: "('e \<Rightarrow> 'e \<Rightarrow> int) \<Rightarrow> bool" where
  "strcmp_type cmp \<longleftrightarrow> (\<forall>x y. 0 < cmp x y \<longleftrightarrow> cmp y x < 0) \<and>
     (\<forall>x y z. cmp x y \<le> 0 \<and> cmp y z \<le> 0 \<longrightarrow> cmp x z \<le> 0)"

lemma cmp_refl: "strcmp_type cmp \<Longrightarrow> cmp x x \<le> 0"
  by (metis strcmp_type_def linorder_not_less order_less_asym)

lemma cmp_trans: "\<lbrakk>strcmp_type cmp; cmp x y \<le> 0; cmp y z \<le> 0\<rbrakk> \<Longrightarrow> cmp x z \<le> 0"
  unfolding strcmp_type_def by blast

lemma cmp_flip: "\<lbrakk>strcmp_type cmp; \<not> cmp x y \<le> 0\<rbrakk> \<Longrightarrow> cmp y x \<le> 0"
  unfolding strcmp_type_def by (metis linorder_not_le order_less_imp_le)

abbreviation child :: "nat \<Rightarrow> nat \<Rightarrow> bool" where
  "child c k \<equiv> c = 2 * k \<or> c = 2 * k + 1"

definition heap_from :: "('e \<Rightarrow> 'e \<Rightarrow> int) \<Rightarrow> (nat \<Rightarrow> 'e) \<Rightarrow> nat \<Rightarrow> nat \<Rightarrow> bool" where
  "heap_from cmp f l cnt \<longleftrightarrow> (\<forall>k c. l \<le> k \<and> child c k \<and> c \<le> cnt \<longrightarrow> cmp (f c) (f k) \<le> 0)"

text \<open>A heap but for the element at \<open>i\<close>, which may be too small.\<close>

definition heap_but :: "('e \<Rightarrow> 'e \<Rightarrow> int) \<Rightarrow> (nat \<Rightarrow> 'e) \<Rightarrow> nat \<Rightarrow> nat \<Rightarrow> nat \<Rightarrow> bool" where
  "heap_but cmp f l cnt i \<longleftrightarrow> (\<forall>k c. l \<le> k \<and> k \<noteq> i \<and> child c k \<and> c \<le> cnt \<longrightarrow> cmp (f c) (f k) \<le> 0) \<and>
     (\<forall>c. child c i \<and> c \<le> cnt \<and> l \<le> i div 2 \<longrightarrow> cmp (f c) (f (i div 2)) \<le> 0)"

lemma sift_step:
  assumes cmp: "strcmp_type cmp" and h: "heap_but cmp f l cnt i" and l: "0 < l" "l \<le> i"
    and m: "child m i" "m \<le> cnt" "cmp (f i) (f m) \<le> 0" "\<And>c. \<lbrakk>child c i; c \<le> cnt\<rbrakk> \<Longrightarrow> cmp (f c) (f m) \<le> 0"
    and g: "\<And>k. \<lbrakk>0 < k; k \<le> cnt\<rbrakk> \<Longrightarrow> g k = f (xchg i m k)"
  shows "heap_but cmp g l cnt m"
  unfolding heap_but_def
proof (intro conjI allI impI)
  have im: "i < m" "m div 2 = i" "0 < i" using m(1) l by auto
  have gi: "g i = f m" "g m = f i" "\<And>k. \<lbrakk>0 < k; k \<le> cnt; k \<noteq> i; k \<noteq> m\<rbrakk> \<Longrightarrow> g k = f k"
    using g m(2) im by (auto simp: xchg_def)
  fix k c
  assume a: "l \<le> k \<and> k \<noteq> m \<and> child c k \<and> c \<le> cnt"
  then have kc: "0 < k" "k < c" "c div 2 = k" using l by auto
  consider "k = i" "c = m" | "k = i" "c \<noteq> m" | "k \<noteq> i" "c = i" | "k \<noteq> i" "c \<noteq> i" "c \<noteq> m"
    using kc(3) im(2) by blast
  then show "cmp (g c) (g k) \<le> 0"
  proof cases
    case 1
    then show ?thesis using gi m(3) by simp
  next
    case 2
    then show ?thesis using gi(1) gi(3) [of c] m(4) [of c] a kc by auto
  next
    case 3
    then have "g k = f k" using gi(3) [of k] a kc im by auto
    moreover have "cmp (f m) (f k) \<le> 0" using h m(1,2) a 3 kc unfolding heap_but_def by auto
    ultimately show ?thesis using gi(1) 3 by simp
  next
    case 4
    then have "g k = f k" "g c = f c" using gi(3) [of k] gi(3) [of c] a kc by auto
    moreover have "cmp (f c) (f k) \<le> 0" using h a 4 unfolding heap_but_def by blast
    ultimately show ?thesis by simp
  qed
next
  have im: "i < m" "m div 2 = i" "0 < i" using m(1) l by auto
  fix c assume a: "child c m \<and> c \<le> cnt \<and> l \<le> m div 2"
  then have "m < c" using im by auto
  then have "g c = f c" "g (m div 2) = f m" using g [of c] g [of i] a im m(2) by (auto simp: xchg_def)
  moreover have "cmp (f c) (f m) \<le> 0" using h a l im unfolding heap_but_def by auto
  ultimately show "cmp (g c) (g (m div 2)) \<le> 0" by simp
qed

lemma heap_root:
  assumes "strcmp_type cmp" "heap_from cmp f 1 cnt" "0 < k" "k \<le> cnt"
  shows "cmp (f k) (f 1) \<le> 0"
  using assms(3,4)
proof (induction k rule: less_induct)
  case (less k)
  show ?case
  proof (cases "k = 1")
    case True
    then show ?thesis using cmp_refl [OF assms(1)] by simp
  next
    case False
    then have "cmp (f (k div 2)) (f 1) \<le> 0" "child k (k div 2)" "1 \<le> k div 2" using less by auto
    moreover have "cmp (f k) (f (k div 2)) \<le> 0" using assms(2) less.prems calculation unfolding heap_from_def by blast
    ultimately show ?thesis using cmp_trans [OF assms(1)] by blast
  qed
qed

section \<open>Heap sort\<close>

text \<open>The array \<open>b\<close> is the array \<open>a\<close> with its first \<open>n\<close> elements rearranged.\<close>

definition rearranged :: "nat \<Rightarrow> nat \<Rightarrow> nat \<Rightarrow> u8 list \<Rightarrow> u8 list \<Rightarrow> bool" where
  "rearranged sz cnt n a b \<longleftrightarrow> length b = length a \<and> (\<forall>k. n < k \<and> k \<le> cnt \<longrightarrow> elem sz b k = elem sz a k) \<and>
     image_mset (elem sz b) (mset_set {1..n}) = image_mset (elem sz a) (mset_set {1..n})"

lemma rearranged_refl [simp]: "rearranged sz cnt n a a"
  by (simp add: rearranged_def)

lemma rearranged_trans: "\<lbrakk>rearranged sz cnt n a b; rearranged sz cnt n b c\<rbrakk> \<Longrightarrow> rearranged sz cnt n a c"
  by (simp add: rearranged_def)

lemma rearranged_set:
  assumes "rearranged sz cnt n a b"
  shows "elem sz b ` {1..n} = elem sz a ` {1..n}"
proof -
  have "set_mset (image_mset (elem sz b) (mset_set {1..n})) = set_mset (image_mset (elem sz a) (mset_set {1..n}))"
    using assms by (simp add: rearranged_def)
  then show ?thesis by simp
qed

lemma rearranged_more:
  assumes "rearranged sz cnt n a b" "n \<le> n'" "n' \<le> cnt"
  shows "rearranged sz cnt n' a b"
proof -
  have "{1..n'} = {1..n} \<union> {Suc n..n'}" using assms(2) by auto
  then have "mset_set {1..n'} = mset_set {1..n} + mset_set {Suc n..n'}" by (simp add: mset_set_Union)
  moreover have "image_mset (elem sz b) (mset_set {Suc n..n'}) = image_mset (elem sz a) (mset_set {Suc n..n'})"
    using assms by (intro image_mset_cong) (auto simp: rearranged_def)
  ultimately show ?thesis using assms by (simp add: rearranged_def)
qed

lemma rearranged_swap:
  assumes "length b = length a" "0 < i" "i \<le> n" "0 < j" "j \<le> n" "n \<le> cnt"
    "\<forall>k. 0 < k \<and> k \<le> cnt \<longrightarrow> elem sz b k = elem sz a (xchg i j k)"
  shows "rearranged sz cnt n a b"
proof -
  have inj: "inj_on (xchg i j) {1..n}" by (auto simp: inj_on_def xchg_def split: if_splits)
  have "xchg i j ` {1..n} \<subseteq> {1..n}" using assms(2-5) by (auto simp: xchg_def)
  then have im: "xchg i j ` {1..n} = {1..n}" using inj by (simp add: endo_inj_surj)
  have "image_mset (elem sz b) (mset_set {1..n}) = image_mset (elem sz a \<circ> xchg i j) (mset_set {1..n})"
    using assms(6,7) by (intro image_mset_cong) auto
  also have "\<dots> = image_mset (elem sz a) (mset_set (xchg i j ` {1..n}))"
    unfolding image_mset_mset_set [OF inj, symmetric] by (simp only: multiset.map_comp)
  finally have "image_mset (elem sz b) (mset_set {1..n}) = image_mset (elem sz a) (mset_set {1..n})" unfolding im .
  then show ?thesis using assms by (auto simp: rearranged_def xchg_def)
qed


lemma heap_max_ok:
  assumes cmp: "strcmp_type cmp" and i: "0 < i" "i \<le> cnt" "cnt < 2 ^ 31" and m_eq: "m = heap_max a i cnt sz cmp"
  shows "m = i \<or> child m i" "m \<le> cnt" "cmp (elem sz a i) (elem sz a m) \<le> 0"
    "\<lbrakk>child c i; c \<le> cnt\<rbrakk> \<Longrightarrow> cmp (elem sz a c) (elem sz a m) \<le> 0"
proof -
  let ?f = "elem sz a"
  define x where "x = (if 2 * i \<le> cnt \<and> cmp (?f (2 * i)) (?f i) > 0 then 2 * i else i)"
  have m: "m = (if 2 * i + 1 \<le> cnt \<and> cmp (?f (2 * i + 1)) (?f x) > 0 then 2 * i + 1 else x)"
    using i by (simp add: m_eq heap_max_def do_compare_def x_def Let_def)
  have x: "cmp (?f i) (?f x) \<le> 0" "2 * i \<le> cnt \<Longrightarrow> cmp (?f (2 * i)) (?f x) \<le> 0"
    using cmp_refl [OF cmp] cmp_flip [OF cmp] by (auto simp: x_def)
  have xm: "cmp (?f x) (?f m) \<le> 0" "2 * i + 1 \<le> cnt \<Longrightarrow> cmp (?f (2 * i + 1)) (?f m) \<le> 0"
    using cmp_refl [OF cmp] cmp_flip [OF cmp] by (auto simp: m)
  show "m = i \<or> child m i" "m \<le> cnt" using i by (auto simp: m x_def)
  show "cmp (?f i) (?f m) \<le> 0" using x(1) xm(1) cmp_trans [OF cmp] by blast
  show "cmp (?f c) (?f m) \<le> 0" if "child c i" "c \<le> cnt"
    using that x(2) xm cmp_trans [OF cmp] by blast
qed

lemma heapify_ok:
  assumes cmp: "strcmp_type cmp" and N: "cnt \<le> N" "N < 2 ^ 31"
  shows "\<lbrakk>length a = N * sz; 0 < l; l \<le> i; i \<le> cnt; heap_but cmp (elem sz a) l cnt i\<rbrakk> \<Longrightarrow>
    \<exists>b. heapify a i cnt sz cmp = Some b \<and> rearranged sz N cnt a b \<and> heap_from cmp (elem sz b) l cnt"
proof (induction "cnt - i" arbitrary: a i rule: less_induct)
  case less
  define m where "m = heap_max a i cnt sz cmp"
  have i: "0 < i" "cnt < 2 ^ 31" using less.prems N by auto
  note M = heap_max_ok [OF cmp i(1) less.prems(4) i(2) m_def]
  show ?case
  proof (cases "m = i")
    case True
    then have "heapify a i cnt sz cmp = Some a" by (subst heapify.simps) (simp add: Let_def flip: m_def)
    moreover have "heap_from cmp (elem sz a) l cnt"
      using less.prems(5) M(4) True unfolding heap_from_def heap_but_def by blast
    ultimately show ?thesis by simp
  next
    case False
    then have m: "child m i" "i < m" using M(1) i by auto
    obtain b where b: "do_swap a i m sz = Some b" "length b = length a"
        "\<forall>k. 0 < k \<and> k \<le> N \<longrightarrow> elem sz b k = elem sz a (xchg i m k)"
      using do_swap_ok [OF less.prems(1), of i m] i(1) less.prems(4) m(2) M(2) N(1) by auto
    have "heap_but cmp (elem sz b) l cnt m"
      by (rule sift_step [OF cmp less.prems(5,2,3) m(1) M(2,3)]) (use M(4) b(3) N(1) in auto)
    moreover have "cnt - m < cnt - i" using m(2) M(2) by linarith
    ultimately obtain c where c: "heapify b m cnt sz cmp = Some c" "rearranged sz N cnt b c" "heap_from cmp (elem sz c) l cnt"
      using less.hyps [of m b] less.prems(1-3) m(2) M(2) b(2) by auto
    have "rearranged sz N cnt a b"
      using rearranged_swap [OF b(2) _ _ _ _ N(1) b(3)] i(1) less.prems(4) m(2) M(2) by simp
    then have "rearranged sz N cnt a c" using c(2) rearranged_trans by blast
    moreover have "heapify a i cnt sz cmp = Some c"
      using b(1) c(1) False by (subst heapify.simps) (simp add: Let_def flip: m_def)
    ultimately show ?thesis using c(3) by blast
  qed
qed

lemma build_loop_ok:
  assumes cmp: "strcmp_type cmp" and N: "N < 2 ^ 31"
  shows "\<lbrakk>length a = N * sz; i \<le> N; heap_from cmp (elem sz a) (Suc i) N\<rbrakk> \<Longrightarrow>
    \<exists>b. build_loop a i N sz cmp = Some b \<and> rearranged sz N N a b \<and> heap_from cmp (elem sz b) 1 N"
proof (induction i arbitrary: a)
  case 0
  then show ?case by simp
next
  case (Suc i)
  have "heap_but cmp (elem sz a) (Suc i) N (Suc i)"
    using Suc.prems(3) unfolding heap_but_def heap_from_def by (auto simp: Suc_le_eq le_neq_implies_less)
  then obtain b where b: "heapify a (Suc i) N sz cmp = Some b" "rearranged sz N N a b" "heap_from cmp (elem sz b) (Suc i) N"
    using heapify_ok [OF cmp order_refl N Suc.prems(1), of "Suc i" "Suc i"] Suc.prems(2) by auto
  have "length b = N * sz" "i \<le> N" using b(2) Suc.prems(1,2) by (simp_all add: rearranged_def)
  from Suc.IH [OF this b(3)] obtain c where
    "build_loop b i N sz cmp = Some c" "rearranged sz N N b c" "heap_from cmp (elem sz c) 1 N" by blast
  moreover from this b(2) have "rearranged sz N N a c" using rearranged_trans by blast
  ultimately show ?case using b(1) by simp
qed

text \<open>The elements behind the first \<open>i\<close> are in order and not smaller than those.\<close>

definition sorted_from :: "compare \<Rightarrow> (nat \<Rightarrow> u8 list) \<Rightarrow> nat \<Rightarrow> nat \<Rightarrow> bool" where
  "sorted_from cmp f i N \<longleftrightarrow> (\<forall>j k. 0 < j \<and> j \<le> k \<and> i < k \<and> k \<le> N \<longrightarrow> cmp (f j) (f k) \<le> 0)"

lemma extract_loop_ok:
  assumes cmp: "strcmp_type cmp" and N: "N < 2 ^ 31"
  shows "\<lbrakk>length a = N * sz; i \<le> N; heap_from cmp (elem sz a) 1 i; sorted_from cmp (elem sz a) i N\<rbrakk> \<Longrightarrow>
    \<exists>b. extract_loop a i sz cmp = Some b \<and> rearranged sz N N a b \<and> sorted_from cmp (elem sz b) 0 N"
proof (induction i arbitrary: a rule: less_induct)
  case (less i)
  show ?case
  proof (cases "1 < i")
    case False
    then have "cmp (elem sz a j) (elem sz a k) \<le> 0" if "0 < j" "j \<le> k" "0 < k" "k \<le> N" for j k
    proof (cases "i < k")
      case True
      then show ?thesis using less.prems(4) that unfolding sorted_from_def by blast
    next
      case f: False
      then have "j = k" using False that by linarith
      then show ?thesis using cmp_refl [OF cmp] by simp
    qed
    then show ?thesis using False by (simp add: sorted_from_def)
  next
    case True
    obtain b where b: "do_swap a 1 i sz = Some b" "length b = length a"
        "\<forall>k. 0 < k \<and> k \<le> N \<longrightarrow> elem sz b k = elem sz a (xchg 1 i k)"
      using do_swap_ok [OF less.prems(1), of 1 i] True less.prems(2) by auto
    have ab: "rearranged sz N i a b" using rearranged_swap [OF b(2) _ _ _ _ less.prems(2) b(3)] True by simp
    have root: "cmp (elem sz a k) (elem sz a 1) \<le> 0" if "0 < k" "k \<le> i" for k
      using heap_root [OF cmp less.prems(3)] that by simp
    have "heap_but cmp (elem sz b) 1 (i - 1) 1"
      unfolding heap_but_def
    proof (intro conjI allI impI)
      fix k c assume "1 \<le> k \<and> k \<noteq> 1 \<and> child c k \<and> c \<le> i - 1"
      moreover from this have "elem sz b c = elem sz a c" "elem sz b k = elem sz a k"
        using b(3) less.prems(2) by (auto simp: xchg_def)
      ultimately show "cmp (elem sz b c) (elem sz b k) \<le> 0" using less.prems(3) unfolding heap_from_def by auto
    qed auto
    moreover have "i - 1 \<le> N" "1 \<le> i - 1" "length b = N * sz" using True less.prems(1,2) b(2) by linarith+
    ultimately obtain c where c: "heapify b 1 (i - 1) sz cmp = Some c" "rearranged sz N (i - 1) b c" "heap_from cmp (elem sz c) 1 (i - 1)"
      using heapify_ok [OF cmp _ N, of "i - 1" b sz 1 1] zero_less_one by blast
    have ac: "rearranged sz N i a c"
      using rearranged_trans [OF ab] rearranged_more [OF c(2), of i] less.prems(2) by simp
    have "sorted_from cmp (elem sz c) (i - 1) N"
      unfolding sorted_from_def
    proof (intro allI impI)
      fix j k assume jk: "0 < j \<and> j \<le> k \<and> i - 1 < k \<and> k \<le> N"
      have low: "\<exists>j'. 0 < j' \<and> j' \<le> i \<and> elem sz c j = elem sz a j'" if "j \<le> i"
      proof -
        have "elem sz c j \<in> elem sz a ` {1..i}" using rearranged_set [OF ac] that jk by auto
        then show ?thesis unfolding image_iff by (metis atLeastAtMost_iff less_le_trans zero_less_one)
      qed
      have same: "elem sz c q = elem sz a q" if "i < q" "q \<le> N" for q using ac that by (simp add: rearranged_def)
      show "cmp (elem sz c j) (elem sz c k) \<le> 0"
      proof (cases "k = i")
        case True
        have "elem sz c i = elem sz b i" using c(2) \<open>1 < i\<close> less.prems(2) by (simp add: rearranged_def)
        also have "\<dots> = elem sz a 1" using b(3) \<open>1 < i\<close> less.prems(2) by (simp add: xchg_def)
        finally show ?thesis using low root jk True by auto
      next
        case False
        then have k: "i < k" "elem sz c k = elem sz a k" using same jk by auto
        show ?thesis
        proof (cases "j \<le> i")
          case True
          with low obtain j' where "0 < j'" "j' \<le> i" "elem sz c j = elem sz a j'" by blast
          then show ?thesis using k jk less.prems(4) unfolding sorted_from_def by auto
        next
          case False
          then show ?thesis using k jk less.prems(4) same [of j] unfolding sorted_from_def by auto
        qed
      qed
    qed
    moreover have "length c = N * sz" "i - 1 < i" "i - 1 \<le> N" using ac True less.prems(1,2) by (auto simp: rearranged_def)
    ultimately obtain d where d: "extract_loop c (i - 1) sz cmp = Some d" "rearranged sz N N c d" "sorted_from cmp (elem sz d) 0 N"
      using less.IH [of "i - 1" c] c(3) by blast
    have "extract_loop a i sz cmp = Some d"
      using b(1) c(1) d(1) True by (subst extract_loop.simps) (simp del: extract_loop.simps One_nat_def)
    moreover have "rearranged sz N N a c" using rearranged_more [OF ac less.prems(2)] by simp
    ultimately show ?thesis using d(2,3) rearranged_trans by blast
  qed
qed


text \<open>
  C10: \<open>sort\<close> sorts.  For every comparison of the kind \<open>strcmp\<close> makes, and elements of any size,
  it ends and leaves the array with the same elements, in order.
\<close>

theorem sort_array_sorts:
  assumes "strcmp_type compare" "0 < sz" "length array = cnt * sz" "cnt < 2 ^ 31"
  shows "\<exists>array'. sort_array array cnt sz compare = Some array' \<and> length array' = length array \<and>
    image_mset (elem sz array') (mset_set {1..cnt}) = image_mset (elem sz array) (mset_set {1..cnt}) \<and>
    (\<forall>j k. 0 < j \<and> j \<le> k \<and> k \<le> cnt \<longrightarrow> compare (elem sz array' j) (elem sz array' k) \<le> 0)"
proof -
  have "heap_from compare (elem sz array) (Suc (cnt div 2)) cnt" unfolding heap_from_def by auto
  then obtain b where b: "build_loop array (cnt div 2) cnt sz compare = Some b" "rearranged sz cnt cnt array b"
      "heap_from compare (elem sz b) 1 cnt"
    using build_loop_ok [OF assms(1,4,3), of "cnt div 2"] by auto
  have "length b = cnt * sz" using b(2) assms(3) by (simp add: rearranged_def)
  then obtain c where c: "extract_loop b cnt sz compare = Some c" "rearranged sz cnt cnt b c" "sorted_from compare (elem sz c) 0 cnt"
    using extract_loop_ok [OF assms(1,4), of b sz cnt] b(3) by (auto simp: sorted_from_def)
  have "sort_array array cnt sz compare = Some c" using b(1) c(1) assms(2) by (simp add: sort_array_def)
  moreover have "rearranged sz cnt cnt array c" using b(2) c(2) rearranged_trans by blast
  ultimately show ?thesis using c(3) by (auto simp: rearranged_def sorted_from_def)
qed

definition byte_compare :: compare where
  "byte_compare x y = int (unat (hd x)) - int (unat (hd y))"

theorem sort_array_sorts_witness:
  "\<exists>array'. sort_array [3, 9, 1, 7, 2, 8] 3 2 byte_compare = Some array' \<and>
     byte_compare (elem 2 array' 1) (elem 2 array' 2) \<le> 0 \<and> byte_compare (elem 2 array' 2) (elem 2 array' 3) \<le> 0"
proof -
  have "strcmp_type byte_compare" by (auto simp: strcmp_type_def byte_compare_def)
  then show ?thesis using sort_array_sorts [of byte_compare 2 "[3, 9, 1, 7, 2, 8]" 3] by fastforce
qed


section \<open>Binary search\<close>

lemma search_loop_ok:
  assumes cmp: "strcmp_type compare" and sz: "0 < sz"
    and sorted: "\<forall>j k. 0 < j \<and> j \<le> k \<and> k \<le> cnt \<longrightarrow> compare (elem sz array j) (elem sz array k) \<le> 0"
  shows "y \<le> cnt \<Longrightarrow> \<exists>r. search_loop key array sz compare (x * sz) (y * sz) = Some r \<and>
    (case r of None \<Rightarrow> \<forall>k. x < k \<and> k \<le> y \<longrightarrow> compare key (elem sz array k) \<noteq> 0
     | Some off \<Rightarrow> \<exists>k. x < k \<and> k \<le> y \<and> off = (k - 1) * sz \<and> compare key (elem sz array k) = 0)"
proof (induction "y - x" arbitrary: x y rule: less_induct)
  case less
  have gt: "compare key (elem sz array k) \<noteq> 0" if "compare key (elem sz array j) > 0" "0 < k" "k \<le> j" "j \<le> cnt" for j k
  proof
    assume "compare key (elem sz array k) = 0"
    then have "compare key (elem sz array j) \<le> 0"
      using cmp_trans [OF cmp, of key "elem sz array k" "elem sz array j"] sorted that by simp
    then show False using that(1) by simp
  qed
  have lt: "compare key (elem sz array k) \<noteq> 0" if "compare key (elem sz array j) < 0" "0 < j" "j \<le> k" "k \<le> cnt" for j k
  proof
    assume z: "compare key (elem sz array k) = 0"
    have "compare (elem sz array k) key \<le> 0" using cmp z unfolding strcmp_type_def by (metis order_less_irrefl linorder_not_le)
    moreover have "compare (elem sz array j) (elem sz array k) \<le> 0" using sorted that by blast
    ultimately have "compare (elem sz array j) key \<le> 0" using cmp_trans [OF cmp] by blast
    then show False using cmp that(1) unfolding strcmp_type_def by (metis linorder_not_le)
  qed
  show ?case
  proof (cases "x < y")
    case False
    then have "\<not> x * sz < y * sz" using sz by simp
    then show ?thesis using False by (subst search_loop.simps) simp
  next
    case True
    define q where "q = x + (y - x) div 2"
    have q: "x \<le> q" "q < y" using True by (auto simp: q_def)
    have range: "x * sz + ((y * sz - x * sz) div sz) div 2 * sz = q * sz" "x * sz < y * sz"
      using sz True by (simp_all add: q_def add_mult_distrib flip: diff_mult_distrib)
    have mid: "take sz (drop (q * sz) array) = elem sz array (q + 1)" by (simp add: elem_def)
    have eq: "search_loop key array sz compare (x * sz) (y * sz) =
        (if compare key (elem sz array (q + 1)) < 0 then search_loop key array sz compare (x * sz) (q * sz)
         else if compare key (elem sz array (q + 1)) > 0 then search_loop key array sz compare ((q + 1) * sz) (y * sz)
         else Some (Some (q * sz)))"
      using range sz by (subst search_loop.simps) (simp add: mid Let_def add.commute)
    consider (L) "compare key (elem sz array (q + 1)) < 0" | (G) "compare key (elem sz array (q + 1)) > 0"
      | (E) "compare key (elem sz array (q + 1)) = 0" by linarith
    then show ?thesis
    proof cases
      case L
      then have no: "compare key (elem sz array k) \<noteq> 0" if "q < k" "k \<le> y" for k using lt [of "q + 1" k] that less.prems by auto
      obtain r where r: "search_loop key array sz compare (x * sz) (q * sz) = Some r"
          "case r of None \<Rightarrow> \<forall>k. x < k \<and> k \<le> q \<longrightarrow> compare key (elem sz array k) \<noteq> 0
           | Some off \<Rightarrow> \<exists>k. x < k \<and> k \<le> q \<and> off = (k - 1) * sz \<and> compare key (elem sz array k) = 0"
        using less.hyps [of q x] q less.prems by (auto simp: diff_less_mono)
      have "case r of None \<Rightarrow> \<forall>k. x < k \<and> k \<le> y \<longrightarrow> compare key (elem sz array k) \<noteq> 0
           | Some off \<Rightarrow> \<exists>k. x < k \<and> k \<le> y \<and> off = (k - 1) * sz \<and> compare key (elem sz array k) = 0"
      proof (cases r)
        case None
        have "compare key (elem sz array k) \<noteq> 0" if "x < k" "k \<le> y" for k
          using r(2) None no [of k] that by (cases "k \<le> q") auto
        then show ?thesis using None by simp
      next
        case (Some off)
        with r(2) q(2) show ?thesis by (auto intro: less_imp_le order_trans)
      qed
      then show ?thesis unfolding eq using L r(1) by simp
    next
      case G
      then have no: "compare key (elem sz array k) \<noteq> 0" if "x < k" "k \<le> q + 1" for k using gt [of "q + 1" k] that less.prems q by auto
      have "y - (q + 1) < y - x" using q by linarith
      then obtain r where r: "search_loop key array sz compare ((q + 1) * sz) (y * sz) = Some r"
          "case r of None \<Rightarrow> \<forall>k. q + 1 < k \<and> k \<le> y \<longrightarrow> compare key (elem sz array k) \<noteq> 0
           | Some off \<Rightarrow> \<exists>k. q + 1 < k \<and> k \<le> y \<and> off = (k - 1) * sz \<and> compare key (elem sz array k) = 0"
        using less.hyps [of y "q + 1"] less.prems by blast
      have "case r of None \<Rightarrow> \<forall>k. x < k \<and> k \<le> y \<longrightarrow> compare key (elem sz array k) \<noteq> 0
           | Some off \<Rightarrow> \<exists>k. x < k \<and> k \<le> y \<and> off = (k - 1) * sz \<and> compare key (elem sz array k) = 0"
      proof (cases r)
        case None
        have "compare key (elem sz array k) \<noteq> 0" if "x < k" "k \<le> y" for k
          using r(2) None no [of k] that by (cases "k \<le> q + 1") auto
        then show ?thesis using None by simp
      next
        case (Some off)
        with r(2) obtain k where "q + 1 < k" "k \<le> y" "off = (k - 1) * sz" "compare key (elem sz array k) = 0" by auto
        moreover have "x < k" using \<open>q + 1 < k\<close> q(1) by linarith
        ultimately show ?thesis using Some by auto
      qed
      then show ?thesis unfolding eq using G r(1) by simp
    next
      case E
      then show ?thesis unfolding eq using q by (auto intro!: exI [of _ "q + 1"])
    qed
  qed
qed

lemma binary_search_finds:
  assumes "strcmp_type compare" "0 < sz"
    "\<forall>j k. 0 < j \<and> j \<le> k \<and> k \<le> cnt \<longrightarrow> compare (elem sz array j) (elem sz array k) \<le> 0"
  shows "\<exists>r. binary_search key array cnt sz compare = Some r \<and>
    (case r of None \<Rightarrow> \<forall>k. 0 < k \<and> k \<le> cnt \<longrightarrow> compare key (elem sz array k) \<noteq> 0
     | Some off \<Rightarrow> \<exists>k. 0 < k \<and> k \<le> cnt \<and> off = (k - 1) * sz \<and> compare key (elem sz array k) = 0)"
  using search_loop_ok [OF assms, of cnt key 0] by (simp add: binary_search_def mult.commute)

section \<open>Reading numbers\<close>

fun digits_value :: "u8 list \<Rightarrow> int \<Rightarrow> int" where
  "digits_value [] v = v"
| "digits_value (d # ds) v = digits_value ds (10 * v + (uint d - 48))"

lemma digits_value_mono: "\<lbrakk>\<forall>d \<in> set ds. isdigit d; 0 \<le> v\<rbrakk> \<Longrightarrow> v \<le> digits_value ds v"
proof (induction ds arbitrary: v)
  case (Cons d ds)
  have "48 \<le> uint d" using Cons.prems(1) by (simp add: isdigit_def word_le_def)
  then have "10 * v + (uint d - 48) \<le> digits_value ds (10 * v + (uint d - 48))" using Cons by simp
  then show ?case using Cons.prems(2) \<open>48 \<le> uint d\<close> by simp
qed simp

text \<open>The number is built up below zero, where the smallest integer has its place.\<close>

lemma digit_loop_ok:
  assumes "\<forall>d \<in> set ds. isdigit d" "0 \<le> v" "digits_value ds v \<le> 2 ^ 31" "load8 m (p + length ds) = Some c" "\<not> isdigit c"
    "\<forall>i < length ds. load8 m (p + i) = Some (ds ! i)"
  shows "digit_loop m p (- v) = Some (- digits_value ds v)"
  using assms
proof (induction ds arbitrary: v p)
  case Nil
  then show ?case by (subst digit_loop.simps) simp
next
  case (Cons d ds)
  have d: "load8 m p = Some d" "isdigit d" "48 \<le> uint d" "uint d \<le> 57"
    using Cons.prems(1,6) by (auto simp: isdigit_def word_le_def)
  let ?v = "10 * v + (uint d - 48)"
  have le: "?v \<le> 2 ^ 31" using digits_value_mono [of ds ?v] Cons.prems d by simp
  have i: "i32 (i32 (- v * 10) - (uint d - 48)) = - ?v" using le d Cons.prems(2) by simp
  have "digit_loop m (p + 1) (- ?v) = Some (- digits_value ds ?v)"
    by (rule Cons.IH) (use Cons.prems d in auto)
  then show ?case using d i by (subst digit_loop.simps) (simp del: minus_add_distrib)
qed

lemma atoi_digits:
  assumes "str_at m p ds" "ds \<noteq> []" "\<forall>d \<in> set ds. isdigit d" "digits_value ds 0 < 2 ^ 31"
  shows "atoi m p = Some (digits_value ds 0)"
proof -
  obtain d es where d: "ds = d # es" using assms(2) by (cases ds) auto
  have "isdigit d" using assms(3) d by simp
  then have nd: "\<not> isspace d" "d \<noteq> 43" "d \<noteq> 45" by (auto simp: isspace_def isdigit_def)
  have l: "load8 m p = Some d" using assms(1) d by simp
  have "space_loop m p = Some p" using l nd by (subst space_loop.simps) simp
  moreover have "digit_loop m p 0 = Some (- digits_value ds 0)"
    using digit_loop_ok [of ds 0 m p 0] assms by (simp add: str_at_nth isdigit_def)
  moreover have "0 \<le> digits_value ds 0" using digits_value_mono [OF assms(3), of 0] by simp
  ultimately show ?thesis using l nd assms(4) str_at_pos [OF assms(1)] by (simp add: atoi_def)
qed

end
