(* ===== verification/Hash.thy ===== *)
theory Hash
  imports Bytes
begin

text \<open>
  \<open>lib/kernel/hash.c\<close>: hash tables with chaining.  The elements are pointers of a type \<open>'e\<close>;
  the hash function and the order, which the user of a table passes to \<open>hash_init\<close>, are
  members of the table, with the auxiliary pointer a part of them.  A bucket is the list of
  its elements.  Where the code asks for memory, the argument \<open>mem\<close> says whether it is given.
\<close>

section \<open>Hash functions\<close>

definition FNV_32_PRIME :: u32 where "FNV_32_PRIME = 16777619"
definition FNV_32_BASIS :: u32 where "FNV_32_BASIS = 2166136261"

fun fnv_loop :: "u32 \<Rightarrow> u8 list \<Rightarrow> u32" where
  "fnv_loop hash [] = hash"
| "fnv_loop hash (b # bs) = fnv_loop ((hash * FNV_32_PRIME) XOR ucast b) bs"

definition hash_bytes :: "u8 list \<Rightarrow> u32" where
  "hash_bytes buf = fnv_loop FNV_32_BASIS buf"

text \<open>A string is the list of its characters without the null byte.\<close>

definition hash_string :: "u8 list \<Rightarrow> u32" where
  "hash_string s = fnv_loop FNV_32_BASIS (takeWhile (\<lambda>c. c \<noteq> 0) s)"

definition hash_int :: "u32 \<Rightarrow> u32" where
  "hash_int i = hash_bytes (le32 i)"

section \<open>Tables\<close>

record 'e hash_table =
  elem_cnt :: u32
  bucket_cnt :: u32
  buckets :: "'e list list"
  hash :: "'e \<Rightarrow> u32"
  less :: "'e \<Rightarrow> 'e \<Rightarrow> bool"

definition find_bucket :: "'e hash_table \<Rightarrow> 'e \<Rightarrow> nat" where
  "find_bucket h e = unat (hash h e AND (bucket_cnt h - 1))"

definition find_elem :: "'e hash_table \<Rightarrow> 'e list \<Rightarrow> 'e \<Rightarrow> 'e option" where
  "find_elem h bucket e = List.find (\<lambda>hi. \<not> less h hi e \<and> \<not> less h e hi) bucket"

definition turn_off_least_1bit :: "u32 \<Rightarrow> u32" where
  "turn_off_least_1bit x = x AND (x - 1)"

definition is_power_of_2 :: "u32 \<Rightarrow> bool" where
  "is_power_of_2 x \<longleftrightarrow> x \<noteq> 0 \<and> turn_off_least_1bit x = 0"

definition BEST_ELEMS_PER_BUCKET :: u32 where
  "BEST_ELEMS_PER_BUCKET = 2"

partial_function (option) power_loop :: "u32 \<Rightarrow> u32 option" where
  "power_loop n = (if \<not> is_power_of_2 n then power_loop (turn_off_least_1bit n) else Some n)"

definition push_bucket :: "nat \<Rightarrow> 'e \<Rightarrow> 'e hash_table \<Rightarrow> 'e hash_table option" where
  "push_bucket b e h = do {
     bucket \<leftarrow> array_get (buckets h) b;
     bs \<leftarrow> array_set (buckets h) b (e # bucket);
     Some (h\<lparr>buckets := bs\<rparr>) }"

fun move_bucket :: "'e list \<Rightarrow> 'e hash_table \<Rightarrow> 'e hash_table option" where
  "move_bucket [] h = Some h"
| "move_bucket (e # es) h = do { h \<leftarrow> push_bucket (find_bucket h e) e h; move_bucket es h }"

fun move_buckets :: "'e list list \<Rightarrow> 'e hash_table \<Rightarrow> 'e hash_table option" where
  "move_buckets [] h = Some h"
| "move_buckets (b # bs) h = do { h \<leftarrow> move_bucket b h; move_buckets bs h }"

definition rehash :: "bool \<Rightarrow> 'e hash_table \<Rightarrow> 'e hash_table option" where
  "rehash mem h = do {
     let old_buckets = buckets h;
     let new_bucket_cnt = elem_cnt h div BEST_ELEMS_PER_BUCKET;
     let new_bucket_cnt = (if new_bucket_cnt < 4 then 4 else new_bucket_cnt);
     new_bucket_cnt \<leftarrow> power_loop new_bucket_cnt;
     if new_bucket_cnt = bucket_cnt h then Some h
     else if \<not> mem then Some h
     else move_buckets old_buckets
            (h\<lparr>buckets := replicate (unat new_bucket_cnt) [], bucket_cnt := new_bucket_cnt\<rparr>) }"

definition insert_elem :: "nat \<Rightarrow> 'e \<Rightarrow> 'e hash_table \<Rightarrow> 'e hash_table option" where
  "insert_elem bucket e h = push_bucket bucket e (h\<lparr>elem_cnt := elem_cnt h + 1\<rparr>)"

text \<open>Unlinking an element takes it out of the list that it is in.\<close>

definition remove_elem :: "'e \<Rightarrow> 'e hash_table \<Rightarrow> 'e hash_table" where
  "remove_elem e h = h\<lparr>elem_cnt := elem_cnt h - 1, buckets := map (remove1 e) (buckets h)\<rparr>"

text \<open>The destructor is called for each element in turn; \<open>acts\<close> is the list of these calls.\<close>

fun clear_loop :: "bool \<Rightarrow> 'e list list \<Rightarrow> 'e list \<times> 'e list list" where
  "clear_loop destructor [] = ([], [])"
| "clear_loop destructor (b # bs) =
     (let (acts, bs) = clear_loop destructor bs in ((if destructor then b else []) @ acts, [] # bs))"

definition hash_clear :: "bool \<Rightarrow> 'e hash_table \<Rightarrow> 'e list \<times> 'e hash_table" where
  "hash_clear destructor h =
     (let (acts, bs) = clear_loop destructor (buckets h) in (acts, h\<lparr>buckets := bs, elem_cnt := 0\<rparr>))"

definition hash_init :: "bool \<Rightarrow> ('e \<Rightarrow> u32) \<Rightarrow> ('e \<Rightarrow> 'e \<Rightarrow> bool) \<Rightarrow> bool \<times> 'e hash_table" where
  "hash_init mem hf lf =
     (let h = \<lparr>elem_cnt = 0, bucket_cnt = 4, buckets = [], hash = hf, less = lf\<rparr> in
      if mem then (True, snd (hash_clear False (h\<lparr>buckets := replicate 4 []\<rparr>))) else (False, h))"

definition hash_destroy :: "bool \<Rightarrow> 'e hash_table \<Rightarrow> 'e list" where
  "hash_destroy destructor h = (if destructor then fst (hash_clear destructor h) else [])"

definition hash_insert :: "bool \<Rightarrow> 'e hash_table \<Rightarrow> 'e \<Rightarrow> ('e option \<times> 'e hash_table) option" where
  "hash_insert mem h new = do {
     let b = find_bucket h new;
     bucket \<leftarrow> array_get (buckets h) b;
     let old = find_elem h bucket new;
     h \<leftarrow> (if old = None then insert_elem b new h else Some h);
     h \<leftarrow> rehash mem h;
     Some (old, h) }"

definition hash_replace :: "bool \<Rightarrow> 'e hash_table \<Rightarrow> 'e \<Rightarrow> ('e option \<times> 'e hash_table) option" where
  "hash_replace mem h new = do {
     let b = find_bucket h new;
     bucket \<leftarrow> array_get (buckets h) b;
     let old = find_elem h bucket new;
     let h = (case old of None \<Rightarrow> h | Some x \<Rightarrow> remove_elem x h);
     h \<leftarrow> insert_elem b new h;
     h \<leftarrow> rehash mem h;
     Some (old, h) }"

definition hash_find :: "'e hash_table \<Rightarrow> 'e \<Rightarrow> 'e option option" where
  "hash_find h e = do { bucket \<leftarrow> array_get (buckets h) (find_bucket h e); Some (find_elem h bucket e) }"

definition hash_delete :: "bool \<Rightarrow> 'e hash_table \<Rightarrow> 'e \<Rightarrow> ('e option \<times> 'e hash_table) option" where
  "hash_delete mem h e = do {
     bucket \<leftarrow> array_get (buckets h) (find_bucket h e);
     case find_elem h bucket e of
       None \<Rightarrow> Some (None, h)
     | Some x \<Rightarrow> do { h \<leftarrow> rehash mem (remove_elem x h); Some (Some x, h) } }"

text \<open>The elements in the order in which the action is called.\<close>

definition hash_apply :: "'e hash_table \<Rightarrow> 'e list" where
  "hash_apply h = concat (buckets h)"

definition hash_size :: "'e hash_table \<Rightarrow> u32" where
  "hash_size h = elem_cnt h"

definition hash_empty :: "'e hash_table \<Rightarrow> bool" where
  "hash_empty h \<longleftrightarrow> elem_cnt h = 0"

section \<open>Iterators\<close>

text \<open>
  The current element is a position in the list of the current bucket: 0 is the head of
  the list, a position behind the last element its tail; \<open>None\<close> is the null pointer.
\<close>

record hash_iterator =
  ibucket :: nat
  ielem :: "nat option"

definition hash_first :: "'e hash_table \<Rightarrow> hash_iterator" where
  "hash_first h = \<lparr>ibucket = 0, ielem = Some 0\<rparr>"

function next_loop :: "'e hash_table \<Rightarrow> nat \<Rightarrow> nat \<Rightarrow> hash_iterator option" where
  "next_loop h b pos = do {
     bucket \<leftarrow> array_get (buckets h) b;
     if pos = length bucket + 1
     then if b + 1 \<ge> unat (bucket_cnt h) then Some \<lparr>ibucket = b + 1, ielem = None\<rparr>
          else next_loop h (b + 1) 1
     else Some \<lparr>ibucket = b, ielem = Some pos\<rparr> }"
  by pat_completeness auto
termination
  by (relation "measure (\<lambda>(h, b, _). length (buckets h) - b)") (auto simp: array_get_def split: if_splits)

declare next_loop.simps [simp del]

definition hash_cur :: "'e hash_table \<Rightarrow> hash_iterator \<Rightarrow> 'e option option" where
  "hash_cur h i = (case ielem i of None \<Rightarrow> Some None | Some pos \<Rightarrow> do {
     bucket \<leftarrow> array_get (buckets h) (ibucket i);
     ASSERT (pos > 0);
     e \<leftarrow> array_get bucket (pos - 1);
     Some (Some e) })"

definition hash_next :: "'e hash_table \<Rightarrow> hash_iterator \<Rightarrow> ('e option \<times> hash_iterator) option" where
  "hash_next h i = do {
     pos \<leftarrow> ielem i;
     i \<leftarrow> next_loop h (ibucket i) (pos + 1);
     e \<leftarrow> hash_cur h i;
     Some (e, i) }"

section \<open>The number of buckets\<close>

lemma turn_off_less: "x \<noteq> 0 \<Longrightarrow> turn_off_least_1bit x < x"
proof -
  assume "x \<noteq> 0"
  then have "x - 1 < x" by (simp add: word_less_nat_alt unat_minus_one unat_gt_0)
  moreover have "x AND (x - 1) \<le> x - 1" by (rule word_and_le1)
  ultimately show ?thesis by (simp add: turn_off_least_1bit_def)
qed

lemma power_loop_ok: "n \<noteq> 0 \<Longrightarrow> \<exists>p. power_loop n = Some p \<and> is_power_of_2 p \<and> p \<le> n"
proof (induction "unat n" arbitrary: n rule: less_induct)
  case less
  show ?case
  proof (cases "is_power_of_2 n")
    case False
    let ?n = "turn_off_least_1bit n"
    have lt: "?n < n" "?n \<noteq> 0" using turn_off_less less.prems False by (auto simp: is_power_of_2_def)
    then obtain p where "power_loop ?n = Some p" "is_power_of_2 p" "p \<le> ?n"
      using less.hyps [of ?n] by (auto simp: word_less_nat_alt)
    then show ?thesis using False lt(1) by (subst power_loop.simps) auto
  qed (subst power_loop.simps, simp)
qed

section \<open>The invariant of a table\<close>

definition eqv :: "('e \<Rightarrow> 'e \<Rightarrow> bool) \<Rightarrow> 'e \<Rightarrow> 'e \<Rightarrow> bool" where
  "eqv lf a b \<longleftrightarrow> \<not> lf a b \<and> \<not> lf b a"

text \<open>What the functions passed to \<open>hash_init\<close> have to satisfy.\<close>

definition keys_ok :: "('e \<Rightarrow> u32) \<Rightarrow> ('e \<Rightarrow> 'e \<Rightarrow> bool) \<Rightarrow> bool" where
  "keys_ok hf lf \<longleftrightarrow> (\<forall>a. \<not> lf a a) \<and> (\<forall>a b c. eqv lf a b \<and> eqv lf b c \<longrightarrow> eqv lf a c) \<and>
     (\<forall>a b. eqv lf a b \<longrightarrow> hf a = hf b)"

definition elems :: "'e hash_table \<Rightarrow> 'e set" where
  "elems h = set (concat (buckets h))"

definition placed :: "'e hash_table \<Rightarrow> bool" where
  "placed h \<longleftrightarrow> is_power_of_2 (bucket_cnt h) \<and> length (buckets h) = unat (bucket_cnt h) \<and>
     (\<forall>b < length (buckets h). \<forall>e \<in> set (buckets h ! b). find_bucket h e = b)"

definition hash_ok :: "'e hash_table \<Rightarrow> bool" where
  "hash_ok h \<longleftrightarrow> placed h \<and> elem_cnt h = of_nat (length (concat (buckets h))) \<and> distinct (concat (buckets h)) \<and>
     keys_ok (hash h) (less h) \<and> (\<forall>x \<in> elems h. \<forall>y \<in> elems h. eqv (less h) x y \<longrightarrow> x = y)"

lemma find_bucket_less: "placed h \<Longrightarrow> find_bucket h e < length (buckets h)"
proof -
  assume p: "placed h"
  have "hash h e AND (bucket_cnt h - 1) \<le> bucket_cnt h - 1" by (rule word_and_le1)
  moreover have "bucket_cnt h - 1 < bucket_cnt h"
    using p by (simp add: placed_def is_power_of_2_def word_less_nat_alt unat_minus_one unat_gt_0)
  ultimately have "hash h e AND (bucket_cnt h - 1) < bucket_cnt h" by simp
  then show ?thesis using p by (simp add: placed_def find_bucket_def word_less_nat_alt)
qed

lemma mset_concat_update:
  assumes "b < length bs"
  shows "mset (concat (bs[b := e # bs ! b])) = add_mset e (mset (concat bs))"
proof -
  have "mset (concat bs) = mset (concat (take b bs @ bs ! b # drop (Suc b) bs))" using assms by (simp add: id_take_nth_drop [symmetric])
  then show ?thesis using assms by (simp add: upd_conv_take_nth_drop)
qed

lemma push_bucket_ok:
  assumes "placed h"
  shows "\<exists>h'. push_bucket (find_bucket h e) e h = Some h' \<and> h' = h\<lparr>buckets := buckets h'\<rparr> \<and> placed h' \<and>
    mset (concat (buckets h')) = add_mset e (mset (concat (buckets h)))"
proof -
  let ?b = "find_bucket h e"
  note b = find_bucket_less [OF assms, of e]
  have "push_bucket ?b e h = Some (h\<lparr>buckets := (buckets h)[?b := e # buckets h ! ?b]\<rparr>)"
    using b by (simp add: push_bucket_def)
  moreover have "placed (h\<lparr>buckets := (buckets h)[?b := e # buckets h ! ?b]\<rparr>)"
    using assms b by (auto simp: placed_def find_bucket_def nth_list_update)
  ultimately show ?thesis using mset_concat_update [OF b, of e] by auto
qed

lemma move_bucket_ok:
  "placed h \<Longrightarrow> \<exists>h'. move_bucket es h = Some h' \<and> h' = h\<lparr>buckets := buckets h'\<rparr> \<and> placed h' \<and>
    mset (concat (buckets h')) = mset es + mset (concat (buckets h))"
proof (induction es arbitrary: h)
  case (Cons e es)
  from push_bucket_ok [OF Cons.prems, of e] obtain h1 where h1: "push_bucket (find_bucket h e) e h = Some h1"
    "h1 = h\<lparr>buckets := buckets h1\<rparr>" "placed h1" "mset (concat (buckets h1)) = add_mset e (mset (concat (buckets h)))" by blast
  from Cons.IH [OF h1(3)] obtain h2 where h2: "move_bucket es h1 = Some h2" "h2 = h1\<lparr>buckets := buckets h2\<rparr>" "placed h2"
    "mset (concat (buckets h2)) = mset es + mset (concat (buckets h1))" by blast
  have "h2 = h\<lparr>buckets := buckets h2\<rparr>" by (subst h2(2), subst h1(2)) simp
  then show ?case using h1 h2 by simp
qed simp

lemma move_buckets_ok:
  "placed h \<Longrightarrow> \<exists>h'. move_buckets bs h = Some h' \<and> h' = h\<lparr>buckets := buckets h'\<rparr> \<and> placed h' \<and>
    mset (concat (buckets h')) = mset (concat bs) + mset (concat (buckets h))"
proof (induction bs arbitrary: h)
  case (Cons b bs)
  from move_bucket_ok [OF Cons.prems, of b] obtain h1 where h1: "move_bucket b h = Some h1"
    "h1 = h\<lparr>buckets := buckets h1\<rparr>" "placed h1" "mset (concat (buckets h1)) = mset b + mset (concat (buckets h))" by blast
  from Cons.IH [OF h1(3)] obtain h2 where h2: "move_buckets bs h1 = Some h2" "h2 = h1\<lparr>buckets := buckets h2\<rparr>" "placed h2"
    "mset (concat (buckets h2)) = mset (concat bs) + mset (concat (buckets h1))" by blast
  have "h2 = h\<lparr>buckets := buckets h2\<rparr>" by (subst h2(2), subst h1(2)) simp
  then show ?case using h1 h2 by simp
qed simp

lemma hash_ok_mset:
  assumes "hash_ok h" "placed h'" "mset (concat (buckets h')) = mset (concat (buckets h))"
    "hash h' = hash h" "less h' = less h" "elem_cnt h' = elem_cnt h"
  shows "hash_ok h'" "elems h' = elems h"
proof -
  show e: "elems h' = elems h" unfolding elems_def by (metis assms(3) set_mset_mset)
  have "distinct (concat (buckets h'))" using assms(1,3) by (metis hash_ok_def mset_eq_imp_distinct_iff)
  moreover have "length (concat (buckets h')) = length (concat (buckets h))" using assms(3) by (metis size_mset)
  ultimately show "hash_ok h'" using assms e by (simp add: hash_ok_def)
qed

text \<open>Changing the number of buckets keeps the elements, whether or not memory is given.\<close>

lemma rehash_ok:
  assumes "hash_ok h"
  shows "\<exists>h'. rehash mem h = Some h' \<and> hash_ok h' \<and> elems h' = elems h \<and> hash h' = hash h \<and> less h' = less h"
proof -
  define n where "n = (let c = elem_cnt h div BEST_ELEMS_PER_BUCKET in if c < 4 then 4 else c)"
  have "n \<noteq> 0" by (auto simp: n_def Let_def)
  then obtain p where p: "power_loop n = Some p" "is_power_of_2 p" using power_loop_ok by blast
  let ?h = "h\<lparr>buckets := replicate (unat p) [], bucket_cnt := p\<rparr>"
  have "placed ?h" using p(2) by (simp add: placed_def)
  then obtain h' where h': "move_buckets (buckets h) ?h = Some h'" "h' = ?h\<lparr>buckets := buckets h'\<rparr>" "placed h'"
      "mset (concat (buckets h')) = mset (concat (buckets h))"
    using move_buckets_ok [of ?h "buckets h"] by auto
  have "hash h' = hash h" "less h' = less h" "elem_cnt h' = elem_cnt h" by (subst h'(2), simp)+
  then have ok: "hash_ok h' \<and> elems h' = elems h \<and> hash h' = hash h \<and> less h' = less h"
    using hash_ok_mset [OF assms h'(3,4)] by blast
  have "rehash mem h = (if p = bucket_cnt h \<or> \<not> mem then Some h else Some h')"
    using p(1) h'(1) unfolding n_def Let_def by (simp add: rehash_def)
  then show ?thesis using ok assms by auto
qed

lemma find_elem_ok:
  assumes ok: "hash_ok h" and bucket_def: "bucket = buckets h ! find_bucket h e"
  shows "case find_elem h bucket e of None \<Rightarrow> \<forall>x \<in> elems h. \<not> eqv (less h) x e | Some x \<Rightarrow> x \<in> elems h \<and> eqv (less h) x e"
proof -
  have p: "placed h" using ok by (simp add: hash_ok_def)
  note b = find_bucket_less [OF p, of e]
  have in_b: "x \<in> set bucket" if "x \<in> elems h" "eqv (less h) x e" for x
  proof -
    from that(1) obtain i where i: "i < length (buckets h)" "x \<in> set (buckets h ! i)"
      by (auto simp: elems_def) (metis in_set_conv_nth)
    have "hash h x = hash h e" using ok that(2) unfolding hash_ok_def keys_ok_def by blast
    then have "find_bucket h x = find_bucket h e" by (simp add: find_bucket_def)
    moreover have "find_bucket h x = i" using p i by (simp add: placed_def)
    ultimately show ?thesis using i(2) by (simp add: bucket_def)
  qed
  have sub: "set bucket \<subseteq> elems h" using nth_mem [OF b] unfolding bucket_def elems_def set_concat by blast
  show ?thesis
  proof (cases "find_elem h bucket e")
    case None
    then have "\<forall>x \<in> set bucket. \<not> eqv (less h) x e" by (auto simp: find_elem_def find_None_iff eqv_def)
    then show ?thesis using in_b None by auto
  next
    case (Some x)
    then have "x \<in> set bucket \<and> eqv (less h) x e" by (auto simp: find_elem_def find_Some_iff eqv_def)
    then show ?thesis using sub Some by auto
  qed
qed


lemma remove_concat:
  assumes "distinct (concat bs)" "x \<in> set (concat bs)"
  shows "mset (concat (map (remove1 x) bs)) = mset (concat bs) - {#x#}"
  using assms
proof (induction bs)
  case (Cons b bs)
  have id: "map (remove1 x) bs = bs" if "x \<notin> set (concat bs)"
    using that by (intro map_idI) (auto simp: remove1_idem)
  show ?case
  proof (cases "x \<in> set b")
    case True
    then have "x \<notin> set (concat bs)" using Cons.prems by auto
    then show ?thesis using True id by simp
  next
    case False
    then have "mset (concat (map (remove1 x) bs)) = mset (concat bs) - {#x#}" "x \<in># mset (concat bs)"
      using Cons by auto
    then show ?thesis using False by (simp add: remove1_idem)
  qed
qed simp

lemma remove_elem_ok:
  assumes ok: "hash_ok h" and x: "x \<in> elems h"
  shows "hash_ok (remove_elem x h)" "elems (remove_elem x h) = elems h - {x}"
proof -
  let ?h = "remove_elem x h"
  have m: "mset (concat (buckets ?h)) = mset (concat (buckets h)) - {#x#}"
    using remove_concat [of "buckets h" x] ok x by (simp add: remove_elem_def hash_ok_def elems_def)
  have d: "distinct (concat (buckets h))" using ok by (simp add: hash_ok_def)
  have xm: "x \<in># mset (concat (buckets h))" using x by (simp add: elems_def)
  have "set_mset (mset (concat (buckets ?h))) = set (concat (buckets h)) - {x}"
    unfolding m using d by (metis set_remove1_eq mset_remove1 set_mset_mset)
  then show e: "elems ?h = elems h - {x}" by (simp add: elems_def)
  have "distinct (concat (buckets ?h))"
    using m d by (metis distinct_remove1 mset_remove1 mset_eq_imp_distinct_iff)
  moreover have "size (mset (concat (buckets h))) = size (mset (concat (buckets ?h))) + 1"
    unfolding m using xm by (metis Suc_eq_plus1 size_Suc_Diff1)
  then have "elem_cnt ?h = of_nat (length (concat (buckets ?h)))"
    using ok by (simp add: remove_elem_def hash_ok_def)
  moreover have "placed ?h"
    using ok by (auto simp: hash_ok_def placed_def remove_elem_def find_bucket_def dest: notin_set_remove1 set_remove1_subset [THEN subsetD])
  ultimately show "hash_ok ?h" using ok e by (auto simp: hash_ok_def remove_elem_def)
qed

lemma insert_elem_ok:
  assumes ok: "hash_ok h" and x: "\<forall>x \<in> elems h. \<not> eqv (less h) x e"
  shows "\<exists>h'. insert_elem (find_bucket h e) e h = Some h' \<and> hash_ok h' \<and> elems h' = insert e (elems h) \<and>
    hash h' = hash h \<and> less h' = less h"
proof -
  let ?h = "h\<lparr>elem_cnt := elem_cnt h + 1\<rparr>"
  have p: "placed ?h" using ok by (simp add: hash_ok_def placed_def find_bucket_def)
  have b: "find_bucket ?h e = find_bucket h e" by (simp add: find_bucket_def)
  obtain h' where h': "push_bucket (find_bucket h e) e ?h = Some h'" "h' = ?h\<lparr>buckets := buckets h'\<rparr>" "placed h'"
      "mset (concat (buckets h')) = add_mset e (mset (concat (buckets h)))"
    using push_bucket_ok [OF p, of e] b by auto
  have f: "hash h' = hash h" "less h' = less h" "elem_cnt h' = elem_cnt h + 1" by (subst h'(2), simp)+
  have es: "elems h' = insert e (elems h)"
    using h'(4) unfolding elems_def by (metis set_mset_add_mset_insert set_mset_mset)
  have refl: "eqv (less h) a a" for a using ok unfolding hash_ok_def keys_ok_def eqv_def by blast
  then have new: "e \<notin> elems h" using x by blast
  have "distinct (concat (buckets h'))"
    using h'(4) ok new by (metis distinct.simps(2) elems_def hash_ok_def mset.simps(2) mset_eq_imp_distinct_iff)
  moreover have "length (concat (buckets h')) = length (concat (buckets h)) + 1"
    using h'(4) by (metis Suc_eq_plus1 size_add_mset size_mset)
  moreover have "eqv (less h) a b \<longrightarrow> a = b" if "a \<in> elems h'" "b \<in> elems h'" for a b
    using that ok x unfolding es hash_ok_def by (auto simp: eqv_def)
  ultimately have "hash_ok h'" using ok h'(3) f by (simp add: hash_ok_def)
  then show ?thesis using h'(1) es f by (auto simp: insert_elem_def)
qed

section \<open>Tables as sets of keys\<close>

text \<open>What a user of a table relies on: at most one element of each key is in it.\<close>

locale keyed_set =
  fixes ok :: "'s \<Rightarrow> bool"
    and elements :: "'s \<Rightarrow> 'e set"
    and same :: "'e \<Rightarrow> 'e \<Rightarrow> bool"
    and lookup :: "'s \<Rightarrow> 'e \<Rightarrow> 'e option option"
    and add :: "'s \<Rightarrow> 'e \<Rightarrow> ('e option \<times> 's) option"
    and del :: "'s \<Rightarrow> 'e \<Rightarrow> ('e option \<times> 's) option"
  assumes lookup_law: "ok s \<Longrightarrow> \<exists>r. lookup s e = Some r \<and>
      (case r of None \<Rightarrow> \<forall>x \<in> elements s. \<not> same x e | Some x \<Rightarrow> x \<in> elements s \<and> same x e)"
    and add_law: "ok s \<Longrightarrow> \<exists>r s'. add s e = Some (r, s') \<and> ok s' \<and> lookup s e = Some r \<and>
      elements s' = (if r = None then insert e (elements s) else elements s)"
    and del_law: "ok s \<Longrightarrow> \<exists>r s'. del s e = Some (r, s') \<and> ok s' \<and> lookup s e = Some r \<and>
      elements s' = elements s - set_option r"
    and unique: "\<lbrakk>ok s; x \<in> elements s; y \<in> elements s; same x y\<rbrakk> \<Longrightarrow> x = y"
    and same_refl: "ok s \<Longrightarrow> same e e"
    and same_sym: "same x y \<Longrightarrow> same y x"
    and same_trans: "\<lbrakk>ok s; same x y; same y z\<rbrakk> \<Longrightarrow> same x z"
begin

lemma lookup_iff:
  assumes "ok s"
  shows "lookup s e = Some (Some x) \<longleftrightarrow> x \<in> elements s \<and> same x e"
proof -
  from lookup_law [OF assms, of e] obtain r where r: "lookup s e = Some r"
    "case r of None \<Rightarrow> \<forall>x \<in> elements s. \<not> same x e | Some x \<Rightarrow> x \<in> elements s \<and> same x e" by blast
  show ?thesis
  proof
    assume x: "x \<in> elements s \<and> same x e"
    with r(2) obtain y where y: "r = Some y" "y \<in> elements s" "same y e" by (cases r) auto
    then have "same x y" using x same_sym same_trans [OF assms] by blast
    then show "lookup s e = Some (Some x)" using unique [OF assms, of x y] x y r(1) by simp
  qed (use r in auto)
qed

lemma lookup_cong:
  assumes "ok s" "ok s'" "\<And>x. same x e \<Longrightarrow> x \<in> elements s \<longleftrightarrow> x \<in> elements s'"
  shows "lookup s e = lookup s' e"
proof -
  have "lookup s e = Some (Some x) \<longleftrightarrow> lookup s' e = Some (Some x)" for x
    using lookup_iff assms by blast
  moreover obtain r r' where "lookup s e = Some r" "lookup s' e = Some r'"
    using lookup_law [OF assms(1)] lookup_law [OF assms(2)] by blast
  ultimately show ?thesis by (cases r; cases r') auto
qed

lemma lookup_after_add:
  assumes "ok s"
  shows "\<exists>r s'. add s e = Some (r, s') \<and> ok s' \<and> lookup s e = Some r \<and>
    (\<forall>k. lookup s' k = (if r = None \<and> same e k then Some (Some e) else lookup s k))"
proof -
  obtain r s' where a: "add s e = Some (r, s')" "ok s'" "lookup s e = Some r"
      "elements s' = (if r = None then insert e (elements s) else elements s)"
    using add_law [OF assms] by blast
  have "lookup s' k = (if r = None \<and> same e k then Some (Some e) else lookup s k)" for k
  proof (cases "r = None \<and> same e k")
    case True
    then show ?thesis using lookup_iff [OF a(2)] a(4) by simp
  next
    case False
    have "lookup s' k = lookup s k"
      by (rule lookup_cong [OF a(2) assms]) (use a(4) False in auto)
    then show ?thesis using False by (simp only: if_False)
  qed
  then show ?thesis using a by blast
qed

lemma lookup_after_del:
  assumes "ok s"
  shows "\<exists>r s'. del s e = Some (r, s') \<and> ok s' \<and> lookup s e = Some r \<and>
    (\<forall>k. lookup s' k = (if same e k then Some None else lookup s k))"
proof -
  obtain r s' where a: "del s e = Some (r, s')" "ok s'" "lookup s e = Some r" "elements s' = elements s - set_option r"
    using del_law [OF assms] by blast
  have gone: "\<not> same x k" if "same e k" "x \<in> elements s'" for x k
  proof
    assume "same x k"
    then have "same x e" using that(1) same_sym same_trans [OF assms] by blast
    then have "r = Some x" using lookup_iff [OF assms, of e x] a(3,4) that(2) by simp
    then show False using a(4) that(2) by simp
  qed
  have "lookup s' k = (if same e k then Some None else lookup s k)" for k
  proof (cases "same e k")
    case True
    then show ?thesis using lookup_law [OF a(2), of k] gone by (auto split: option.splits)
  next
    case False
    have "lookup s' k = lookup s k"
    proof (rule lookup_cong [OF a(2) assms])
      fix x assume "same x k"
      have "r \<noteq> Some x"
      proof
        assume "r = Some x"
        then have "same x e" using lookup_iff [OF assms] a(3) by blast
        then show False using False \<open>same x k\<close> same_sym same_trans [OF assms] by blast
      qed
      then show "x \<in> elements s' \<longleftrightarrow> x \<in> elements s" using a(4) by (cases r) auto
    qed
    then show ?thesis using False by simp
  qed
  then show ?thesis using a by blast
qed

end

definition table_ok :: "('e \<Rightarrow> u32) \<Rightarrow> ('e \<Rightarrow> 'e \<Rightarrow> bool) \<Rightarrow> 'e hash_table \<Rightarrow> bool" where
  "table_ok hf lf h \<longleftrightarrow> hash_ok h \<and> hash h = hf \<and> less h = lf"

lemma table_okD:
  assumes "table_ok hf lf h"
  shows "hash_ok h" "array_get (buckets h) (find_bucket h e) = Some (buckets h ! find_bucket h e)"
    "hash h = hf" "less h = lf" "keys_ok hf lf"
  using assms find_bucket_less [of h e] by (auto simp: table_ok_def hash_ok_def)

lemma hash_insert_ok:
  assumes "table_ok hf lf h"
  shows "\<exists>r h'. hash_insert mem h e = Some (r, h') \<and> table_ok hf lf h' \<and> hash_find h e = Some r \<and>
    elems h' = (if r = None then insert e (elems h) else elems h)"
proof -
  note T = table_okD(1) [OF assms] table_okD(2) [OF assms, of e] table_okD(3-5) [OF assms]
  define r where "r = find_elem h (buckets h ! find_bucket h e) e"
  have F: "case r of None \<Rightarrow> \<forall>x \<in> elems h. \<not> eqv (less h) x e | Some x \<Rightarrow> x \<in> elems h \<and> eqv (less h) x e"
    using find_elem_ok [OF T(1) refl] by (simp add: r_def)
  have "\<exists>h1. (if r = None then insert_elem (find_bucket h e) e h else Some h) = Some h1 \<and> hash_ok h1 \<and>
      elems h1 = (if r = None then insert e (elems h) else elems h) \<and> hash h1 = hash h \<and> less h1 = less h"
    using insert_elem_ok [OF T(1), of e] F T(1) by (cases r) auto
  then obtain h1 where h1: "(if r = None then insert_elem (find_bucket h e) e h else Some h) = Some h1" "hash_ok h1"
    "elems h1 = (if r = None then insert e (elems h) else elems h)" "hash h1 = hash h" "less h1 = less h" by blast
  obtain h' where h': "rehash mem h1 = Some h'" "hash_ok h'" "elems h' = elems h1" "hash h' = hash h1" "less h' = less h1"
    using rehash_ok [OF h1(2)] by blast
  have "hash_insert mem h e = Some (r, h')"
    using T(2) h1(1) h'(1) by (simp add: hash_insert_def r_def [symmetric] del: not_None_eq)
  moreover have "hash_find h e = Some r" using T(2) by (simp add: hash_find_def r_def)
  ultimately show ?thesis using h1 h' T by (simp add: table_ok_def)
qed

lemma hash_delete_ok:
  assumes "table_ok hf lf h"
  shows "\<exists>r h'. hash_delete mem h e = Some (r, h') \<and> table_ok hf lf h' \<and> hash_find h e = Some r \<and>
    elems h' = elems h - set_option r"
proof -
  note T = table_okD(1) [OF assms] table_okD(2) [OF assms, of e] table_okD(3-5) [OF assms]
  define r where "r = find_elem h (buckets h ! find_bucket h e) e"
  have F: "case r of None \<Rightarrow> \<forall>x \<in> elems h. \<not> eqv (less h) x e | Some x \<Rightarrow> x \<in> elems h \<and> eqv (less h) x e"
    using find_elem_ok [OF T(1) refl] by (simp add: r_def)
  have find: "hash_find h e = Some r" using T(2) by (simp add: hash_find_def r_def)
  show ?thesis
  proof (cases r)
    case None
    then show ?thesis using T(2) find assms by (simp add: hash_delete_def r_def)
  next
    case (Some x)
    then have x: "x \<in> elems h" using F by simp
    obtain h' where h': "rehash mem (remove_elem x h) = Some h'" "hash_ok h'" "elems h' = elems h - {x}"
        "hash h' = hash h" "less h' = less h"
      using rehash_ok [OF remove_elem_ok(1) [OF T(1) x], of mem] remove_elem_ok(2) [OF T(1) x]
      by (auto simp: remove_elem_def)
    have "hash_delete mem h e = Some (Some x, h')" using T(2) Some h'(1) by (simp add: hash_delete_def r_def)
    then show ?thesis using find Some h' T by (simp add: table_ok_def)
  qed
qed

interpretation table: keyed_set "table_ok hf lf" elems "eqv lf" hash_find "hash_insert mem" "hash_delete mem" for hf lf mem
proof
  show "\<exists>r. hash_find h e = Some r \<and>
      (case r of None \<Rightarrow> \<forall>x \<in> elems h. \<not> eqv lf x e | Some x \<Rightarrow> x \<in> elems h \<and> eqv lf x e)" if "table_ok hf lf h" for h e
    using find_elem_ok [OF table_okD(1) [OF that] refl, of e, unfolded table_okD(4) [OF that]] table_okD(2) [OF that, of e]
    by (simp add: hash_find_def)
  show "x = y" if "table_ok hf lf h" "x \<in> elems h" "y \<in> elems h" "eqv lf x y" for h x y
    using that unfolding table_ok_def hash_ok_def by blast
  show "eqv lf e e" if "table_ok hf lf h" for h e
    using table_okD(5) [OF that] unfolding keys_ok_def eqv_def by blast
  show "eqv lf x z" if "table_ok hf lf h" "eqv lf x y" "eqv lf y z" for h x y z
    using table_okD(5) [OF that(1)] that(2,3) unfolding keys_ok_def by blast
qed (blast intro: hash_insert_ok hash_delete_ok | simp add: eqv_def)+

lemma hash_init_ok: "keys_ok hf lf \<Longrightarrow> fst (hash_init True hf lf) \<and> table_ok hf lf (snd (hash_init True hf lf)) \<and>
    elems (snd (hash_init True hf lf)) = {}"
proof -
  assume k: "keys_ok hf lf"
  have clear: "clear_loop False bs = ([], replicate (length bs) [])" for bs :: "'a list list"
    by (induction bs) simp_all
  have i: "hash_init True hf lf = (True, \<lparr>elem_cnt = 0, bucket_cnt = 4, buckets = replicate 4 [], hash = hf, less = lf\<rparr>)"
    by (simp add: hash_init_def hash_clear_def clear)
  have "is_power_of_2 4" by (simp add: is_power_of_2_def turn_off_least_1bit_def)
  then show ?thesis using k unfolding i by (simp add: table_ok_def hash_ok_def placed_def elems_def concat_replicate_trivial)
qed

text \<open>
  C9: a hash table implements a map from keys to elements.  Inserting returns the element of
  the same key, if there is one, and leaves the table unchanged; otherwise afterwards a
  search for that key finds the new element and a search for any other key what it found
  before.  This holds through every change of the number of buckets, and also when memory
  for more buckets is refused.
\<close>

theorem hash_insert_find:
  assumes "table_ok hf lf h"
  shows "\<exists>r h'. hash_insert mem h e = Some (r, h') \<and> table_ok hf lf h' \<and> hash_find h e = Some r \<and>
    (\<forall>k. hash_find h' k = (if r = None \<and> eqv lf e k then Some (Some e) else hash_find h k))"
  by (rule table.lookup_after_add [OF assms])

theorem hash_insert_find_witness:
  "\<exists>h'. hash_insert True (snd (hash_init True id (<))) 77 = Some (None, h') \<and> hash_find h' 77 = Some (Some 77)"
proof -
  have "keys_ok id ((<) :: u32 \<Rightarrow> u32 \<Rightarrow> bool)" by (auto simp: keys_ok_def eqv_def)
  from hash_init_ok [OF this] have ok: "table_ok id (<) (snd (hash_init True id ((<) :: u32 \<Rightarrow> u32 \<Rightarrow> bool)))"
    and e: "elems (snd (hash_init True id ((<) :: u32 \<Rightarrow> u32 \<Rightarrow> bool))) = {}" by blast+
  obtain r h' where r: "hash_insert True (snd (hash_init True id (<))) 77 = Some (r, h')"
      "hash_find (snd (hash_init True id (<))) 77 = Some r"
      "\<forall>k. hash_find h' k = (if r = None \<and> eqv (<) 77 k then Some (Some 77) else hash_find (snd (hash_init True id (<))) k)"
    using hash_insert_find [OF ok, of True 77] by blast
  have "r = None" using table.lookup_law [OF ok, of 77] r(2) e by (cases r) auto
  then show ?thesis using r by (auto simp: eqv_def)
qed

text \<open>
  C28: deleting a key from a hash table returns the element that a search would find, and
  afterwards no search for that key finds anything, while every other search gives what it
  gave before.
\<close>

theorem hash_delete_find:
  assumes "table_ok hf lf h"
  shows "\<exists>r h'. hash_delete mem h e = Some (r, h') \<and> table_ok hf lf h' \<and> hash_find h e = Some r \<and>
    (\<forall>k. hash_find h' k = (if eqv lf e k then Some None else hash_find h k))"
  by (rule table.lookup_after_del [OF assms])

theorem hash_delete_find_witness:
  "\<exists>r h'. hash_delete True (snd (hash_init True id (<))) (77 :: u32) = Some (r, h') \<and> hash_find h' 77 = Some None"
proof -
  have "keys_ok id ((<) :: u32 \<Rightarrow> u32 \<Rightarrow> bool)" by (auto simp: keys_ok_def eqv_def)
  from hash_init_ok [OF this] have ok: "table_ok id (<) (snd (hash_init True id ((<) :: u32 \<Rightarrow> u32 \<Rightarrow> bool)))" by blast
  from hash_delete_find [OF ok, of True 77] show ?thesis by (auto simp: eqv_def)
qed

section \<open>Iteration\<close>

text \<open>The elements that an iterator has not yet passed.\<close>

definition remaining :: "'e hash_table \<Rightarrow> hash_iterator \<Rightarrow> 'e list" where
  "remaining h i = (case ielem i of None \<Rightarrow> []
     | Some pos \<Rightarrow> drop pos (buckets h ! ibucket i) @ concat (drop (ibucket i + 1) (buckets h)))"

definition iter_ok :: "'e hash_table \<Rightarrow> hash_iterator \<Rightarrow> bool" where
  "iter_ok h i \<longleftrightarrow> (\<exists>pos. ielem i = Some pos \<and> ibucket i < length (buckets h) \<and> pos \<le> length (buckets h ! ibucket i))"

lemma next_loop_ok:
  assumes "length (buckets h) = unat (bucket_cnt h)"
  shows "\<lbrakk>b < length (buckets h); 0 < pos; pos \<le> length (buckets h ! b) + 1\<rbrakk> \<Longrightarrow>
    \<exists>i e. next_loop h b pos = Some i \<and> hash_cur h i = Some e \<and>
      (case drop (pos - 1) (buckets h ! b) @ concat (drop (b + 1) (buckets h)) of
         [] \<Rightarrow> e = None \<and> ielem i = None
       | x # xs \<Rightarrow> e = Some x \<and> iter_ok h i \<and> remaining h i = xs)"
proof (induction "length (buckets h) - b" arbitrary: b pos rule: less_induct)
  case less
  let ?bs = "buckets h"
  consider (here) "pos \<le> length (?bs ! b)" | (last) "pos = length (?bs ! b) + 1" "length ?bs \<le> b + 1"
    | (skip) "pos = length (?bs ! b) + 1" "b + 1 < length ?bs" using less.prems by linarith
  then show ?case
  proof cases
    case here
    then have "drop (pos - 1) (?bs ! b) = ?bs ! b ! (pos - 1) # drop pos (?bs ! b)"
      using less.prems(2) Cons_nth_drop_Suc [of "pos - 1" "?bs ! b"] by simp
    then show ?thesis using here less.prems
      by (subst next_loop.simps) (auto simp: hash_cur_def iter_ok_def remaining_def)
  next
    case last
    then show ?thesis using less.prems(1) assms by (subst next_loop.simps) (simp add: hash_cur_def)
  next
    case skip
    have "length ?bs - (b + 1) < length ?bs - b" using skip(2) by linarith
    from less.hyps [OF this, of 1] skip(2) obtain i e where
      ie: "next_loop h (b + 1) 1 = Some i" "hash_cur h i = Some e"
        "case ?bs ! (b + 1) @ concat (drop (b + 2) ?bs) of [] \<Rightarrow> e = None \<and> ielem i = None
         | x # xs \<Rightarrow> e = Some x \<and> iter_ok h i \<and> remaining h i = xs" by auto
    have "concat (drop (b + 1) ?bs) = ?bs ! (b + 1) @ concat (drop (b + 2) ?bs)"
      using skip(2) Cons_nth_drop_Suc [of "b + 1" ?bs] by (metis Suc_eq_plus1 add_2_eq_Suc' concat.simps(2))
    moreover have "next_loop h b pos = next_loop h (b + 1) 1"
      using skip less.prems(1) assms by (subst next_loop.simps) simp
    ultimately show ?thesis using ie skip(1) by auto
  qed
qed

text \<open>
  Iterating from \<open>hash_first\<close> meets every element once, in the order in which \<open>hash_apply\<close> does,
  and then the null pointer.
\<close>

lemma hash_next_ok:
  assumes "hash_ok h" "iter_ok h i"
  shows "\<exists>e i'. hash_next h i = Some (e, i') \<and>
    (case remaining h i of [] \<Rightarrow> e = None \<and> ielem i' = None | x # xs \<Rightarrow> e = Some x \<and> iter_ok h i' \<and> remaining h i' = xs)"
proof -
  obtain pos where pos: "ielem i = Some pos" "ibucket i < length (buckets h)" "pos \<le> length (buckets h ! ibucket i)"
    using assms(2) by (auto simp: iter_ok_def)
  have "length (buckets h) = unat (bucket_cnt h)" using assms(1) by (simp add: hash_ok_def placed_def)
  from next_loop_ok [OF this pos(2), of "pos + 1"] pos show ?thesis by (auto simp: hash_next_def remaining_def)
qed

lemma hash_first_ok:
  assumes "hash_ok h"
  shows "iter_ok h (hash_first h)" "remaining h (hash_first h) = hash_apply h"
proof -
  have "buckets h \<noteq> []" using assms by (auto simp: hash_ok_def placed_def is_power_of_2_def unat_eq_zero)
  then show "iter_ok h (hash_first h)" "remaining h (hash_first h) = hash_apply h"
    by (cases "buckets h"; simp add: iter_ok_def hash_first_def remaining_def hash_apply_def)+
qed

end
