(* ===== verification/Palloc.thy ===== *)
theory Palloc
  imports Bitmap "HOL-Library.Signed_Division"
begin

text \<open>
  \<open>threads/vaddr.h\<close> and \<open>threads/palloc.c\<close>: virtual addresses and the page allocator.

  An address is a 32-bit word.  The memory that the allocator manages is kept by page: the
  address of a page gives its 1024 words.  Each pool has a lock that is only held around the
  search in the map of used pages, so that search is one step of the model.
\<close>

section \<open>Virtual addresses\<close>

definition BITMASK :: "nat \<Rightarrow> nat \<Rightarrow> u32" where
  "BITMASK shift cnt = push_bit shift (push_bit cnt 1 - 1)"

definition PGBITS :: nat where [simp]: "PGBITS = 12"
declare PGSIZE_def [simp]
definition PGMASK :: u32 where "PGMASK = BITMASK 0 PGBITS"

definition pg_ofs :: "u32 \<Rightarrow> u32" where
  "pg_ofs va = va AND PGMASK"

definition pg_no :: "u32 \<Rightarrow> u32" where
  "pg_no va = drop_bit PGBITS va"

definition pg_round_up :: "u32 \<Rightarrow> u32" where
  "pg_round_up va = (va + of_nat PGSIZE - 1) AND NOT PGMASK"

definition pg_round_down :: "u32 \<Rightarrow> u32" where
  "pg_round_down va = va AND NOT PGMASK"

definition PHYS_BASE :: u32 where
  "PHYS_BASE = 0xc0000000"

definition is_user_vaddr :: "u32 \<Rightarrow> bool" where
  "is_user_vaddr vaddr \<longleftrightarrow> vaddr < PHYS_BASE"

definition is_kernel_vaddr :: "u32 \<Rightarrow> bool" where
  "is_kernel_vaddr vaddr \<longleftrightarrow> vaddr \<ge> PHYS_BASE"

definition ptov :: "u32 \<Rightarrow> u32 option" where
  "ptov paddr = do { ASSERT (paddr < PHYS_BASE); Some (paddr + PHYS_BASE) }"

definition vtop :: "u32 \<Rightarrow> u32 option" where
  "vtop vaddr = do { ASSERT (is_kernel_vaddr vaddr); Some (vaddr - PHYS_BASE) }"

lemma PGMASK_mask: "PGMASK = mask 12"
  by (simp add: PGMASK_def BITMASK_def mask_eq_exp_minus_1 push_bit_eq_mult)

lemma unat_pg_ofs: "unat (pg_ofs va) = unat va mod 4096"
  by (simp add: pg_ofs_def PGMASK_mask take_bit_eq_mask [symmetric] take_bit_eq_mod unat_mod)

lemma unat_pg_no: "unat (pg_no va) = unat va div 4096"
  by (simp add: pg_no_def drop_bit_eq_div unat_div)

lemma page_split: "pg_round_down va + pg_ofs va = va"
proof -
  have "(va AND NOT PGMASK) + (va AND PGMASK) = (va AND NOT PGMASK) OR (va AND PGMASK)"
    by (rule disjunctive_add_eq_or) (simp add: bit_eq_iff bit_and_iff bit_not_iff; blast)
  also have "\<dots> = va" by (auto simp: bit_eq_iff bit_or_iff bit_and_iff bit_not_iff)
  finally show ?thesis by (simp add: pg_round_down_def pg_ofs_def)
qed

lemma pg_ofs_round_down [simp]: "pg_ofs (pg_round_down va) = 0"
  by (auto simp: pg_round_down_def pg_ofs_def bit_eq_iff bit_and_iff bit_not_iff)

section \<open>Pools\<close>

definition PAL_ASSERT :: u32 where "PAL_ASSERT = 1"
definition PAL_ZERO :: u32 where "PAL_ZERO = 2"
definition PAL_USER :: u32 where "PAL_USER = 4"

record pool =
  used_map :: bitmap
  base :: u32

record pages =
  kernel_pool :: pool
  user_pool :: pool
  ram :: "u32 \<Rightarrow> u32 list"
  init_ram_pages :: u32

definition get_pool :: "bool \<Rightarrow> pages \<Rightarrow> pool" where
  "get_pool user s = (if user then user_pool s else kernel_pool s)"

definition set_pool :: "bool \<Rightarrow> pool \<Rightarrow> pages \<Rightarrow> pages" where
  "set_pool user p s = (if user then s\<lparr>user_pool := p\<rparr> else s\<lparr>kernel_pool := p\<rparr>)"

text \<open>
  The addresses of \<open>cnt\<close> pages from \<open>pg\<close> on, and \<open>memset (pg, w, n)\<close> on whole pages, with
  the byte repeated four times in \<open>w\<close>.
\<close>

definition page_group :: "u32 \<Rightarrow> nat \<Rightarrow> u32 list" where
  "page_group pg cnt = map (\<lambda>i. pg + of_nat (PGSIZE * i)) [0..<cnt]"

definition memset_pages :: "u32 \<Rightarrow> u32 \<Rightarrow> nat \<Rightarrow> pages \<Rightarrow> pages" where
  "memset_pages pg w n s =
     s\<lparr>ram := (\<lambda>a. if a \<in> set (page_group pg (n div PGSIZE)) then replicate 1024 w else ram s a)\<rparr>"

text \<open>The map of used pages is put into the first pages of the pool, with the words they hold.\<close>

definition init_pool :: "pages \<Rightarrow> u32 \<Rightarrow> nat \<Rightarrow> pool option" where
  "init_pool s bs page_cnt = do {
     let words = concat (map (ram s) (page_group bs page_cnt));
     let bm_pages = DIV_ROUND_UP (bitmap_buf_size page_cnt) PGSIZE;
     ASSERT (bm_pages \<le> page_cnt);
     let page_cnt = page_cnt - bm_pages;
     b \<leftarrow> bitmap_create_in_buf page_cnt words (wrap32 (bm_pages * PGSIZE));
     Some \<lparr>used_map = b, base = bs + of_nat (bm_pages * PGSIZE)\<rparr> }"

definition palloc_init :: "nat \<Rightarrow> pages \<Rightarrow> pages option" where
  "palloc_init user_page_limit s = do {
     free_start \<leftarrow> ptov (1024 * 1024);
     free_end \<leftarrow> ptov (init_ram_pages s * of_nat PGSIZE);
     let free_pages = unat (word_of_int (sint (free_end - free_start) sdiv int PGSIZE) :: u32);
     let user_pages = free_pages div 2;
     let user_pages = (if user_pages > user_page_limit then user_page_limit else user_pages);
     let kernel_pages = free_pages - user_pages;
     kp \<leftarrow> init_pool s free_start kernel_pages;
     up \<leftarrow> init_pool s (free_start + of_nat (kernel_pages * PGSIZE)) user_pages;
     Some (s\<lparr>kernel_pool := kp, user_pool := up\<rparr>) }"

definition palloc_get_multiple :: "u32 \<Rightarrow> nat \<Rightarrow> pages \<Rightarrow> (u32 \<times> pages) option" where
  "palloc_get_multiple flags page_cnt s = do {
     let user = (flags AND PAL_USER \<noteq> 0);
     let pool = get_pool user s;
     if page_cnt = 0 then Some (0, s)
     else do {
       (page_idx, b) \<leftarrow> bitmap_scan_and_flip (used_map pool) 0 page_cnt False;
       let s = set_pool user (pool\<lparr>used_map := b\<rparr>) s;
       let pg = (if page_idx \<noteq> BITMAP_ERROR then base pool + of_nat (PGSIZE * page_idx) else 0);
       if pg \<noteq> 0
       then Some (pg, if flags AND PAL_ZERO \<noteq> 0 then memset_pages pg 0 (wrap32 (PGSIZE * page_cnt)) s else s)
       else do { ASSERT (flags AND PAL_ASSERT = 0); Some (pg, s) } } }"

definition palloc_get_page :: "u32 \<Rightarrow> pages \<Rightarrow> (u32 \<times> pages) option" where
  "palloc_get_page flags s = palloc_get_multiple flags 1 s"

definition page_from_pool :: "pool \<Rightarrow> u32 \<Rightarrow> bool" where
  "page_from_pool p page =
     (let page_no = pg_no page;
          start_page = pg_no (base p);
          end_page = start_page + of_nat (bitmap_size (used_map p))
      in page_no \<ge> start_page \<and> page_no < end_page)"

definition palloc_free_multiple :: "u32 \<Rightarrow> nat \<Rightarrow> pages \<Rightarrow> pages option" where
  "palloc_free_multiple pg page_cnt s = do {
     ASSERT (pg_ofs pg = 0);
     if pg = 0 \<or> page_cnt = 0 then Some s
     else do {
       user \<leftarrow> (if page_from_pool (kernel_pool s) pg then Some False
                else if page_from_pool (user_pool s) pg then Some True else None);
       let pool = get_pool user s;
       let page_idx = unat (pg_no pg - pg_no (base pool));
       let s = memset_pages pg 0xcccccccc (wrap32 (PGSIZE * page_cnt)) s;
       all \<leftarrow> bitmap_all (used_map pool) page_idx page_cnt;
       ASSERT all;
       b \<leftarrow> bitmap_set_multiple (used_map pool) page_idx page_cnt False;
       Some (set_pool user (pool\<lparr>used_map := b\<rparr>) s) } }"

definition palloc_free_page :: "u32 \<Rightarrow> pages \<Rightarrow> pages option" where
  "palloc_free_page page s = palloc_free_multiple page 1 s"

section \<open>The pages in use\<close>

definition page_addr :: "pool \<Rightarrow> nat \<Rightarrow> u32" where
  "page_addr p i = base p + of_nat (PGSIZE * i)"

definition pool_ok :: "pool \<Rightarrow> bool" where
  "pool_ok p \<longleftrightarrow> bitmap_ok (used_map p) \<and> unat (base p) mod 4096 = 0 \<and> 0 < unat (base p) \<and>
     unat (base p) + 4096 * bit_cnt (used_map p) \<le> 2 ^ 32"

definition pool_used :: "pool \<Rightarrow> u32 set" where
  "pool_used p = page_addr p ` {i. i < bit_cnt (used_map p) \<and> bm (used_map p) ! i}"

definition pool_pages :: "pool \<Rightarrow> u32 set" where
  "pool_pages p = page_addr p ` {i. i < bit_cnt (used_map p)}"

definition pages_ok :: "pages \<Rightarrow> bool" where
  "pages_ok s \<longleftrightarrow> pool_ok (kernel_pool s) \<and> pool_ok (user_pool s) \<and>
     pool_pages (kernel_pool s) \<inter> pool_pages (user_pool s) = {}"

definition in_use :: "pages \<Rightarrow> u32 set" where
  "in_use s = pool_used (kernel_pool s) \<union> pool_used (user_pool s)"

lemma unat_page_addr:
  assumes "pool_ok p" "i < bit_cnt (used_map p)"
  shows "unat (page_addr p i) = unat (base p) + 4096 * i"
proof -
  have lt: "unat (base p) + 4096 * i < 2 ^ 32" using assms by (auto simp: pool_ok_def)
  then have "unat (of_nat (4096 * i) :: u32) = 4096 * i" by (simp add: unat_of_nat del: of_nat_mult)
  then show ?thesis using lt by (simp add: page_addr_def unat_word_ariths del: of_nat_mult)
qed

lemma page_addr_inj:
  assumes "pool_ok p" "i < bit_cnt (used_map p)" "j < bit_cnt (used_map p)" "page_addr p i = page_addr p j"
  shows "i = j"
proof -
  have "unat (base p) + 4096 * i = unat (base p) + 4096 * j"
    using unat_page_addr [OF assms(1,2)] unat_page_addr [OF assms(1,3)] assms(4) by (simp only:)
  then show ?thesis by simp
qed

lemma page_addr_facts:
  assumes "pool_ok p" "i < bit_cnt (used_map p)"
  shows "page_addr p i \<noteq> 0" "pg_ofs (page_addr p i) = 0" "unat (pg_no (page_addr p i) - pg_no (base p)) = i"
    "page_from_pool p (page_addr p i)"
proof -
  note u = unat_page_addr [OF assms]
  have b: "unat (base p) mod 4096 = 0" "0 < unat (base p)" "unat (base p) + 4096 * bit_cnt (used_map p) \<le> 2 ^ 32"
    using assms(1) by (auto simp: pool_ok_def)
  show "page_addr p i \<noteq> 0" using u b(2) by auto
  have "unat (pg_ofs (page_addr p i)) = 0" using u b(1) by (simp add: unat_pg_ofs mod_add_eq [symmetric])
  then show "pg_ofs (page_addr p i) = 0" by (simp add: unat_eq_zero)
  obtain q where q: "unat (base p) = 4096 * q" using b(1) by auto
  have n: "unat (pg_no (page_addr p i)) = q + i" "unat (pg_no (base p)) = q" using u q by (simp_all add: unat_pg_no)
  then have le: "pg_no (base p) \<le> pg_no (page_addr p i)" by (simp add: word_le_nat_alt)
  show "unat (pg_no (page_addr p i) - pg_no (base p)) = i" using unat_sub [OF le] n by simp
  have "q + bit_cnt (used_map p) < 2 ^ 32" using b(3) q by simp
  then have "unat (pg_no (base p) + of_nat (bit_cnt (used_map p))) = q + bit_cnt (used_map p)"
    using n(2) by (simp add: unat_word_ariths unat_of_nat)
  then show "page_from_pool p (page_addr p i)"
    using le n assms(2) by (simp add: page_from_pool_def Let_def bitmap_size_def word_less_nat_alt)
qed


lemma page_group_addr:
  "page_group (page_addr p r) cnt = map (\<lambda>k. page_addr p (r + k)) [0..<cnt]"
  by (simp add: page_group_def page_addr_def algebra_simps)

lemma memset_bytes:
  assumes "pool_ok p" "cnt \<le> bit_cnt (used_map p)"
  shows "wrap32 (PGSIZE * cnt) div PGSIZE = cnt"
proof -
  have "4096 * cnt < 2 ^ 32" using assms by (auto simp: pool_ok_def)
  then show ?thesis by simp
qed

lemma memset_pages_pools [simp]:
  "kernel_pool (memset_pages pg w n s) = kernel_pool s" "user_pool (memset_pages pg w n s) = user_pool s"
  "get_pool u (memset_pages pg w n s) = get_pool u s"
  by (simp_all add: memset_pages_def get_pool_def)

lemma set_pool_simps [simp]:
  "get_pool u (set_pool u p s) = p" "get_pool (\<not> u) (set_pool u p s) = get_pool (\<not> u) s"
  "ram (set_pool u p s) = ram s"
  by (simp_all add: set_pool_def get_pool_def)

lemma pages_ok_pool: "pages_ok s \<Longrightarrow> pool_ok (get_pool u s)"
  by (simp add: pages_ok_def get_pool_def)

lemma pool_used_subset: "pool_used p \<subseteq> pool_pages p"
  by (auto simp: pool_used_def pool_pages_def)

lemma in_use_get_pool: "in_use s = pool_used (get_pool u s) \<union> pool_used (get_pool (\<not> u) s)"
  by (auto simp: in_use_def get_pool_def)

lemma pages_ok_get_pool:
  "pages_ok s \<longleftrightarrow> pool_ok (get_pool u s) \<and> pool_ok (get_pool (\<not> u) s) \<and>
     pool_pages (get_pool u s) \<inter> pool_pages (get_pool (\<not> u) s) = {}"
  by (cases u) (auto simp: pages_ok_def get_pool_def)

text \<open>Replacing the map of a pool by one of the same size keeps the invariant.\<close>

lemma pool_ok_map:
  assumes "pool_ok p" "bitmap_ok b" "bit_cnt b = bit_cnt (used_map p)"
  shows "pool_ok (p\<lparr>used_map := b\<rparr>)" "pool_pages (p\<lparr>used_map := b\<rparr>) = pool_pages p"
    "page_addr (p\<lparr>used_map := b\<rparr>) = page_addr p"
  using assms by (simp_all add: pool_ok_def pool_pages_def page_addr_def fun_eq_iff)

lemma pages_ok_set_pool:
  assumes "pages_ok s" "bitmap_ok b" "bit_cnt b = bit_cnt (used_map (get_pool u s))"
  shows "pages_ok (set_pool u (get_pool u s\<lparr>used_map := b\<rparr>) s)"
  using assms pool_ok_map [OF pages_ok_pool [OF assms(1), of u] assms(2,3)]
  by (simp add: pages_ok_get_pool [of _ u])

lemma pages_ok_memset [simp]: "pages_ok (memset_pages pg w n s) = pages_ok s"
  by (simp add: pages_ok_def)

lemma in_use_memset [simp]: "in_use (memset_pages pg w n s) = in_use s"
  by (simp add: in_use_def)

definition group_of :: "pool \<Rightarrow> nat \<Rightarrow> nat \<Rightarrow> u32 set" where
  "group_of p r cnt = set (page_group (page_addr p r) cnt)"

lemma group_of_image: "group_of p r cnt = page_addr p ` {r..<r + cnt}"
proof -
  have "set (page_group (page_addr p r) cnt) = page_addr p ` (+) r ` {0..<cnt}"
    by (simp only: page_group_addr set_map set_upt image_image)
  also have "(+) r ` {0..<cnt} = {r..<r + cnt}"
    by (simp add: image_add_atLeastLessThan add.commute)
  finally show ?thesis by (simp add: group_of_def)
qed

lemma used_fill:
  assumes "pool_ok p" "bm b = fill (bm (used_map p)) r cnt v" "bit_cnt b = bit_cnt (used_map p)"
    "r + cnt \<le> bit_cnt (used_map p)"
  shows "pool_used (p\<lparr>used_map := b\<rparr>) =
    (if v then pool_used p \<union> group_of p r cnt else pool_used p - group_of p r cnt)"
proof -
  have *: "{i. i < bit_cnt b \<and> bm b ! i} =
      (if v then {i. i < bit_cnt (used_map p) \<and> bm (used_map p) ! i} \<union> {r..<r + cnt}
       else {i. i < bit_cnt (used_map p) \<and> bm (used_map p) ! i} - {r..<r + cnt})"
    using assms(2-4) by (auto simp: nth_fill split: if_splits)
  have inj: "inj_on (page_addr p) {i. i < bit_cnt (used_map p)}"
    using page_addr_inj [OF assms(1)] by (auto simp: inj_on_def)
  have "page_addr p ` ({i. i < bit_cnt (used_map p) \<and> bm (used_map p) ! i} - {r..<r + cnt}) =
      page_addr p ` {i. i < bit_cnt (used_map p) \<and> bm (used_map p) ! i} - page_addr p ` {r..<r + cnt}"
    by (rule inj_on_image_set_diff [OF inj]) (use assms(4) in auto)
  with * show ?thesis
    by (simp add: pool_used_def group_of_image image_Un page_addr_def [abs_def])
qed

lemma group_in_pool: "r + cnt \<le> bit_cnt (used_map p) \<Longrightarrow> group_of p r cnt \<subseteq> pool_pages p"
  by (auto simp: group_of_image pool_pages_def)

lemma group_unused:
  assumes "pool_ok p" "bit_run (bm (used_map p)) r cnt False"
  shows "group_of p r cnt \<inter> pool_used p = {}"
  using assms(2) page_addr_inj [OF assms(1)]
  by (auto simp: group_of_image pool_used_def bit_run_def)
    (metis add_diff_inverse_nat add_less_cancel_left less_le_trans not_less)

lemma group_distinct:
  assumes "pool_ok p" "r + cnt \<le> bit_cnt (used_map p)"
  shows "distinct (page_group (page_addr p r) cnt)"
  using page_addr_inj [OF assms(1)] assms(2)
  by (auto simp: page_group_addr distinct_map inj_on_def) (metis add_less_cancel_left add_left_cancel less_le_trans)

section \<open>Allocation and release\<close>

lemma in_use_set_pool:
  "in_use (set_pool u p s) = pool_used p \<union> pool_used (get_pool (\<not> u) s)"
  by (simp add: in_use_get_pool [of _ u])

lemma palloc_get_multiple_got:
  assumes "pages_ok s" "0 < cnt" "u = (flags AND PAL_USER \<noteq> 0)" "p = get_pool u s"
    and got: "bitmap_scan_and_flip (used_map p) 0 cnt False = Some (r, b)" "r \<noteq> BITMAP_ERROR"
  defines "s' \<equiv> set_pool u (p\<lparr>used_map := b\<rparr>) s"
  shows "palloc_get_multiple flags cnt s =
      Some (page_addr p r, if flags AND PAL_ZERO \<noteq> 0
        then memset_pages (page_addr p r) 0 (wrap32 (PGSIZE * cnt)) s' else s')"
    and "pages_ok s'" "in_use s' = in_use s \<union> group_of p r cnt" "group_of p r cnt \<inter> in_use s = {}"
    and "r + cnt \<le> bit_cnt (used_map p)" "bit_run (bm (used_map p)) r cnt False"
    and "bm b = fill (bm (used_map p)) r cnt True" "bitmap_ok b" "bit_cnt b = bit_cnt (used_map p)"
proof -
  have pk: "pool_ok p" and bk: "bitmap_ok (used_map p)" using pages_ok_pool assms(1,4) by (auto simp: pool_ok_def)
  from bk have *: "bitmap_ok b" "bm b = fill (bm (used_map p)) r cnt True" "bit_run (bm (used_map p)) r cnt False"
    by (cases rule: bitmap_alloc.alloc_cases [where cnt = cnt]; use got in simp)+
  then show run: "bit_run (bm (used_map p)) r cnt False" and "bm b = fill (bm (used_map p)) r cnt True" "bitmap_ok b"
    by simp_all
  then show le: "r + cnt \<le> bit_cnt (used_map p)" by (simp add: bit_run_def)
  then have "length (bm b) = length (bm (used_map p))" using *(2) by simp
  then show bc: "bit_cnt b = bit_cnt (used_map p)" by simp
  show "pages_ok s'" unfolding s'_def assms(4)
    by (rule pages_ok_set_pool) (use assms(1,4) * bc in simp_all)
  have fresh: "group_of p r cnt \<inter> pool_used p = {}" by (rule group_unused [OF pk run])
  have other: "group_of p r cnt \<inter> pool_used (get_pool (\<not> u) s) = {}"
    using group_in_pool [OF le] pool_used_subset assms(1,4) unfolding pages_ok_get_pool [of s u] by blast
  show "group_of p r cnt \<inter> in_use s = {}"
    using fresh other assms(4) by (auto simp: in_use_get_pool [of s u])
  show "in_use s' = in_use s \<union> group_of p r cnt"
    using used_fill [OF pk *(2) bc le] assms(4) unfolding s'_def
    by (auto simp: in_use_set_pool in_use_get_pool [of s u])
  have "page_addr p r \<noteq> 0" using page_addr_facts(1) [OF pk, of r] le assms(2) by simp
  then show "palloc_get_multiple flags cnt s =
      Some (page_addr p r, if flags AND PAL_ZERO \<noteq> 0
        then memset_pages (page_addr p r) 0 (wrap32 (PGSIZE * cnt)) s' else s')"
    using assms(2-4) got
    by (simp add: palloc_get_multiple_def Let_def s'_def page_addr_def del: of_nat_mult)
qed

lemma palloc_get_multiple_full:
  assumes "pages_ok s" "0 < cnt" "u = (flags AND PAL_USER \<noteq> 0)" "p = get_pool u s"
    and full: "bitmap_scan_and_flip (used_map p) 0 cnt False = Some (BITMAP_ERROR, b)"
  shows "palloc_get_multiple flags cnt s =
     (if flags AND PAL_ASSERT = 0 then Some (0, set_pool u (p\<lparr>used_map := b\<rparr>) s) else None)"
  using assms by (simp add: palloc_get_multiple_def Let_def)

text \<open>Releasing a run of used pages takes exactly these pages out of use.\<close>

lemma page_from_pool_pages:
  assumes "pool_ok p" "page_from_pool p pg" "pg_ofs pg = 0"
  shows "pg \<in> pool_pages p"
proof -
  let ?n = "bit_cnt (used_map p)"
  have b: "unat (base p) mod 4096 = 0" "unat (base p) + 4096 * ?n \<le> 2 ^ 32"
    using assms(1) by (auto simp: pool_ok_def)
  obtain q where q: "unat (base p) = 4096 * q" using b(1) by auto
  obtain k where k: "unat pg = 4096 * k" using assms(3) unat_pg_ofs [of pg] by (auto simp: mod_eq_0_iff_dvd)
  have "q + ?n < 2 ^ 32" using b(2) q by simp
  then have "unat (pg_no (base p) + of_nat ?n) = q + ?n"
    using q by (simp add: unat_word_ariths unat_of_nat unat_pg_no)
  then have "q \<le> k" "k < q + ?n" using assms(2) k q
    by (simp_all add: page_from_pool_def Let_def bitmap_size_def word_less_nat_alt word_le_nat_alt unat_pg_no)
  then have "unat (page_addr p (k - q)) = unat pg" "k - q < ?n"
    using unat_page_addr [OF assms(1), of "k - q"] q k by simp_all
  then show ?thesis by (auto simp: pool_pages_def word_unat_eq_iff intro!: image_eqI [of pg _ "k - q"])
qed

lemma palloc_free_multiple_run:
  assumes "pages_ok s" "0 < cnt" "p = get_pool u s" "bit_run (bm (used_map p)) r cnt True"
  shows "\<exists>b. palloc_free_multiple (page_addr p r) cnt s =
        Some (set_pool u (p\<lparr>used_map := b\<rparr>)
               (memset_pages (page_addr p r) 0xcccccccc (wrap32 (PGSIZE * cnt)) s)) \<and>
      bitmap_ok b \<and> bit_cnt b = bit_cnt (used_map p) \<and> bm b = fill (bm (used_map p)) r cnt False"
proof -
  have pk: "pool_ok p" and bk: "bitmap_ok (used_map p)" using pages_ok_pool assms(1,3) by (auto simp: pool_ok_def)
  have le: "r + cnt \<le> bit_cnt (used_map p)" using assms(4) by (simp add: bit_run_def)
  then have r: "r < bit_cnt (used_map p)" using assms(2) by simp
  note f = page_addr_facts [OF pk r]
  obtain b where b: "bitmap_all (used_map p) r cnt = Some True" "bitmap_set_multiple (used_map p) r cnt False = Some b"
    "bitmap_ok b" "bm b = fill (bm (used_map p)) r cnt False"
    using bitmap_alloc.release_marked [OF bk assms(4)] by blast
  have "length (bm b) = length (bm (used_map p))" using b(4) le by simp
  then have bc: "bit_cnt b = bit_cnt (used_map p)" by simp
  have "page_addr p r \<in> pool_pages p" using r by (simp add: pool_pages_def)
  then have "\<not> page_from_pool (get_pool (\<not> u) s) (page_addr p r)"
    using page_from_pool_pages [OF pages_ok_pool [OF assms(1), of "\<not> u"] _ f(2)] assms(1,3)
    unfolding pages_ok_get_pool [of s u] by blast
  then have sel: "(if page_from_pool (kernel_pool s) (page_addr p r) then Some False
      else if page_from_pool (user_pool s) (page_addr p r) then Some True else None) = Some u"
    using f(4) assms(3) by (cases u) (simp_all add: get_pool_def)
  have "palloc_free_multiple (page_addr p r) cnt s =
        Some (set_pool u (p\<lparr>used_map := b\<rparr>)
               (memset_pages (page_addr p r) 0xcccccccc (wrap32 (PGSIZE * cnt)) s))"
    unfolding palloc_free_multiple_def sel using f(1-3) assms(2,3) b(1,2) by (simp add: Let_def)
  then show ?thesis using b(3,4) bc by blast
qed

lemma page_addr_end:
  assumes "pool_ok p"
  shows "page_addr p (bit_cnt (used_map p)) \<notin> pool_pages p"
proof
  let ?n = "bit_cnt (used_map p)"
  assume "page_addr p ?n \<in> pool_pages p"
  then obtain j where j: "j < ?n" "page_addr p ?n = page_addr p j" by (auto simp: pool_pages_def)
  have b: "0 < unat (base p)" "unat (base p) + 4096 * ?n \<le> 2 ^ 32" using assms by (auto simp: pool_ok_def)
  have "unat (page_addr p ?n) = (unat (base p) + 4096 * ?n) mod 2 ^ 32"
    by (simp add: page_addr_def unat_word_ariths unat_of_nat mod_simps del: of_nat_mult)
  also have "\<dots> \<noteq> unat (base p) + 4096 * j"
    using b j(1) by (cases "unat (base p) + 4096 * ?n = 2 ^ 32") simp_all
  finally show False using unat_page_addr [OF assms j(1)] j(2) by simp
qed

lemma group_run:
  assumes "pool_ok p" "0 < cnt" "set (page_group a cnt) \<subseteq> pool_pages p"
  obtains r where "a = page_addr p r" "r + cnt \<le> bit_cnt (used_map p)"
proof -
  let ?n = "bit_cnt (used_map p)"
  have "a \<in> set (page_group a cnt)" using assms(2) by (auto simp: page_group_def intro!: image_eqI [of _ _ 0])
  then obtain r where r: "a = page_addr p r" "r < ?n" using assms(3) by (auto simp: pool_pages_def)
  have "r + cnt \<le> ?n"
  proof (rule ccontr)
    assume "\<not> r + cnt \<le> ?n"
    then have "page_addr p ?n \<in> group_of p r cnt" using r by (auto simp: group_of_image)
    then show False using assms(3) r(1) page_addr_end [OF assms(1)] by (auto simp: group_of_def)
  qed
  then show thesis using r(1) by (intro that)
qed

lemma no_run_no_group:
  assumes "pool_ok p" "0 < cnt" "\<forall>j. \<not> bit_run (bm (used_map p)) j cnt False"
    "set (page_group a cnt) \<subseteq> pool_pages p"
  shows "set (page_group a cnt) \<inter> pool_used p \<noteq> {}"
proof -
  obtain r where r: "a = page_addr p r" "r + cnt \<le> bit_cnt (used_map p)"
    using group_run [OF assms(1,2,4)] by blast
  with assms(3) obtain k where k: "k < cnt" "bm (used_map p) ! (r + k)" by (auto simp: bit_run_def)
  then have "page_addr p (r + k) \<in> group_of p r cnt" "page_addr p (r + k) \<in> pool_used p"
    using r by (auto simp: group_of_image pool_used_def)
  then show ?thesis using r(1) by (auto simp: group_of_def)
qed

lemma pool_used_same:
  "bm b = bm (used_map p) \<Longrightarrow> bit_cnt b = bit_cnt (used_map p) \<Longrightarrow> pool_used (p\<lparr>used_map := b\<rparr>) = pool_used p"
  by (simp add: pool_used_def page_addr_def [abs_def])

lemma ram_memset_pages:
  "pool_ok p \<Longrightarrow> r + cnt \<le> bit_cnt (used_map p) \<Longrightarrow>
   ram (memset_pages (page_addr p r) w (wrap32 (PGSIZE * cnt)) s) a =
     (if a \<in> group_of p r cnt then replicate 1024 w else ram s a)"
  using memset_bytes [of p cnt] by (simp add: memset_pages_def group_of_def)

definition fresh_group :: "u32 \<Rightarrow> nat \<Rightarrow> u32 \<Rightarrow> pages \<Rightarrow> pages \<Rightarrow> bool" where
  "fresh_group flags cnt pg s s' \<longleftrightarrow> (let G = set (page_group pg cnt); p = get_pool (flags AND PAL_USER \<noteq> 0) s in
     distinct (page_group pg cnt) \<and> G \<subseteq> pool_pages p - in_use s \<and> in_use s' = in_use s \<union> G \<and>
     (\<forall>a. a \<notin> G \<longrightarrow> ram s' a = ram s a) \<and>
     (flags AND PAL_ZERO \<noteq> 0 \<longrightarrow> (\<forall>a\<in>G. ram s' a = replicate 1024 0)))"

definition no_group :: "u32 \<Rightarrow> nat \<Rightarrow> pages \<Rightarrow> bool" where
  "no_group flags cnt s \<longleftrightarrow> (\<forall>a. set (page_group a cnt) \<subseteq> pool_pages (get_pool (flags AND PAL_USER \<noteq> 0) s) \<longrightarrow>
     set (page_group a cnt) \<inter> in_use s \<noteq> {})"

text \<open>A concrete state for the instances below: two pools of four pages.\<close>

definition demo_pages :: pages where
  "demo_pages = \<lparr>kernel_pool = \<lparr>used_map = \<lparr>bit_cnt = 4, bits = [5]\<rparr>, base = 0xc0101000\<rparr>,
     user_pool = \<lparr>used_map = \<lparr>bit_cnt = 4, bits = [0]\<rparr>, base = 0xc0200000\<rparr>,
     ram = (\<lambda>_. replicate 1024 7), init_ram_pages = 1024\<rparr>"

lemma pools_disjoint:
  assumes "pool_ok p" "pool_ok q" "unat (base p) + 4096 * bit_cnt (used_map p) \<le> unat (base q)"
  shows "pool_pages p \<inter> pool_pages q = {}"
proof -
  have "page_addr p i \<noteq> page_addr q j" if "i < bit_cnt (used_map p)" "j < bit_cnt (used_map q)" for i j
  proof
    assume "page_addr p i = page_addr q j"
    then have "unat (base p) + 4096 * i = unat (base q) + 4096 * j"
      using unat_page_addr [OF assms(1) that(1)] unat_page_addr [OF assms(2) that(2)] by (simp only:)
    with that(1) assms(3) show False by linarith
  qed
  then show ?thesis by (auto simp: pool_pages_def)
qed

lemma demo_pages_ok: "pages_ok demo_pages"
proof -
  have "pool_ok (kernel_pool demo_pages)" "pool_ok (user_pool demo_pages)"
    by (simp_all add: demo_pages_def pool_ok_def bitmap_ok_def elem_cnt_eq)
  moreover from this have "pool_pages (kernel_pool demo_pages) \<inter> pool_pages (user_pool demo_pages) = {}"
    by (rule pools_disjoint) (simp add: demo_pages_def)
  ultimately show ?thesis by (simp add: pages_ok_def)
qed

lemma demo_scan:
  "bitmap_scan_and_flip (used_map (user_pool demo_pages)) 0 2 False = Some (0, \<lparr>bit_cnt = 4, bits = [3]\<rparr>)"
  by (simp add: demo_pages_def bitmap_scan_and_flip_def bitmap_scan_def scan_loop.simps bitmap_contains_def
      contains_loop.simps bitmap_test_def bitmap_set_multiple_def for_loop.simps bitmap_set_def
      bitmap_mark_def elem_idx_def bit_mask_def ELEM_BITS_def BITMAP_ERROR_def SIZE_MAX_def)

lemma palloc_get_cases:
  assumes "pages_ok s" "0 < cnt" "flags AND PAL_ASSERT = 0"
  shows "\<exists>pg s'. palloc_get_multiple flags cnt s = Some (pg, s') \<and> pages_ok s' \<and>
    (if pg = 0 then in_use s' = in_use s \<and> ram s' = ram s \<and> no_group flags cnt s
     else fresh_group flags cnt pg s s')"
proof -
  define u where "u = (flags AND PAL_USER \<noteq> 0)"
  define p where "p = get_pool u s"
  have pk: "pool_ok p" unfolding p_def by (rule pages_ok_pool [OF assms(1)])
  then have "bitmap_ok (used_map p)" by (simp add: pool_ok_def)
  then show ?thesis
  proof (cases rule: bitmap_alloc.alloc_cases [where cnt = cnt])
    case (full b)
    let ?s = "set_pool u (p\<lparr>used_map := b\<rparr>) s"
    have "length (bm b) = length (bm (used_map p))" using full(3) by simp
    then have bc: "bit_cnt b = bit_cnt (used_map p)" by simp
    have "pages_ok ?s" unfolding p_def by (rule pages_ok_set_pool) (use assms(1) full(2) bc p_def in simp_all)
    moreover have "in_use ?s = in_use s" using pool_used_same [OF full(3) bc]
      by (simp add: in_use_set_pool in_use_get_pool [of s u] p_def)
    moreover have "no_group flags cnt s"
      using no_run_no_group [OF pk assms(2) full(4)] by (fastforce simp: no_group_def in_use_get_pool [of s u] p_def u_def)
    ultimately show ?thesis
      using palloc_get_multiple_full [OF assms(1,2) u_def p_def full(1)] assms(3) by simp
  next
    case (got r b)
    note g = palloc_get_multiple_got [OF assms(1,2) u_def p_def got(1,2)]
    have "page_addr p r \<noteq> 0" using page_addr_facts(1) [OF pk, of r] g(5) assms(2) by simp
    moreover have "set (page_group (page_addr p r) cnt) = group_of p r cnt" by (simp add: group_of_def)
    ultimately show ?thesis
      using g(1-4) group_distinct [OF pk g(5)] group_in_pool [OF g(5)] ram_memset_pages [OF pk g(5)]
      by (auto simp: fresh_group_def Let_def p_def u_def)
  qed
qed

text \<open>C29: \<open>palloc_get_multiple\<close> without \<open>PAL_ASSERT\<close> either returns the address of a group of
  contiguous pages of the pool that the flags select, none of which was in use, marks exactly
  these pages as used, clears them when \<open>PAL_ZERO\<close> is set and changes no other page; or it returns
  \<open>NULL\<close>, changes nothing that is in use, and then every group of that many contiguous pages of
  the pool has a page in use.\<close>

theorem palloc_get_multiple_fresh:
  assumes "pages_ok s" "0 < cnt" "flags AND PAL_ASSERT = 0"
  shows "\<exists>pg s'. palloc_get_multiple flags cnt s = Some (pg, s') \<and> pages_ok s' \<and>
    (if pg = 0 then in_use s' = in_use s \<and> ram s' = ram s \<and> no_group flags cnt s
     else fresh_group flags cnt pg s s')"
  using assms by (rule palloc_get_cases)

theorem palloc_get_multiple_fresh_witness:
  "\<exists>pg s'. palloc_get_multiple (PAL_USER OR PAL_ZERO) 2 demo_pages = Some (pg, s') \<and> pages_ok s' \<and>
    (if pg = 0 then in_use s' = in_use demo_pages \<and> ram s' = ram demo_pages \<and>
         no_group (PAL_USER OR PAL_ZERO) 2 demo_pages
     else fresh_group (PAL_USER OR PAL_ZERO) 2 pg demo_pages s')"
  by (rule palloc_get_multiple_fresh [OF demo_pages_ok]) (simp_all add: PAL_USER_def PAL_ZERO_def PAL_ASSERT_def)

text \<open>C30: releasing the pages that \<open>palloc_get_multiple\<close> has returned gives the pages in use
  before the allocation back, and only the released pages have been overwritten.\<close>

theorem palloc_get_free:
  assumes "pages_ok s" "palloc_get_multiple flags cnt s = Some (pg, s')" "pg \<noteq> 0"
  shows "\<exists>s''. palloc_free_multiple pg cnt s' = Some s'' \<and> pages_ok s'' \<and> in_use s'' = in_use s \<and>
    (\<forall>a. a \<notin> set (page_group pg cnt) \<longrightarrow> ram s'' a = ram s a)"
proof -
  define u where "u = (flags AND PAL_USER \<noteq> 0)"
  define p where "p = get_pool u s"
  have pk: "pool_ok p" unfolding p_def by (rule pages_ok_pool [OF assms(1)])
  have cnt: "0 < cnt" using assms(2,3) by (cases cnt) (simp_all add: palloc_get_multiple_def Let_def)
  have bk: "bitmap_ok (used_map p)" using pk by (simp add: pool_ok_def)
  then show ?thesis
  proof (cases rule: bitmap_alloc.alloc_cases [where cnt = cnt])
    case (full b)
    then show ?thesis
      using palloc_get_multiple_full [OF assms(1) cnt u_def p_def full(1)] assms(2,3) by (simp split: if_splits)
  next
    case (got r b)
    define q where "q = p\<lparr>used_map := b\<rparr>"
    note g = palloc_get_multiple_got [OF assms(1) cnt u_def p_def got(1,2)]
    have pg: "pg = page_addr p r" "page_addr q = page_addr p" "group_of q = group_of p"
      using g(1) assms(2) by (simp_all add: q_def page_addr_def [abs_def] group_of_def [abs_def])
    have s': "pages_ok s'" "get_pool u s' = q" "get_pool (\<not> u) s' = get_pool (\<not> u) s"
        "a \<notin> group_of p r cnt \<Longrightarrow> ram s' a = ram s a" "in_use s' = in_use s \<union> group_of p r cnt" for a
      using g(1-3) assms(2) ram_memset_pages [OF pk g(5)] by (auto simp: q_def split: if_splits)
    have run: "bit_run (bm (used_map q)) r cnt True" using g(5-9) by (simp add: q_def bit_run_def nth_fill)
    obtain b' where b': "palloc_free_multiple (page_addr q r) cnt s' =
        Some (set_pool u (q\<lparr>used_map := b'\<rparr>) (memset_pages (page_addr q r) 0xcccccccc (wrap32 (PGSIZE * cnt)) s'))"
      "bitmap_ok b'" "bit_cnt b' = bit_cnt (used_map q)" "bm b' = fill (bm (used_map q)) r cnt False"
      using palloc_free_multiple_run [OF s'(1) cnt s'(2) [symmetric] run] by blast
    have qk: "pool_ok q" using pages_ok_pool [OF s'(1), of u] s'(2) by simp
    have le: "r + cnt \<le> bit_cnt (used_map q)" using g(5,9) by (simp add: q_def)
    let ?s = "set_pool u (q\<lparr>used_map := b'\<rparr>) (memset_pages (page_addr q r) 0xcccccccc (wrap32 (PGSIZE * cnt)) s')"
    have "pages_ok ?s"
      using pages_ok_set_pool [of "memset_pages (page_addr q r) 0xcccccccc (wrap32 (PGSIZE * cnt)) s'" b' u] s'(1,2) b'(2,3) by simp
    moreover have "in_use ?s = in_use s"
      using used_fill [OF qk b'(4,3) le] s'(2,3,5) g(4) group_in_pool [OF le] pool_used_subset s'(1)
      unfolding in_use_set_pool in_use_get_pool [of _ u] pages_ok_get_pool [of _ u] by (simp add: pg(3)) blast
    ultimately show ?thesis
      using b'(1) s'(4) ram_memset_pages [OF qk le] pg by (simp add: group_of_def)
  qed
qed

theorem palloc_get_free_witness:
  "\<exists>pg s' s''. palloc_get_multiple PAL_USER 2 demo_pages = Some (pg, s') \<and> pg = 0xc0200000 \<and>
    palloc_free_multiple pg 2 s' = Some s'' \<and> pages_ok s'' \<and> in_use s'' = in_use demo_pages"
proof -
  have "get_pool True demo_pages = user_pool demo_pages" by (simp add: get_pool_def)
  then obtain s' where "palloc_get_multiple PAL_USER 2 demo_pages = Some (0xc0200000, s')"
    using demo_scan
    by (simp add: palloc_get_multiple_def Let_def PAL_USER_def PAL_ZERO_def BITMAP_ERROR_def SIZE_MAX_def)
      (simp add: demo_pages_def)
  from palloc_get_free [OF demo_pages_ok this] this show ?thesis by auto
qed

section \<open>Initialization\<close>

lemma bm_pages_bounds:
  assumes "0 < n" "n \<le> 1048576"
  shows "0 < DIV_ROUND_UP (bitmap_buf_size n) PGSIZE" "DIV_ROUND_UP (bitmap_buf_size n) PGSIZE \<le> n"
    "bitmap_buf_size (n - DIV_ROUND_UP (bitmap_buf_size n) PGSIZE) \<le> DIV_ROUND_UP (bitmap_buf_size n) PGSIZE * PGSIZE"
proof -
  let ?f = "\<lambda>n::nat. 8 + 4 * ((n + 31) div 32)"
  have f: "bitmap_buf_size m = ?f m" if "m \<le> 1048576" for m
    using that by (simp add: bitmap_buf_size_def byte_cnt_def elem_cnt_eq)
  have d: "DIV_ROUND_UP (bitmap_buf_size n) PGSIZE = (?f n + 4095) div 4096"
    using assms(2) f [OF assms(2)] by (simp add: DIV_ROUND_UP_def)
  show "0 < DIV_ROUND_UP (bitmap_buf_size n) PGSIZE" unfolding d by simp
  show "DIV_ROUND_UP (bitmap_buf_size n) PGSIZE \<le> n" 
  proof -
    have "(n + 31) div 32 \<le> n" using assms(1) by linarith
    then have "?f n + 4095 < Suc n * 4096" using assms(1) by simp
    then have "(?f n + 4095) div 4096 < Suc n" by (simp add: div_less_iff_less_mult)
    then show ?thesis unfolding d by simp
  qed
  define k where "k = (?f n + 4095) div 4096"
  have "bitmap_buf_size (n - k) = ?f (n - k)" using f [of "n - k"] assms(2) by simp
  also have "\<dots> \<le> ?f n" by (simp add: div_le_mono)
  also have "\<dots> \<le> k * 4096" unfolding k_def
    using div_mult_mod_eq [of "?f n + 4095" 4096] mod_less_divisor [of 4096 "?f n + 4095"] by linarith
  finally show "bitmap_buf_size (n - DIV_ROUND_UP (bitmap_buf_size n) PGSIZE) \<le>
      DIV_ROUND_UP (bitmap_buf_size n) PGSIZE * PGSIZE"
    using d unfolding k_def [symmetric] by (simp only: PGSIZE_def)
qed

lemma length_pool_words:
  "\<forall>a. length (ram s a) = 1024 \<Longrightarrow> length (concat (map (ram s) as)) = 1024 * length as"
  by (induction as) simp_all

lemma init_pool_ok:
  assumes "0 < n" "unat bs mod 4096 = 0" "0 < unat bs" "unat bs + 4096 * n < 2 ^ 32"
    and ram: "\<forall>a. length (ram s a) = 1024"
  shows "\<exists>p. init_pool s bs n = Some p \<and> pool_ok p \<and> pool_used p = {} \<and> bit_cnt (used_map p) < n \<and>
    unat bs < unat (base p) \<and> unat (base p) + 4096 * bit_cnt (used_map p) = unat bs + 4096 * n"
proof -
  have n: "n < 1048576" using assms(3,4) by simp
  define k where "k = DIV_ROUND_UP (bitmap_buf_size n) PGSIZE"
  note k = bm_pages_bounds [OF assms(1) less_imp_le [OF n], folded k_def]
  let ?words = "concat (map (ram s) (page_group bs n))"
  have len: "length ?words = 1024 * n" unfolding length_pool_words [OF ram] by (simp add: page_group_def)
  let ?b = "\<lparr>bit_cnt = n - k, bits = drop 2 ?words\<rparr>"
  have "(n - k + 31) div 32 \<le> n" using assms(1) by linarith
  then have "(n - k + 31) div 32 \<le> length ?words - 2" using assms(1) unfolding len by linarith
  then have b: "bitmap_ok ?b" using n by (simp add: bitmap_ok_def elem_cnt_eq)
  obtain b' where b': "bitmap_set_all ?b False = Some b'" "bitmap_ok b'" "bit_cnt b' = n - k"
      "bm b' = replicate (n - k) False"
    using bitmap_set_all_bm [OF b, of False] by (auto simp: bm_result_def)
  have "wrap32 (k * PGSIZE) = k * PGSIZE" using k(2) n by simp
  then have "init_pool s bs n = Some \<lparr>used_map = b', base = bs + of_nat (k * PGSIZE)\<rparr>"
    using k(2,3) b'(1) unfolding init_pool_def Let_def k_def [symmetric]
    by (simp add: bitmap_create_in_buf_def del: of_nat_mult)
  moreover have un: "unat (bs + of_nat (k * PGSIZE)) = unat bs + 4096 * k"
    using assms(3,4) k(2) n by (simp add: unat_word_ariths unat_of_nat del: of_nat_mult)
  moreover have "4096 * k + 4096 * (n - k) = 4096 * n" using k(2) by linarith
  ultimately show ?thesis
    using b'(2-4) k(1,2) assms by (simp add: pool_ok_def pool_used_def mod_add_eq [symmetric] del: of_nat_mult)
qed

lemma free_page_count:
  assumes "256 \<le> unat n" "unat n < 0x40000"
  shows "ptov (n * of_nat PGSIZE) = Some (n * 4096 + PHYS_BASE)"
    "unat (word_of_int (sint (n * 4096 + PHYS_BASE - (0x100000 + PHYS_BASE)) sdiv int PGSIZE) :: u32) = unat n - 256"
proof -
  have u: "unat (n * 4096) = unat n * 4096" using assms by (simp add: unat_word_ariths)
  show "ptov (n * of_nat PGSIZE) = Some (n * 4096 + PHYS_BASE)"
    using u assms by (simp add: ptov_def PHYS_BASE_def word_less_nat_alt)
  have "0x100000 \<le> n * 4096" using u assms by (simp add: word_le_nat_alt)
  then have d: "unat (n * 4096 - 0x100000) = (unat n - 256) * 4096" using u by (simp add: unat_sub)
  then have ui: "uint (n * 4096 - 0x100000) = int ((unat n - 256) * 4096)" by (simp only: uint_nat)
  have "(unat n - 256) * 4096 < 2 ^ 31" using assms(2) by simp
  then have "signed_take_bit 31 (int ((unat n - 256) * 4096)) = int ((unat n - 256) * 4096)"
    by (intro signed_take_bit_int_eq_self) simp_all
  then have "sint (n * 4096 - 0x100000) = int ((unat n - 256) * 4096)"
    by (simp add: sint_uint ui del: of_nat_mult)
  moreover have "int (m * 4096) sdiv int PGSIZE = int m" for m
    by (cases "m = 0") (simp_all add: signed_divide_int_def sgn_mult)
  ultimately have "sint (n * 4096 - 0x100000) sdiv int PGSIZE = int (unat n - 256)" by (simp only:)
  then show "unat (word_of_int (sint (n * 4096 + PHYS_BASE - (0x100000 + PHYS_BASE)) sdiv int PGSIZE) :: u32) = unat n - 256"
    using assms by (simp add: unat_sub word_le_nat_alt)
qed



end
