(* ===== verification/Pagedir.thy ===== *)
theory Pagedir
  imports Palloc
begin

text \<open>
  \<open>threads/pte.h\<close> and \<open>userprog/pagedir.c\<close>: page tables.

  A pointer to an entry is the address of its page and the index of the word in it.  The
  processor is its register \<open>cr3\<close> and the set of virtual pages whose translation it holds in
  the translation lookaside buffer; loading \<open>cr3\<close> empties the buffer.
\<close>

section \<open>Entries\<close>

definition PTSHIFT :: nat where [simp]: "PTSHIFT = PGBITS"
definition PTBITS :: nat where [simp]: "PTBITS = 10"
definition PTMASK :: u32 where "PTMASK = BITMASK PTSHIFT PTBITS"
definition PDSHIFT :: nat where [simp]: "PDSHIFT = PTSHIFT + PTBITS"

definition pt_no :: "u32 \<Rightarrow> u32" where
  "pt_no va = drop_bit PTSHIFT (va AND PTMASK)"

definition pd_no :: "u32 \<Rightarrow> u32" where
  "pd_no va = drop_bit PDSHIFT va"

definition PTE_FLAGS :: u32 where "PTE_FLAGS = 0x00000fff"
definition PTE_ADDR :: u32 where "PTE_ADDR = 0xfffff000"
definition PTE_P :: u32 where "PTE_P = 0x1"
definition PTE_W :: u32 where "PTE_W = 0x2"
definition PTE_U :: u32 where "PTE_U = 0x4"
definition PTE_A :: u32 where "PTE_A = 0x20"
definition PTE_D :: u32 where "PTE_D = 0x40"

definition pde_create :: "u32 \<Rightarrow> u32 option" where
  "pde_create pt = do {
     ASSERT (pg_ofs pt = 0);
     p \<leftarrow> vtop pt;
     Some (p OR PTE_U OR PTE_P OR PTE_W) }"

definition pde_get_pt :: "u32 \<Rightarrow> u32 option" where
  "pde_get_pt pde = do {
     ASSERT (pde AND PTE_P \<noteq> 0);
     ptov (pde AND PTE_ADDR) }"

definition pte_create_kernel :: "u32 \<Rightarrow> bool \<Rightarrow> u32 option" where
  "pte_create_kernel page writable = do {
     ASSERT (pg_ofs page = 0);
     p \<leftarrow> vtop page;
     Some (p OR PTE_P OR (if writable then PTE_W else 0)) }"

definition pte_create_user :: "u32 \<Rightarrow> bool \<Rightarrow> u32 option" where
  "pte_create_user page writable = do {
     p \<leftarrow> pte_create_kernel page writable;
     Some (p OR PTE_U) }"

definition pte_get_page :: "u32 \<Rightarrow> u32 option" where
  "pte_get_page pte = ptov (pte AND PTE_ADDR)"

section \<open>Page directories\<close>

record vm =
  mem :: pages
  init_page_dir :: u32
  cr3 :: u32
  tlb :: "u32 set"

type_synonym entry = "u32 \<times> nat"

definition load_word :: "vm \<Rightarrow> entry \<Rightarrow> u32 option" where
  "load_word s e = (let page = ram (mem s) (fst e) in if snd e < length page then Some (page ! snd e) else None)"

definition store_word :: "entry \<Rightarrow> u32 \<Rightarrow> vm \<Rightarrow> vm option" where
  "store_word e w s = (let page = ram (mem s) (fst e) in
     if snd e < length page
     then Some (s\<lparr>mem := (mem s)\<lparr>ram := (ram (mem s))(fst e := page[snd e := w])\<rparr>\<rparr>) else None)"

definition vm_get_page :: "u32 \<Rightarrow> vm \<Rightarrow> (u32 \<times> vm) option" where
  "vm_get_page flags s = map_option (\<lambda>(pg, m). (pg, s\<lparr>mem := m\<rparr>)) (palloc_get_page flags (mem s))"

definition vm_free_page :: "u32 \<Rightarrow> vm \<Rightarrow> vm option" where
  "vm_free_page pg s = map_option (\<lambda>m. s\<lparr>mem := m\<rparr>) (palloc_free_page pg (mem s))"

definition pagedir_activate :: "u32 \<Rightarrow> vm \<Rightarrow> vm option" where
  "pagedir_activate pd s = do {
     p \<leftarrow> vtop (if pd = 0 then init_page_dir s else pd);
     Some (s\<lparr>cr3 := p, tlb := {}\<rparr>) }"

definition active_pd :: "vm \<Rightarrow> u32 option" where
  "active_pd s = ptov (cr3 s)"

definition invalidate_pagedir :: "u32 \<Rightarrow> vm \<Rightarrow> vm option" where
  "invalidate_pagedir pd s = do {
     a \<leftarrow> active_pd s;
     if a = pd then pagedir_activate pd s else Some s }"

definition pagedir_create :: "vm \<Rightarrow> (u32 \<times> vm) option" where
  "pagedir_create s = do {
     (pd, s) \<leftarrow> vm_get_page 0 s;
     if pd \<noteq> 0
     then Some (pd, s\<lparr>mem := (mem s)\<lparr>ram := (ram (mem s))(pd := ram (mem s) (init_page_dir s))\<rparr>\<rparr>)
     else Some (pd, s) }"

fun destroy_entries :: "u32 \<Rightarrow> nat list \<Rightarrow> vm \<Rightarrow> vm option" where
  "destroy_entries pt [] s = Some s"
| "destroy_entries pt (i # is) s = do {
     pte \<leftarrow> load_word s (pt, i);
     s \<leftarrow> (if pte AND PTE_P \<noteq> 0
           then do { page \<leftarrow> pte_get_page pte; vm_free_page page s }
           else Some s);
     destroy_entries pt is s }"

fun destroy_tables :: "u32 \<Rightarrow> nat list \<Rightarrow> vm \<Rightarrow> vm option" where
  "destroy_tables pd [] s = Some s"
| "destroy_tables pd (i # is) s = do {
     pde \<leftarrow> load_word s (pd, i);
     s \<leftarrow> (if pde AND PTE_P \<noteq> 0
           then do {
             pt \<leftarrow> pde_get_pt pde;
             s \<leftarrow> destroy_entries pt [0..<PGSIZE div 4] s;
             vm_free_page pt s }
           else Some s);
     destroy_tables pd is s }"

definition pagedir_destroy :: "u32 \<Rightarrow> vm \<Rightarrow> vm option" where
  "pagedir_destroy pd s =
     (if pd = 0 then Some s
      else do {
        ASSERT (pd \<noteq> init_page_dir s);
        s \<leftarrow> destroy_tables pd [0..<unat (pd_no PHYS_BASE)] s;
        vm_free_page pd s })"

definition lookup_page :: "u32 \<Rightarrow> u32 \<Rightarrow> bool \<Rightarrow> vm \<Rightarrow> (entry option \<times> vm) option" where
  "lookup_page pd vaddr create s = do {
     ASSERT (pd \<noteq> 0);
     ASSERT (\<not> create \<or> is_user_vaddr vaddr);
     let pde = (pd, unat (pd_no vaddr));
     e \<leftarrow> load_word s pde;
     (ok, s) \<leftarrow>
       (if e = 0
        then if create
          then do {
            (pt, s) \<leftarrow> vm_get_page PAL_ZERO s;
            if pt = 0 then Some (False, s)
            else do {
              w \<leftarrow> pde_create pt;
              s \<leftarrow> store_word pde w s;
              Some (True, s) } }
          else Some (False, s)
        else Some (True, s));
     if \<not> ok then Some (None, s)
     else do {
       e \<leftarrow> load_word s pde;
       pt \<leftarrow> pde_get_pt e;
       Some (Some (pt, unat (pt_no vaddr)), s) } }"

definition pagedir_set_page :: "u32 \<Rightarrow> u32 \<Rightarrow> u32 \<Rightarrow> bool \<Rightarrow> vm \<Rightarrow> (bool \<times> vm) option" where
  "pagedir_set_page pd upage kpage writable s = do {
     ASSERT (pg_ofs upage = 0);
     ASSERT (pg_ofs kpage = 0);
     ASSERT (is_user_vaddr upage);
     p \<leftarrow> vtop kpage;
     ASSERT (drop_bit PTSHIFT p < init_ram_pages (mem s));
     ASSERT (pd \<noteq> init_page_dir s);
     (r, s) \<leftarrow> lookup_page pd upage True s;
     case r of
       Some pte \<Rightarrow> do {
         e \<leftarrow> load_word s pte;
         ASSERT (e AND PTE_P = 0);
         w \<leftarrow> pte_create_user kpage writable;
         s \<leftarrow> store_word pte w s;
         Some (True, s) }
     | None \<Rightarrow> Some (False, s) }"

definition pagedir_get_page :: "u32 \<Rightarrow> u32 \<Rightarrow> vm \<Rightarrow> u32 option" where
  "pagedir_get_page pd uaddr s = do {
     ASSERT (is_user_vaddr uaddr);
     (r, s) \<leftarrow> lookup_page pd uaddr False s;
     case r of
       Some pte \<Rightarrow> do {
         e \<leftarrow> load_word s pte;
         if e AND PTE_P \<noteq> 0
         then do { page \<leftarrow> pte_get_page e; Some (page + pg_ofs uaddr) }
         else Some 0 }
     | None \<Rightarrow> Some 0 }"

definition pagedir_clear_page :: "u32 \<Rightarrow> u32 \<Rightarrow> vm \<Rightarrow> vm option" where
  "pagedir_clear_page pd upage s = do {
     ASSERT (pg_ofs upage = 0);
     ASSERT (is_user_vaddr upage);
     (r, s) \<leftarrow> lookup_page pd upage False s;
     case r of
       Some pte \<Rightarrow> do {
         e \<leftarrow> load_word s pte;
         if e AND PTE_P \<noteq> 0
         then do { s \<leftarrow> store_word pte (e AND NOT PTE_P) s; invalidate_pagedir pd s }
         else Some s }
     | None \<Rightarrow> Some s }"

text \<open>The dirty and the accessed bit are read and written in the same way.\<close>

definition is_bit :: "u32 \<Rightarrow> u32 \<Rightarrow> u32 \<Rightarrow> vm \<Rightarrow> bool option" where
  "is_bit flag pd vpage s = do {
     (r, s) \<leftarrow> lookup_page pd vpage False s;
     case r of
       Some pte \<Rightarrow> do { e \<leftarrow> load_word s pte; Some (e AND flag \<noteq> 0) }
     | None \<Rightarrow> Some False }"

definition set_bit_of :: "u32 \<Rightarrow> u32 \<Rightarrow> u32 \<Rightarrow> bool \<Rightarrow> vm \<Rightarrow> vm option" where
  "set_bit_of flag pd vpage on s = do {
     (r, s) \<leftarrow> lookup_page pd vpage False s;
     case r of
       Some pte \<Rightarrow> do {
         e \<leftarrow> load_word s pte;
         if on then store_word pte (e OR flag) s
         else do { s \<leftarrow> store_word pte (e AND NOT flag) s; invalidate_pagedir pd s } }
     | None \<Rightarrow> Some s }"

definition pagedir_is_dirty :: "u32 \<Rightarrow> u32 \<Rightarrow> vm \<Rightarrow> bool option" where
  "pagedir_is_dirty pd vpage s = is_bit PTE_D pd vpage s"

definition pagedir_set_dirty :: "u32 \<Rightarrow> u32 \<Rightarrow> bool \<Rightarrow> vm \<Rightarrow> vm option" where
  "pagedir_set_dirty pd vpage dirty s = set_bit_of PTE_D pd vpage dirty s"

definition pagedir_is_accessed :: "u32 \<Rightarrow> u32 \<Rightarrow> vm \<Rightarrow> bool option" where
  "pagedir_is_accessed pd vpage s = is_bit PTE_A pd vpage s"

definition pagedir_set_accessed :: "u32 \<Rightarrow> u32 \<Rightarrow> bool \<Rightarrow> vm \<Rightarrow> vm option" where
  "pagedir_set_accessed pd vpage accessed s = set_bit_of PTE_A pd vpage accessed s"

section \<open>Addresses and entries\<close>

lemma unat_pd_no: "unat (pd_no va) = unat va div 4194304"
  by (simp add: pd_no_def drop_bit_eq_div unat_div)

lemma PTMASK_eq: "PTMASK = push_bit 12 (mask 10)"
  by (simp add: PTMASK_def BITMASK_def mask_eq_exp_minus_1 push_bit_eq_mult)

lemma pt_no_eq: "pt_no va = take_bit 10 (drop_bit 12 va)"
  by (rule bit_word_eqI)
    (auto simp: pt_no_def PTMASK_eq bit_drop_bit_eq bit_and_iff bit_push_bit_iff bit_mask_iff bit_take_bit_iff
      dest: bit_imp_le_length)

lemma unat_pt_no: "unat (pt_no va) = unat va div 4096 mod 1024"
  by (simp add: pt_no_eq take_bit_eq_mod drop_bit_eq_div unat_div unat_mod)

lemma pt_no_less [simp]: "unat (pt_no va) < 1024"
  by (simp add: unat_pt_no)

lemma user_pd_no: "is_user_vaddr va \<Longrightarrow> unat (pd_no va) < 768"
  by (simp add: is_user_vaddr_def PHYS_BASE_def word_less_nat_alt unat_pd_no)

lemma pg_no_split: "pg_no va = pg_no vb \<longleftrightarrow> pd_no va = pd_no vb \<and> pt_no va = pt_no vb"
proof -
  have s: "unat v div 4194304 = unat v div 4096 div 1024" for v :: u32 by (simp add: div_mult2_eq [symmetric])
  have "m = n \<longleftrightarrow> m div 1024 = n div 1024 \<and> m mod 1024 = n mod 1024" for m n :: nat
    by (metis div_mult_mod_eq)
  then show ?thesis unfolding word_unat_eq_iff unat_pd_no unat_pt_no unat_pg_no s .
qed

lemma PTE_ADDR_mask: "PTE_ADDR = NOT PGMASK"
  by (simp add: PTE_ADDR_def PGMASK_mask mask_eq_exp_minus_1)

lemma vtop_aligned:
  assumes "is_kernel_vaddr k" "pg_ofs k = 0"
  shows "(k - PHYS_BASE) AND PGMASK = 0" "k - PHYS_BASE < PHYS_BASE"
proof -
  have le: "PHYS_BASE \<le> k" using assms(1) by (simp add: is_kernel_vaddr_def)
  then have u: "unat (k - PHYS_BASE) = unat k - 0xc0000000" by (simp add: unat_sub PHYS_BASE_def)
  have "unat k mod 4096 = 0" using assms(2) unat_pg_ofs [of k] by simp
  then have "unat (pg_ofs (k - PHYS_BASE)) = 0" unfolding unat_pg_ofs u
    using le by (auto simp: PHYS_BASE_def word_le_nat_alt mod_eq_0_iff_dvd intro!: dvd_diff_nat)
  then show "(k - PHYS_BASE) AND PGMASK = 0" by (simp add: pg_ofs_def unat_eq_zero)
  have "unat k < 2 ^ 32" using unsigned_less [of k] by simp
  then show "k - PHYS_BASE < PHYS_BASE" using u le by (simp add: word_less_nat_alt PHYS_BASE_def word_le_nat_alt)
qed

lemma flags_addr:
  assumes "p AND PGMASK = 0" "f AND NOT PGMASK = 0"
  shows "(p OR f) AND PTE_ADDR = p"
  using assms unfolding PTE_ADDR_mask
  by (simp add: bit_eq_iff bit_and_iff bit_or_iff bit_not_iff) blast

lemma pte_decode:
  assumes "is_kernel_vaddr k" "pg_ofs k = 0" "f AND NOT PGMASK = 0"
  shows "((k - PHYS_BASE) OR f) AND PTE_ADDR = k - PHYS_BASE" "ptov (k - PHYS_BASE) = Some k"
  using flags_addr [OF vtop_aligned(1) [OF assms(1,2)] assms(3)] vtop_aligned(2) [OF assms(1,2)]
  by (simp_all add: ptov_def)

lemma or_present: "(w OR (f :: u32)) AND PTE_P \<noteq> 0" if "f AND PTE_P = PTE_P"
proof -
  have "(w OR f) AND PTE_P = PTE_P"
    using that by (auto simp: bit_eq_iff bit_and_iff bit_or_iff)
  then show ?thesis by (simp add: PTE_P_def)
qed

lemma pde_create_get:
  assumes "is_kernel_vaddr pt" "pg_ofs pt = 0"
  shows "\<exists>w. pde_create pt = Some w \<and> w AND PTE_P \<noteq> 0 \<and> w AND PTE_ADDR < PHYS_BASE \<and> (w AND PTE_ADDR) + PHYS_BASE = pt"
proof -
  let ?f = "PTE_U OR PTE_P OR PTE_W"
  have "?f AND NOT PGMASK = 0" by (simp add: PTE_U_def PTE_P_def PTE_W_def PGMASK_mask mask_eq_exp_minus_1)
  note d = pte_decode [OF assms this]
  have "(pt - PHYS_BASE OR ?f) AND PTE_P \<noteq> 0" by (rule or_present) (simp add: PTE_U_def PTE_P_def PTE_W_def)
  then show ?thesis
    using d vtop_aligned(2) [OF assms] assms by (simp add: pde_create_def vtop_def or.assoc)
qed

lemma pte_create_get:
  assumes "is_kernel_vaddr k" "pg_ofs k = 0"
  shows "\<exists>w. pte_create_user k writable = Some w \<and> w AND PTE_P \<noteq> 0 \<and> pte_get_page w = Some k"
proof -
  let ?f = "PTE_P OR (if writable then PTE_W else 0) OR PTE_U"
  have "?f AND NOT PGMASK = 0" by (simp add: PTE_U_def PTE_P_def PTE_W_def PGMASK_mask mask_eq_exp_minus_1)
  note d = pte_decode [OF assms this]
  have "(k - PHYS_BASE OR ?f) AND PTE_P \<noteq> 0" by (rule or_present) (simp add: PTE_U_def PTE_P_def PTE_W_def)
  then show ?thesis
    using d assms by (simp add: pte_create_user_def pte_create_kernel_def pte_get_page_def vtop_def or.assoc)
qed

section \<open>Well-formed directories\<close>

definition table_of :: "u32 \<Rightarrow> u32" where
  "table_of pde = (pde AND PTE_ADDR) + PHYS_BASE"

definition pde_at :: "vm \<Rightarrow> u32 \<Rightarrow> nat \<Rightarrow> u32" where
  "pde_at s pd i = ram (mem s) pd ! i"

definition tables :: "vm \<Rightarrow> u32 \<Rightarrow> u32 set" where
  "tables s pd = insert pd {table_of (pde_at s pd i) |i. i < 768 \<and> pde_at s pd i \<noteq> 0}"

definition vm_ok :: "vm \<Rightarrow> bool" where
  "vm_ok s \<longleftrightarrow> pages_ok (mem s) \<and> (\<forall>a. length (ram (mem s) a) = 1024) \<and>
     (\<forall>a \<in> pool_pages (kernel_pool (mem s)). is_kernel_vaddr a)"

definition pd_ok :: "vm \<Rightarrow> u32 \<Rightarrow> bool" where
  "pd_ok s pd \<longleftrightarrow> pd \<noteq> 0 \<and> tables s pd \<subseteq> in_use (mem s) \<and>
     (\<forall>i<768. pde_at s pd i \<noteq> 0 \<longrightarrow> pde_at s pd i AND PTE_P \<noteq> 0 \<and>
        pde_at s pd i AND PTE_ADDR < PHYS_BASE \<and> table_of (pde_at s pd i) \<noteq> pd) \<and>
     (\<forall>i<768. \<forall>j<768. pde_at s pd i \<noteq> 0 \<longrightarrow> pde_at s pd j \<noteq> 0 \<longrightarrow>
        table_of (pde_at s pd i) = table_of (pde_at s pd j) \<longrightarrow> i = j)"

definition pte_of :: "vm \<Rightarrow> u32 \<Rightarrow> u32 \<Rightarrow> u32" where
  "pte_of s pd va = (let e = pde_at s pd (unat (pd_no va)) in
     if e = 0 then 0 else ram (mem s) (table_of e) ! unat (pt_no va))"

text \<open>What a state keeps of the state before: everything but the memory.\<close>

definition same_cpu :: "vm \<Rightarrow> vm \<Rightarrow> bool" where
  "same_cpu s s' \<longleftrightarrow> init_page_dir s' = init_page_dir s \<and> cr3 s' = cr3 s \<and> tlb s' = tlb s \<and>
     init_ram_pages (mem s') = init_ram_pages (mem s)"

lemma load_word_ok: "vm_ok s \<Longrightarrow> i < 1024 \<Longrightarrow> load_word s (a, i) = Some (ram (mem s) a ! i)"
  by (simp add: load_word_def vm_ok_def)

lemma store_word_ok:
  "vm_ok s \<Longrightarrow> i < 1024 \<Longrightarrow> store_word (a, i) w s =
     Some (s\<lparr>mem := (mem s)\<lparr>ram := (ram (mem s))(a := (ram (mem s) a)[i := w])\<rparr>\<rparr>)"
  by (simp add: store_word_def vm_ok_def)

lemma pages_ok_ram [simp]: "pages_ok (m\<lparr>ram := f\<rparr>) = pages_ok m"
  by (simp add: pages_ok_def)

lemma in_use_ram [simp]: "in_use (m\<lparr>ram := f\<rparr>) = in_use m"
  by (simp add: in_use_def)

lemma vm_ok_ram:
  "vm_ok s \<Longrightarrow> length ws = 1024 \<Longrightarrow> vm_ok (s\<lparr>mem := (mem s)\<lparr>ram := (ram (mem s))(a := ws)\<rparr>\<rparr>)"
  by (simp add: vm_ok_def)

lemma pde_get_pt_ok:
  "pd_ok s pd \<Longrightarrow> i < 768 \<Longrightarrow> pde_at s pd i \<noteq> 0 \<Longrightarrow> pde_get_pt (pde_at s pd i) = Some (table_of (pde_at s pd i))"
  by (simp add: pd_ok_def pde_get_pt_def ptov_def table_of_def)

lemma table_in: "i < 768 \<Longrightarrow> pde_at s pd i \<noteq> 0 \<Longrightarrow> table_of (pde_at s pd i) \<in> tables s pd"
  by (auto simp: tables_def)

lemma lookup_page_find:
  assumes "vm_ok s" "pd_ok s pd" "is_user_vaddr va"
  shows "lookup_page pd va False s = Some (
     if pde_at s pd (unat (pd_no va)) = 0 then None
     else Some (table_of (pde_at s pd (unat (pd_no va))), unat (pt_no va)), s)"
proof -
  have i: "unat (pd_no va) < 768" by (rule user_pd_no [OF assms(3)])
  have l: "load_word s (pd, unat (pd_no va)) = Some (pde_at s pd (unat (pd_no va)))"
    using load_word_ok [OF assms(1), of "unat (pd_no va)" pd] i by (simp add: pde_at_def)
  have "pd \<noteq> 0" using assms(2) by (simp add: pd_ok_def)
  then show ?thesis
    using l pde_get_pt_ok [OF assms(2) i] by (simp add: lookup_page_def Let_def)
qed

text \<open>A directory whose tables keep their content is not affected by a change of the state.\<close>

lemma pd_frame:
  assumes "pd_ok s pd" "\<forall>a\<in>tables s pd. ram (mem s') a = ram (mem s) a" "in_use (mem s) \<subseteq> in_use (mem s')"
  shows "pd_ok s' pd" "tables s' pd = tables s pd" "is_user_vaddr va \<Longrightarrow> pte_of s' pd va = pte_of s pd va"
proof -
  have "pd \<in> tables s pd" by (simp add: tables_def)
  then have e: "pde_at s' pd i = pde_at s pd i" for i using assms(2) by (simp add: pde_at_def)
  show t: "tables s' pd = tables s pd" by (simp add: tables_def e)
  show "pd_ok s' pd" using assms(1,3) unfolding pd_ok_def t e by blast
  show "pte_of s' pd va = pte_of s pd va" if u: "is_user_vaddr va"
    using table_in [OF user_pd_no [OF u], of s pd] assms(2) by (simp add: pte_of_def Let_def e)
qed

text \<open>Writing an entry of an existing table.\<close>

lemma store_pte:
  assumes "vm_ok s" "pd_ok s pd" "is_user_vaddr va" "pde_at s pd (unat (pd_no va)) \<noteq> 0"
  defines "pt \<equiv> table_of (pde_at s pd (unat (pd_no va)))"
  shows "\<exists>s'. store_word (pt, unat (pt_no va)) w s = Some s' \<and> vm_ok s' \<and> pd_ok s' pd \<and> same_cpu s s' \<and>
    tables s' pd = tables s pd \<and> in_use (mem s') = in_use (mem s) \<and>
    (\<forall>a. a \<notin> tables s pd \<longrightarrow> ram (mem s') a = ram (mem s) a) \<and>
    (\<forall>vb. is_user_vaddr vb \<longrightarrow> pte_of s' pd vb = (if pg_no vb = pg_no va then w else pte_of s pd vb))"
proof -
  define s' where "s' = s\<lparr>mem := (mem s)\<lparr>ram := (ram (mem s))(pt := (ram (mem s) pt)[unat (pt_no va) := w])\<rparr>\<rparr>"
  have i: "unat (pd_no va) < 768" by (rule user_pd_no [OF assms(3)])
  have npd: "pt \<noteq> pd" using assms(2,4) i unfolding pd_ok_def pt_def by blast
  then have e: "pde_at s' pd j = pde_at s pd j" for j by (simp add: pde_at_def s'_def)
  have r: "ram (mem s') = (ram (mem s))(pt := (ram (mem s) pt)[unat (pt_no va) := w])" by (simp add: s'_def)
  have t: "tables s' pd = tables s pd" by (simp add: tables_def e)
  have iu: "in_use (mem s') = in_use (mem s)" by (simp add: s'_def)
  have pk: "pd_ok s' pd" using assms(2) unfolding pd_ok_def t e iu .
  have vk: "vm_ok s'" unfolding s'_def by (rule vm_ok_ram) (use assms(1) in \<open>simp_all add: vm_ok_def\<close>)
  have inpt: "pt \<in> tables s pd" unfolding pt_def by (rule table_in [OF i assms(4)])
  have len: "length (ram (mem s) pt) = 1024" using assms(1) by (simp add: vm_ok_def)
  have "pte_of s' pd vb = (if pg_no vb = pg_no va then w else pte_of s pd vb)" if u: "is_user_vaddr vb" for vb
  proof (cases "pde_at s pd (unat (pd_no vb)) \<noteq> 0 \<and> table_of (pde_at s pd (unat (pd_no vb))) = pt")
    case True
    then have "unat (pd_no vb) = unat (pd_no va)"
      using assms(2,4) i user_pd_no [OF u] unfolding pd_ok_def pt_def by blast
    then have "pd_no vb = pd_no va" by (simp add: word_unat_eq_iff)
    then have "pg_no vb = pg_no va \<longleftrightarrow> unat (pt_no vb) = unat (pt_no va)"
      unfolding pg_no_split by (simp add: word_unat_eq_iff)
    then show ?thesis using True len by (auto simp: pte_of_def Let_def e r nth_list_update)
  next
    case False
    then have "pd_no vb \<noteq> pd_no va" using assms(4) by (auto simp: pt_def)
    then show ?thesis using False by (auto simp: pte_of_def Let_def e r pg_no_split)
  qed
  moreover have "store_word (pt, unat (pt_no va)) w s = Some s'"
    using store_word_ok [OF assms(1)] by (simp add: s'_def)
  moreover have "\<forall>a. a \<notin> tables s pd \<longrightarrow> ram (mem s') a = ram (mem s) a" using inpt by (auto simp: s'_def)
  moreover have "same_cpu s s'" by (simp add: same_cpu_def s'_def)
  ultimately show ?thesis using vk pk t iu by blast
qed

text \<open>Taking a cleared page for a new table.\<close>

lemma page_addr_map: "page_addr (p\<lparr>used_map := b\<rparr>) = page_addr p"
  by (simp add: fun_eq_iff page_addr_def)

lemma palloc_get_keeps:
  assumes "pages_ok m" "palloc_get_multiple flags cnt m = Some (pg, m')"
  shows "pool_pages (kernel_pool m') = pool_pages (kernel_pool m)" "init_ram_pages m' = init_ram_pages m"
proof -
  let ?u = "flags AND PAL_USER \<noteq> 0"
  have bk: "bitmap_ok (used_map (get_pool ?u m))" using pages_ok_pool [OF assms(1), of ?u] by (simp add: pool_ok_def)
  obtain r b where b: "bitmap_scan_and_flip (used_map (get_pool ?u m)) 0 cnt False = Some (r, b)"
      "bit_cnt b = bit_cnt (used_map (get_pool ?u m))"
    using bitmap_scan_and_flip_bm [OF bk, of 0 cnt False] by (auto simp: bm_result_def)
  define m1 where "m1 = set_pool ?u (get_pool ?u m\<lparr>used_map := b\<rparr>) m"
  have "m' = m \<or> m' = m1 \<or> m' = memset_pages pg 0 (wrap32 (PGSIZE * cnt)) m1"
    using assms(2) unfolding palloc_get_multiple_def Let_def b(1) m1_def
    by (simp add: ASSERT_def del: of_nat_mult PGSIZE_def split: if_splits) blast
  moreover have "pool_pages (kernel_pool m1) = pool_pages (kernel_pool m)" "init_ram_pages m1 = init_ram_pages m"
    using b(2) by (simp_all add: m1_def set_pool_def get_pool_def pool_pages_def page_addr_map)
  moreover have "init_ram_pages (memset_pages a w n m1) = init_ram_pages m1" for a w n by (simp add: memset_pages_def)
  ultimately show "pool_pages (kernel_pool m') = pool_pages (kernel_pool m)" "init_ram_pages m' = init_ram_pages m"
    by (elim disjE; simp)+
qed

lemma vm_get_page_zero:
  assumes "vm_ok s"
  shows "\<exists>pg s'. vm_get_page PAL_ZERO s = Some (pg, s') \<and> vm_ok s' \<and> same_cpu s s' \<and>
    (if pg = 0 then in_use (mem s') = in_use (mem s) \<and> ram (mem s') = ram (mem s) \<and> no_group PAL_ZERO 1 (mem s)
     else pg \<notin> in_use (mem s) \<and> in_use (mem s') = insert pg (in_use (mem s)) \<and>
       ram (mem s') = (ram (mem s))(pg := replicate 1024 0) \<and> is_kernel_vaddr pg \<and> pg_ofs pg = 0)"
proof -
  have ok: "pages_ok (mem s)" using assms by (simp add: vm_ok_def)
  have fl: "PAL_ZERO AND PAL_ASSERT = 0" "PAL_ZERO AND PAL_ZERO \<noteq> 0" "PAL_ZERO AND PAL_USER = 0"
    by (simp_all add: PAL_ZERO_def PAL_ASSERT_def PAL_USER_def)
  obtain pg m where m: "palloc_get_multiple PAL_ZERO 1 (mem s) = Some (pg, m)" "pages_ok m"
      "if pg = 0 then in_use m = in_use (mem s) \<and> ram m = ram (mem s) \<and> no_group PAL_ZERO 1 (mem s)
       else fresh_group PAL_ZERO 1 pg (mem s) m"
    using palloc_get_cases [OF ok, of 1 PAL_ZERO] fl(1) by auto
  note k = palloc_get_keeps [OF ok m(1)]
  have g: "vm_get_page PAL_ZERO s = Some (pg, s\<lparr>mem := m\<rparr>)"
    using m(1) by (simp add: vm_get_page_def palloc_get_page_def)
  have sc: "same_cpu s (s\<lparr>mem := m\<rparr>)" using k(2) by (simp add: same_cpu_def)
  show ?thesis
  proof (cases "pg = 0")
    case True
    then show ?thesis using g sc m(2,3) k(1) assms by (simp add: vm_ok_def)
  next
    case False
    then have f: "pg \<in> pool_pages (kernel_pool (mem s))" "pg \<notin> in_use (mem s)" "in_use m = insert pg (in_use (mem s))"
        "\<forall>a. a \<noteq> pg \<longrightarrow> ram m a = ram (mem s) a" "ram m pg = replicate 1024 0"
      using m(3) fl by (simp_all add: fresh_group_def page_group_def get_pool_def)
    have rm: "ram m = (ram (mem s))(pg := replicate 1024 0)" using f(4,5) by auto
    have "pg_ofs pg = 0" using f(1) ok page_addr_facts(2) by (auto simp: pool_pages_def pages_ok_def)
    moreover have "is_kernel_vaddr pg" using f(1) assms by (simp add: vm_ok_def)
    ultimately show ?thesis
      using False g sc m(2) k(1) f(2,3) rm assms by (auto simp: vm_ok_def)
  qed
qed

lemma new_table:
  assumes "vm_ok s" "pd_ok s pd" "i < 768" "pde_at s pd i = 0" "vm_ok s1" "same_cpu s s1"
    and pg: "pg \<notin> in_use (mem s)" "in_use (mem s1) = insert pg (in_use (mem s))"
      "ram (mem s1) = (ram (mem s))(pg := replicate 1024 0)"
    and w: "w AND PTE_P \<noteq> 0" "w AND PTE_ADDR < PHYS_BASE" "table_of w = pg"
    and s': "s' = s1\<lparr>mem := (mem s1)\<lparr>ram := (ram (mem s1))(pd := (ram (mem s1) pd)[i := w])\<rparr>\<rparr>"
  shows "vm_ok s'" "same_cpu s s'" "in_use (mem s') = insert pg (in_use (mem s))"
    and "tables s' pd = insert pg (tables s pd)" "pd_ok s' pd" "pde_at s' pd i = w"
    and "is_user_vaddr vb \<Longrightarrow> pte_of s' pd vb = pte_of s pd vb"
    and "a \<notin> tables s' pd \<Longrightarrow> ram (mem s') a = ram (mem s) a"
proof -
  have pd: "pd \<noteq> 0" "pd \<in> in_use (mem s)" using assms(2) by (auto simp: pd_ok_def tables_def)
  then have npd: "pd \<noteq> pg" using pg(1) by blast
  have len: "length (ram (mem s) pd) = 1024" using assms(1) by (simp add: vm_ok_def)
  have e: "pde_at s' pd j = (if j = i then w else pde_at s pd j)" if "j < 768" for j
    using that npd pg(3) len by (simp add: pde_at_def s' nth_list_update)
  show "pde_at s' pd i = w" using e [OF assms(3)] by simp
  have w0: "w \<noteq> 0" using w(1) by auto
  have old: "table_of (pde_at s pd j) \<noteq> pd" "table_of (pde_at s pd j) \<noteq> pg" "table_of (pde_at s pd j) \<in> in_use (mem s)"
    if "j < 768" "pde_at s pd j \<noteq> 0" for j
    using that assms(2) table_in [OF that] pg(1) unfolding pd_ok_def by blast+
  have r: "ram (mem s') a = (if a = pd then (ram (mem s) pd)[i := w] else if a = pg then replicate 1024 0 else ram (mem s) a)" for a
    using npd by (simp add: s' pg(3))
  show "vm_ok s'" unfolding s' by (rule vm_ok_ram) (use assms(5) in \<open>simp_all add: vm_ok_def\<close>)
  show "same_cpu s s'" using assms(6) by (simp add: same_cpu_def s')
  show iu: "in_use (mem s') = insert pg (in_use (mem s))" by (simp add: s' pg(2))
  show ts: "tables s' pd = insert pg (tables s pd)"
    using e assms(3,4) w(3) w0 unfolding tables_def by (auto; metis)
  show "pd_ok s' pd" unfolding pd_ok_def ts iu
    using assms(2) e w npd old pd(1) unfolding pd_ok_def by (auto simp: e) metis+
  show "pte_of s' pd vb = pte_of s pd vb" if u: "is_user_vaddr vb" for vb
    using user_pd_no [OF u] old [of "unat (pd_no vb)"] w(3) w0 npd assms(4)
    by (auto simp: pte_of_def Let_def e r)
  show "ram (mem s') a = ram (mem s) a" if "a \<notin> tables s' pd" for a
    using that ts by (auto simp: r tables_def)
qed

lemma lookup_page_create:
  assumes "vm_ok s" "pd_ok s pd" "is_user_vaddr va"
  shows "\<exists>r s'. lookup_page pd va True s = Some (r, s') \<and> vm_ok s' \<and> pd_ok s' pd \<and> same_cpu s s' \<and>
    in_use (mem s) \<subseteq> in_use (mem s') \<and> tables s' pd \<subseteq> tables s pd \<union> - in_use (mem s) \<and>
    (\<forall>a. a \<notin> tables s' pd \<longrightarrow> ram (mem s') a = ram (mem s) a) \<and>
    (\<forall>vb. is_user_vaddr vb \<longrightarrow> pte_of s' pd vb = pte_of s pd vb) \<and>
    (if r = None then no_group PAL_ZERO 1 (mem s)
     else pde_at s' pd (unat (pd_no va)) \<noteq> 0 \<and>
       r = Some (table_of (pde_at s' pd (unat (pd_no va))), unat (pt_no va)))"
proof (cases "pde_at s pd (unat (pd_no va)) = 0")
  case False
  then have "lookup_page pd va True s = lookup_page pd va False s"
    using assms load_word_ok [OF assms(1), of "unat (pd_no va)" pd] user_pd_no [OF assms(3)]
    by (simp add: lookup_page_def Let_def pde_at_def)
  with lookup_page_find [OF assms] False assms(1,2) show ?thesis by (auto simp: same_cpu_def)
next
  case True0: True
  let ?i = "unat (pd_no va)"
  have i: "?i < 768" by (rule user_pd_no [OF assms(3)])
  have l: "load_word s (pd, ?i) = Some 0" using load_word_ok [OF assms(1)] i True0 by (simp add: pde_at_def)
  have pd: "pd \<noteq> 0" "pd \<in> in_use (mem s)" using assms(2) by (auto simp: pd_ok_def tables_def)
  obtain pg s1 where g: "vm_get_page PAL_ZERO s = Some (pg, s1)" "vm_ok s1" "same_cpu s s1"
    and c: "if pg = 0 then in_use (mem s1) = in_use (mem s) \<and> ram (mem s1) = ram (mem s) \<and> no_group PAL_ZERO 1 (mem s)
     else pg \<notin> in_use (mem s) \<and> in_use (mem s1) = insert pg (in_use (mem s)) \<and>
       ram (mem s1) = (ram (mem s))(pg := replicate 1024 0) \<and> is_kernel_vaddr pg \<and> pg_ofs pg = 0"
    using vm_get_page_zero [OF assms(1)] by blast
  show ?thesis
  proof (cases "pg = 0")
    case True
    then have r: "ram (mem s1) = ram (mem s)" "in_use (mem s1) = in_use (mem s)" using c by simp_all
    have "lookup_page pd va True s = Some (None, s1)"
      using l g(1) True pd(1) assms(3) by (simp add: lookup_page_def Let_def)
    with pd_frame [OF assms(2), of s1] r g(2,3) c True show ?thesis by auto
  next
    case False
    then have f: "pg \<notin> in_use (mem s)" "in_use (mem s1) = insert pg (in_use (mem s))"
       "ram (mem s1) = (ram (mem s))(pg := replicate 1024 0)" "is_kernel_vaddr pg" "pg_ofs pg = 0"
      using c by simp_all
    obtain w where w: "pde_create pg = Some w" "w AND PTE_P \<noteq> 0" "w AND PTE_ADDR < PHYS_BASE" "table_of w = pg"
      using pde_create_get [OF f(4,5)] by (auto simp: table_of_def)
    define s' where "s' = s1\<lparr>mem := (mem s1)\<lparr>ram := (ram (mem s1))(pd := (ram (mem s1) pd)[?i := w])\<rparr>\<rparr>"
    note n = new_table [OF assms(1,2) i True0 g(2,3) f(1-3) w(2-4) s'_def]
    have w0: "w \<noteq> 0" using w(2) by auto
    have "lookup_page pd va True s = Some (Some (pg, unat (pt_no va)), s')"
    proof -
      have "store_word (pd, ?i) w s1 = Some s'" using store_word_ok [OF g(2)] i by (simp add: s'_def)
      moreover have "load_word s' (pd, ?i) = Some w"
        using load_word_ok [OF n(1)] i n(6) by (simp add: pde_at_def)
      moreover have "pde_get_pt w = Some pg" using w(2-4) by (simp add: pde_get_pt_def ptov_def table_of_def)
      ultimately show ?thesis using l g(1) w(1) False pd(1) assms(3) by (simp add: lookup_page_def Let_def)
    qed
    moreover have "in_use (mem s) \<subseteq> in_use (mem s')" "tables s' pd \<subseteq> tables s pd \<union> - in_use (mem s)"
      using n(3,4) f(1) by auto
    ultimately show ?thesis
      using n(1,2,5-8) w(4) w0 by (intro exI [of _ "Some (pg, unat (pt_no va))"] exI [of _ s']) simp
  qed
qed

section \<open>The operations on entries\<close>

definition page_of_pte :: "u32 \<Rightarrow> u32 \<Rightarrow> u32 option" where
  "page_of_pte e va = (if e AND PTE_P \<noteq> 0 then do { page \<leftarrow> pte_get_page e; Some (page + pg_ofs va) } else Some 0)"

lemma load_pte:
  assumes "vm_ok s" "is_user_vaddr va" "pde_at s pd (unat (pd_no va)) \<noteq> 0"
  shows "load_word s (table_of (pde_at s pd (unat (pd_no va))), unat (pt_no va)) = Some (pte_of s pd va)"
  using load_word_ok [OF assms(1)] assms(3) by (simp add: pte_of_def Let_def)

lemma no_pte: "pde_at s pd (unat (pd_no va)) = 0 \<Longrightarrow> pte_of s pd va = 0"
  by (simp add: pte_of_def)

lemma pte_of_page: "pg_no va = pg_no vb \<Longrightarrow> pte_of s pd va = pte_of s pd vb"
  by (simp add: pg_no_split pte_of_def Let_def)

lemma pagedir_get_page_pte:
  assumes "vm_ok s" "pd_ok s pd" "is_user_vaddr va"
  shows "pagedir_get_page pd va s = page_of_pte (pte_of s pd va) va"
  using lookup_page_find [OF assms] load_pte [OF assms(1,3)] no_pte [of s pd va] assms(3)
  by (simp add: pagedir_get_page_def page_of_pte_def)

lemma is_bit_pte:
  assumes "vm_ok s" "pd_ok s pd" "is_user_vaddr va"
  shows "is_bit flag pd va s = Some (pte_of s pd va AND flag \<noteq> 0)"
  using lookup_page_find [OF assms] load_pte [OF assms(1,3)] no_pte [of s pd va]
  by (simp add: is_bit_def)

text \<open>Invalidation changes the processor only.\<close>

definition cpu_valid :: "vm \<Rightarrow> bool" where
  "cpu_valid s \<longleftrightarrow> cr3 s < PHYS_BASE"

lemma invalidate_pagedir_ok:
  assumes "cpu_valid s" "pd \<noteq> 0" "is_kernel_vaddr pd"
  shows "\<exists>s'. invalidate_pagedir pd s = Some s' \<and> mem s' = mem s \<and> cr3 s' = cr3 s \<and> init_page_dir s' = init_page_dir s \<and>
    tlb s' = (if cr3 s + PHYS_BASE = pd then {} else tlb s)"
  using assms
  by (auto simp: invalidate_pagedir_def active_pd_def ptov_def cpu_valid_def pagedir_activate_def vtop_def)

lemma mem_only:
  assumes "mem s' = mem s"
  shows "vm_ok s' = vm_ok s" "pd_ok s' pd = pd_ok s pd" "tables s' pd = tables s pd" "pte_of s' pd va = pte_of s pd va"
proof -
  have e: "pde_at s' pd i = pde_at s pd i" for i pd using assms by (simp add: pde_at_def)
  show t: "tables s' pd = tables s pd" for pd by (simp add: tables_def e)
  show "vm_ok s' = vm_ok s" "pd_ok s' pd = pd_ok s pd" "pte_of s' pd va = pte_of s pd va"
    using assms by (simp_all add: vm_ok_def pd_ok_def pte_of_def Let_def e t)
qed

text \<open>The other directories keep their mapping when only the tables of one directory and pages
  that were not in use are written.\<close>

lemma other_pd:
  assumes "pd_ok s pd'" "tables s pd \<inter> tables s pd' = {}" "in_use (mem s) \<subseteq> in_use (mem s')"
    "tables s' pd \<subseteq> tables s pd \<union> - in_use (mem s)"
    "\<forall>a. a \<notin> tables s' pd \<longrightarrow> ram (mem s') a = ram (mem s) a"
  shows "pd_ok s' pd'" "tables s' pd \<inter> tables s' pd' = {}" "is_user_vaddr va \<Longrightarrow> pte_of s' pd' va = pte_of s pd' va"
proof -
  have u: "tables s pd' \<subseteq> in_use (mem s)" using assms(1) by (simp add: pd_ok_def)
  then have d: "tables s' pd \<inter> tables s pd' = {}" using assms(2,4) by blast
  then have "\<forall>a\<in>tables s pd'. ram (mem s') a = ram (mem s) a" using assms(5) by blast
  note f = pd_frame [OF assms(1) this assms(3)]
  show "pd_ok s' pd'" "is_user_vaddr va \<Longrightarrow> pte_of s' pd' va = pte_of s pd' va" using f by simp_all
  show "tables s' pd \<inter> tables s' pd' = {}" using f(2) d by simp
qed

definition others_kept :: "u32 \<Rightarrow> vm \<Rightarrow> vm \<Rightarrow> bool" where
  "others_kept pd s s' \<longleftrightarrow> (\<forall>pd'. pd_ok s pd' \<and> tables s pd \<inter> tables s pd' = {} \<longrightarrow>
     pd_ok s' pd' \<and> tables s' pd \<inter> tables s' pd' = {} \<and>
     (\<forall>va. is_user_vaddr va \<longrightarrow> pagedir_get_page pd' va s' = pagedir_get_page pd' va s))"

lemma others_keptI:
  assumes "vm_ok s" "vm_ok s'" "in_use (mem s) \<subseteq> in_use (mem s')"
    "tables s' pd \<subseteq> tables s pd \<union> - in_use (mem s)"
    "\<forall>a. a \<notin> tables s' pd \<longrightarrow> ram (mem s') a = ram (mem s) a"
  shows "others_kept pd s s'"
  unfolding others_kept_def
  using other_pd [OF _ _ assms(3-5)] pagedir_get_page_pte [OF assms(1)] pagedir_get_page_pte [OF assms(2)] by simp

lemma others_kept_mem:
  assumes "mem s' = mem s1" "vm_ok s1" "others_kept pd s s1"
  shows "others_kept pd s s'"
proof -
  note m = mem_only [OF assms(1)]
  have "pagedir_get_page pd' va s' = pagedir_get_page pd' va s1" if "pd_ok s1 pd'" "is_user_vaddr va" for pd' va
    using that m assms(2) pagedir_get_page_pte [of s' pd' va] pagedir_get_page_pte [of s1 pd' va] by simp
  then show ?thesis using assms(3) unfolding others_kept_def m by metis
qed

text \<open>Storing an entry through the pointer that a search returned, as all operations but
  \<open>pagedir_set_page\<close> do.\<close>

lemma update_pte:
  assumes "vm_ok s" "pd_ok s pd" "is_user_vaddr va" "pde_at s pd (unat (pd_no va)) \<noteq> 0"
  obtains s' where "store_word (table_of (pde_at s pd (unat (pd_no va))), unat (pt_no va)) w s = Some s'"
    "vm_ok s'" "pd_ok s' pd" "same_cpu s s'" "others_kept pd s s'" "tables s' pd = tables s pd"
    "in_use (mem s') = in_use (mem s)" "\<And>a. a \<notin> tables s pd \<Longrightarrow> ram (mem s') a = ram (mem s) a"
    "\<And>vb. is_user_vaddr vb \<Longrightarrow> pte_of s' pd vb = (if pg_no vb = pg_no va then w else pte_of s pd vb)"
proof -
  obtain s' where s': "store_word (table_of (pde_at s pd (unat (pd_no va))), unat (pt_no va)) w s = Some s'"
    "vm_ok s'" "pd_ok s' pd" "same_cpu s s'" "tables s' pd = tables s pd" "in_use (mem s') = in_use (mem s)"
    "\<forall>a. a \<notin> tables s pd \<longrightarrow> ram (mem s') a = ram (mem s) a"
    "\<forall>vb. is_user_vaddr vb \<longrightarrow> pte_of s' pd vb = (if pg_no vb = pg_no va then w else pte_of s pd vb)"
    using store_pte [OF assms] by blast
  moreover have "others_kept pd s s'" by (rule others_keptI) (use assms(1) s' in simp_all)
  ultimately show thesis by (intro that [of s']) simp_all
qed

section \<open>A concrete machine\<close>

text \<open>The directory at \<open>0xc0101000\<close> has one table, at \<open>0xc0102000\<close>, which maps the page
  \<open>0x5000\<close> to \<open>0xc0103000\<close>.\<close>

definition demo_vm :: vm where
  "demo_vm = \<lparr>mem = \<lparr>kernel_pool = \<lparr>used_map = \<lparr>bit_cnt = 4, bits = [7]\<rparr>, base = 0xc0101000\<rparr>,
       user_pool = \<lparr>used_map = \<lparr>bit_cnt = 4, bits = [0]\<rparr>, base = 0xc0200000\<rparr>,
       ram = (\<lambda>_. replicate 1024 0)(0xc0101000 := (replicate 1024 0)[0 := 0x102007],
                                     0xc0102000 := (replicate 1024 0)[5 := 0x103007]),
       init_ram_pages = 1024\<rparr>,
     init_page_dir = 0xc0300000, cr3 = 0x101000, tlb = {0x5000}\<rparr>"

abbreviation demo_pd :: u32 where
  "demo_pd \<equiv> 0xc0101000"

lemma demo_vm_ok: "vm_ok demo_vm"
proof -
  have k: "pool_ok (kernel_pool (mem demo_vm))" "pool_ok (user_pool (mem demo_vm))"
    by (simp_all add: demo_vm_def pool_ok_def bitmap_ok_def elem_cnt_eq)
  moreover from this have "pool_pages (kernel_pool (mem demo_vm)) \<inter> pool_pages (user_pool (mem demo_vm)) = {}"
    by (rule pools_disjoint) (simp add: demo_vm_def)
  moreover have "is_kernel_vaddr a" if a: "a \<in> pool_pages (kernel_pool (mem demo_vm))" for a
  proof -
    from a obtain i where "a = page_addr (kernel_pool (mem demo_vm)) i" "i < bit_cnt (used_map (kernel_pool (mem demo_vm)))"
      by (auto simp: pool_pages_def)
    then have "unat a = unat (base (kernel_pool (mem demo_vm))) + 4096 * i" using unat_page_addr [OF k(1)] by simp
    then show ?thesis by (simp add: is_kernel_vaddr_def PHYS_BASE_def word_le_nat_alt demo_vm_def)
  qed
  ultimately show ?thesis by (simp add: vm_ok_def pages_ok_def) (simp add: demo_vm_def)
qed

lemma demo_pde: "i < 1024 \<Longrightarrow> pde_at demo_vm demo_pd i = (if i = 0 then 0x102007 else 0)"
  by (simp add: pde_at_def demo_vm_def nth_list_update)

lemma demo_table: "table_of 0x102007 = 0xc0102000" "table_of 0x103007 = 0xc0103000"
  by (simp_all add: table_of_def PTE_ADDR_def PHYS_BASE_def)

lemma demo_tables: "tables demo_vm demo_pd = {demo_pd, 0xc0102000}"
  using demo_pde demo_table by (auto simp: tables_def intro!: exI [of _ 0])

lemma demo_in_use: "{demo_pd, 0xc0102000, 0xc0103000} \<subseteq> in_use (mem demo_vm)"
proof -
  have "page_addr (kernel_pool (mem demo_vm)) i \<in> in_use (mem demo_vm)" if "i < 3" for i
  proof -
    have "i = 0 \<or> i = 1 \<or> i = 2" using that by linarith
    then have "bm (used_map (kernel_pool (mem demo_vm))) ! i"
      by (auto simp: demo_vm_def bm_nth elem_idx_def ELEM_BITS_def bit_iff_odd)
    then show ?thesis using that by (auto simp: in_use_def pool_used_def demo_vm_def)
  qed
  from this [of 0] this [of 1] this [of 2] show ?thesis by (simp add: page_addr_def demo_vm_def)
qed

lemma demo_pd_ok: "pd_ok demo_vm demo_pd"
  using demo_in_use demo_pde demo_table
  by (simp add: pd_ok_def demo_tables) (simp add: PTE_P_def PTE_ADDR_def PHYS_BASE_def)

lemma demo_pte: "pte_of demo_vm demo_pd 0x5000 = 0x103007" "pte_of demo_vm demo_pd 0x6000 = 0"
  using demo_pde [of 0] demo_table
  by (simp_all add: pte_of_def Let_def unat_pd_no unat_pt_no) (simp_all add: demo_vm_def)

lemma demo_addrs: "is_user_vaddr 0x5000" "is_user_vaddr 0x6000" "pg_ofs 0x5000 = 0" "pg_ofs 0x6000 = 0"
  "is_kernel_vaddr demo_pd" "cpu_valid demo_vm"
  by (simp_all add: is_user_vaddr_def PHYS_BASE_def is_kernel_vaddr_def pg_ofs_def PGMASK_mask mask_eq_exp_minus_1
      cpu_valid_def demo_vm_def)

lemma pagedir_set_page_cases:
  assumes "vm_ok s" "pd_ok s pd" "pd \<noteq> init_page_dir s" "is_user_vaddr upage" "pg_ofs upage = 0"
    and "is_kernel_vaddr kpage" "pg_ofs kpage = 0" "drop_bit 12 (kpage - PHYS_BASE) < init_ram_pages (mem s)"
    and "pte_of s pd upage AND PTE_P = 0"
  shows "\<exists>ok s'. pagedir_set_page pd upage kpage writable s = Some (ok, s') \<and> vm_ok s' \<and> pd_ok s' pd \<and>
    (ok \<or> no_group PAL_ZERO 1 (mem s)) \<and> others_kept pd s s' \<and>
    same_cpu s s' \<and> in_use (mem s) \<subseteq> in_use (mem s') \<and> tables s' pd \<subseteq> tables s pd \<union> - in_use (mem s) \<and>
    (\<forall>a. a \<notin> tables s' pd \<longrightarrow> ram (mem s') a = ram (mem s) a) \<and>
    (\<forall>va. is_user_vaddr va \<longrightarrow> pagedir_get_page pd va s' =
       (if ok \<and> pg_no va = pg_no upage then Some (kpage + pg_ofs va) else pagedir_get_page pd va s))"
proof -
  obtain r s1 where l: "lookup_page pd upage True s = Some (r, s1)" "vm_ok s1" "pd_ok s1 pd" "same_cpu s s1"
      "in_use (mem s) \<subseteq> in_use (mem s1)" "tables s1 pd \<subseteq> tables s pd \<union> - in_use (mem s)"
      "\<forall>a. a \<notin> tables s1 pd \<longrightarrow> ram (mem s1) a = ram (mem s) a"
      "\<forall>vb. is_user_vaddr vb \<longrightarrow> pte_of s1 pd vb = pte_of s pd vb"
      "if r = None then no_group PAL_ZERO 1 (mem s) else pde_at s1 pd (unat (pd_no upage)) \<noteq> 0 \<and>
         r = Some (table_of (pde_at s1 pd (unat (pd_no upage))), unat (pt_no upage))"
    using lookup_page_create [OF assms(1,2,4)] by blast
  have o1: "others_kept pd s s1" by (rule others_keptI [OF assms(1) l(2,5-7)])
  have g1: "pagedir_get_page pd va s1 = pagedir_get_page pd va s" if "is_user_vaddr va" for va
    using that l(8) pagedir_get_page_pte [OF l(2,3)] pagedir_get_page_pte [OF assms(1,2)] by simp
  show ?thesis
  proof (cases "r = None")
    case True
    then have "pagedir_set_page pd upage kpage writable s = Some (False, s1)"
      using assms(3-8) l(1) by (simp add: pagedir_set_page_def vtop_def)
    with True l(2-7,9) o1 g1 show ?thesis by (intro exI [of _ False] exI [of _ s1]) simp
  next
    case False
    then have nz: "pde_at s1 pd (unat (pd_no upage)) \<noteq> 0"
      and r: "r = Some (table_of (pde_at s1 pd (unat (pd_no upage))), unat (pt_no upage))" using l(9) by simp_all
    obtain w where w: "pte_create_user kpage writable = Some w" "w AND PTE_P \<noteq> 0" "pte_get_page w = Some kpage"
      using pte_create_get [OF assms(6,7)] by blast
    obtain s' where u: "store_word (table_of (pde_at s1 pd (unat (pd_no upage))), unat (pt_no upage)) w s1 = Some s'"
      "vm_ok s'" "pd_ok s' pd" "others_kept pd s1 s'" "same_cpu s1 s'" "tables s' pd = tables s1 pd"
      "in_use (mem s') = in_use (mem s1)" "\<And>a. a \<notin> tables s1 pd \<Longrightarrow> ram (mem s') a = ram (mem s1) a"
      "\<And>vb. is_user_vaddr vb \<Longrightarrow> pte_of s' pd vb = (if pg_no vb = pg_no upage then w else pte_of s1 pd vb)"
      by (rule update_pte [OF l(2,3) assms(4) nz, of w]) blast
    have "pagedir_set_page pd upage kpage writable s = Some (True, s')"
      using assms(3-9) l(1,8) r w(1) u(1) load_pte [OF l(2) assms(4) nz]
      by (simp add: pagedir_set_page_def vtop_def)
    moreover have "others_kept pd s s'" using o1 u(4) unfolding others_kept_def by metis
    moreover have "pagedir_get_page pd va s' =
        (if pg_no va = pg_no upage then Some (kpage + pg_ofs va) else pagedir_get_page pd va s)"
      if "is_user_vaddr va" for va
      using u(9) [OF that] w(2,3) unfolding g1 [OF that, symmetric] pagedir_get_page_pte [OF l(2,3) that]
        pagedir_get_page_pte [OF u(2,3) that] by (cases "pg_no va = pg_no upage") (simp_all add: page_of_pte_def)
    moreover have "same_cpu s s'" using l(4) u(5) by (simp add: same_cpu_def)
    ultimately show ?thesis using u(2,3,6-8) l(5-7) by (intro exI [of _ True] exI [of _ s']) simp
  qed
qed

text \<open>C32: a page directory is a map from the pages of the user's address space to pages of the
  kernel.  \<open>pagedir_set_page\<close> adds one pair to the map of its directory and keeps the maps of all
  directories that share no table with it; it fails only when a new page table is needed and the
  kernel pool has no free page, and then no map changes.\<close>

theorem pagedir_set_page_maps:
  assumes "vm_ok s" "pd_ok s pd" "pd \<noteq> init_page_dir s" "is_user_vaddr upage" "pg_ofs upage = 0"
    and "is_kernel_vaddr kpage" "pg_ofs kpage = 0" "drop_bit 12 (kpage - PHYS_BASE) < init_ram_pages (mem s)"
    and "pte_of s pd upage AND PTE_P = 0"
  shows "\<exists>ok s'. pagedir_set_page pd upage kpage writable s = Some (ok, s') \<and> vm_ok s' \<and> pd_ok s' pd \<and>
    (ok \<or> no_group PAL_ZERO 1 (mem s)) \<and> others_kept pd s s' \<and>
    (\<forall>va. is_user_vaddr va \<longrightarrow> pagedir_get_page pd va s' =
       (if ok \<and> pg_no va = pg_no upage then Some (kpage + pg_ofs va) else pagedir_get_page pd va s))"
  using pagedir_set_page_cases [OF assms, of writable] by blast

theorem pagedir_set_page_maps_witness:
  "\<exists>ok s'. pagedir_set_page demo_pd 0x6000 0xc0200000 True demo_vm = Some (ok, s') \<and> vm_ok s' \<and>
    (ok \<or> no_group PAL_ZERO 1 (mem demo_vm)) \<and>
    pagedir_get_page demo_pd 0x5000 s' = pagedir_get_page demo_pd 0x5000 demo_vm"
proof -
  have "demo_pd \<noteq> init_page_dir demo_vm" "is_kernel_vaddr 0xc0200000" "pg_ofs 0xc0200000 = 0"
      "drop_bit 12 (0xc0200000 - PHYS_BASE) < init_ram_pages (mem demo_vm)" "pte_of demo_vm demo_pd 0x6000 AND PTE_P = 0"
    using demo_pte(2)
    by (simp_all add: demo_vm_def is_kernel_vaddr_def PHYS_BASE_def pg_ofs_def PGMASK_mask mask_eq_exp_minus_1 drop_bit_eq_div)
  note h = pagedir_set_page_maps [OF demo_vm_ok demo_pd_ok this(1) demo_addrs(2,4) this(2-5), of True]
  have "pg_no 0x5000 \<noteq> pg_no 0x6000" by (simp add: pg_no_def drop_bit_eq_div)
  with h demo_addrs(1) show ?thesis by (metis (no_types, lifting))
qed

text \<open>C33: \<open>pagedir_clear_page\<close> removes one page from the map of its directory and keeps every other
  pair of every directory; and when the directory is the active one, the processor holds no stale
  translation afterwards.\<close>

theorem pagedir_clear_page_unmaps:
  assumes "vm_ok s" "pd_ok s pd" "cpu_valid s" "is_kernel_vaddr pd" "is_user_vaddr upage" "pg_ofs upage = 0"
  shows "\<exists>s'. pagedir_clear_page pd upage s = Some s' \<and> vm_ok s' \<and> pd_ok s' pd \<and> others_kept pd s s' \<and>
    (\<forall>va. is_user_vaddr va \<longrightarrow> pagedir_get_page pd va s' =
       (if pg_no va = pg_no upage then Some 0 else pagedir_get_page pd va s)) \<and>
    (active_pd s = Some pd \<and> pagedir_get_page pd upage s \<noteq> Some 0 \<longrightarrow> tlb s' = {})"
proof (cases "pte_of s pd upage AND PTE_P = 0")
  case True
  then have "pagedir_clear_page pd upage s = Some s"
    using lookup_page_find [OF assms(1,2,5)] load_pte [OF assms(1,5)] no_pte [of s pd upage] assms(5,6)
    by (auto simp: pagedir_clear_page_def)
  moreover have "pagedir_get_page pd va s = Some 0" if "is_user_vaddr va" "pg_no va = pg_no upage" for va
    using True pte_of_page [OF that(2), of s pd] pagedir_get_page_pte [OF assms(1,2) that(1)] by (simp add: page_of_pte_def)
  ultimately show ?thesis using assms(1,2,5) by (auto simp: others_kept_def)
next
  case False
  let ?w = "pte_of s pd upage AND NOT PTE_P"
  have nz: "pde_at s pd (unat (pd_no upage)) \<noteq> 0" using False no_pte [of s pd upage] by auto
  obtain s1 where u: "store_word (table_of (pde_at s pd (unat (pd_no upage))), unat (pt_no upage)) ?w s = Some s1"
      "vm_ok s1" "pd_ok s1 pd" "same_cpu s s1" "others_kept pd s s1"
      "\<And>vb. is_user_vaddr vb \<Longrightarrow> pte_of s1 pd vb = (if pg_no vb = pg_no upage then ?w else pte_of s pd vb)"
    by (rule update_pte [OF assms(1,2,5) nz, of ?w]) blast
  have pd0: "pd \<noteq> 0" "cpu_valid s1" using assms(2,3) u(4) by (simp_all add: pd_ok_def cpu_valid_def same_cpu_def)
  obtain s' where i: "invalidate_pagedir pd s1 = Some s'" "mem s' = mem s1"
      "tlb s' = (if cr3 s1 + PHYS_BASE = pd then {} else tlb s1)"
    using invalidate_pagedir_ok [OF pd0(2,1) assms(4)] by blast
  note m = mem_only [OF i(2)]
  have "pagedir_clear_page pd upage s = Some s'"
    using lookup_page_find [OF assms(1,2,5)] load_pte [OF assms(1,5) nz] nz False u(1) i(1) assms(5,6)
    by (simp add: pagedir_clear_page_def)
  moreover have "others_kept pd s s'"
    by (rule others_kept_mem [OF i(2) u(2,5)])
  moreover have "active_pd s = Some pd \<longrightarrow> tlb s' = {}"
    using i(3) u(4) by (auto simp: active_pd_def ptov_def same_cpu_def bind_eq_Some_conv)
  moreover have "?w AND PTE_P = 0" by (simp add: bit_eq_iff bit_and_iff bit_not_iff)
  then have "pagedir_get_page pd va s' = (if pg_no va = pg_no upage then Some 0 else pagedir_get_page pd va s)"
    if "is_user_vaddr va" for va
    using u(2,3) u(6) [OF that] m pagedir_get_page_pte [OF assms(1,2) that] pagedir_get_page_pte [of s' pd va, OF _ _ that]
    by (simp add: page_of_pte_def)
  ultimately show ?thesis using m u(2,3) by blast
qed

theorem pagedir_clear_page_unmaps_witness:
  "\<exists>s'. pagedir_clear_page demo_pd 0x5000 demo_vm = Some s' \<and> pagedir_get_page demo_pd 0x5000 s' = Some 0"
  using pagedir_clear_page_unmaps [OF demo_vm_ok demo_pd_ok demo_addrs(6,5,1,3)] demo_addrs(1) by auto

text \<open>The dirty and the accessed bit.\<close>

lemma set_bit_of_pte:
  assumes "vm_ok s" "pd_ok s pd" "cpu_valid s" "is_kernel_vaddr pd" "is_user_vaddr va" "pte_of s pd va \<noteq> 0"
  obtains s' where "set_bit_of flag pd va on s = Some s'" "vm_ok s'" "pd_ok s' pd" "cpu_valid s'"
    "\<And>vb. is_user_vaddr vb \<Longrightarrow> pte_of s' pd vb =
       (if pg_no vb = pg_no va then (if on then pte_of s pd va OR flag else pte_of s pd va AND NOT flag) else pte_of s pd vb)"
proof -
  let ?w = "if on then pte_of s pd va OR flag else pte_of s pd va AND NOT flag"
  have nz: "pde_at s pd (unat (pd_no va)) \<noteq> 0" using assms(6) no_pte [of s pd va] by auto
  obtain s1 where u: "store_word (table_of (pde_at s pd (unat (pd_no va))), unat (pt_no va)) ?w s = Some s1"
      "vm_ok s1" "pd_ok s1 pd" "same_cpu s s1"
      "\<And>vb. is_user_vaddr vb \<Longrightarrow> pte_of s1 pd vb = (if pg_no vb = pg_no va then ?w else pte_of s pd vb)"
    by (rule update_pte [OF assms(1,2,5) nz, of ?w]) blast
  have c: "cpu_valid s1" "pd \<noteq> 0" using assms(2,3) u(4) by (simp_all add: cpu_valid_def same_cpu_def pd_ok_def)
  obtain s' where i: "invalidate_pagedir pd s1 = Some s'" "mem s' = mem s1" "cr3 s' = cr3 s1"
    using invalidate_pagedir_ok [OF c assms(4)] by blast
  have e: "set_bit_of flag pd va on s = Some (if on then s1 else s')"
    using lookup_page_find [OF assms(1,2,5)] load_pte [OF assms(1,5) nz] nz u(1) i(1) by (cases on) (simp_all add: set_bit_of_def)
  show thesis
  proof (cases on)
    case True
    show ?thesis by (rule that [of s1]) (use e u c True in simp_all)
  next
    case False
    then show ?thesis
      using mem_only [OF i(2)] e u c i(3) by (intro that [of s']) (simp_all add: cpu_valid_def)
  qed
qed

lemma flag_other:
  fixes e :: u32
  assumes "flag AND m = 0"
  shows "(if on then e OR flag else e AND NOT flag) AND m = e AND m"
  using assms by (auto simp: bit_eq_iff bit_and_iff bit_or_iff bit_not_iff)

lemma flag_same:
  fixes e :: u32
  assumes "flag \<noteq> 0"
  shows "(if on then e OR flag else e AND NOT flag) AND flag \<noteq> 0 \<longleftrightarrow> on"
proof -
  have "(e OR flag) AND flag = flag" "(e AND NOT flag) AND flag = 0"
    by (auto simp: bit_eq_iff bit_and_iff bit_or_iff bit_not_iff)
  then show ?thesis using assms by simp
qed

lemma page_of_pte_flag:
  assumes "flag AND PTE_P = 0" "flag AND PTE_ADDR = 0"
  shows "page_of_pte (if on then e OR flag else e AND NOT flag) va = page_of_pte e va"
  unfolding page_of_pte_def pte_get_page_def flag_other [OF assms(1)] flag_other [OF assms(2)] ..

text \<open>The dirty and the accessed bit of a mapped page read back as they were set, independently
  of each other; the bits of all other pages and the map of the directory stay.\<close>

theorem pagedir_dirty_accessed:
  assumes "vm_ok s" "pd_ok s pd" "cpu_valid s" "is_kernel_vaddr pd" "is_user_vaddr vpage"
    "pte_of s pd vpage AND PTE_P \<noteq> 0"
  shows "\<exists>s1 s2. pagedir_set_dirty pd vpage d s = Some s1 \<and> pagedir_set_accessed pd vpage a s1 = Some s2 \<and>
    (\<forall>va. is_user_vaddr va \<longrightarrow> pagedir_get_page pd va s2 = pagedir_get_page pd va s \<and>
       pagedir_is_dirty pd va s2 = (if pg_no va = pg_no vpage then Some d else pagedir_is_dirty pd va s) \<and>
       pagedir_is_accessed pd va s2 = (if pg_no va = pg_no vpage then Some a else pagedir_is_accessed pd va s))"
proof -
  note f = PTE_D_def PTE_A_def PTE_P_def PTE_ADDR_def
  let ?e = "pte_of s pd vpage"
  let ?d = "if d then ?e OR PTE_D else ?e AND NOT PTE_D"
  have nz: "?e \<noteq> 0" using assms(6) by auto
  obtain s1 where s1: "set_bit_of PTE_D pd vpage d s = Some s1" "vm_ok s1" "pd_ok s1 pd" "cpu_valid s1"
    "\<And>vb. is_user_vaddr vb \<Longrightarrow> pte_of s1 pd vb = (if pg_no vb = pg_no vpage then ?d else pte_of s pd vb)"
    by (rule set_bit_of_pte [OF assms(1-5) nz, of PTE_D d]) blast
  have p1: "?d AND PTE_P = ?e AND PTE_P" by (rule flag_other) (simp add: f)
  then have nz1: "pte_of s1 pd vpage \<noteq> 0" using s1(5) [OF assms(5)] assms(6) by auto
  let ?a = "if a then ?d OR PTE_A else ?d AND NOT PTE_A"
  obtain s2 where s2: "set_bit_of PTE_A pd vpage a s1 = Some s2" "vm_ok s2" "pd_ok s2 pd"
    "\<And>vb. is_user_vaddr vb \<Longrightarrow> pte_of s2 pd vb = (if pg_no vb = pg_no vpage then ?a else pte_of s pd vb)"
    by (rule set_bit_of_pte [OF s1(2-4) assms(4,5) nz1, of PTE_A a]) (use s1(5) assms(5) in simp)
  define w where "w = ?a"
  have w: "w AND PTE_D \<noteq> 0 \<longleftrightarrow> d" "w AND PTE_A \<noteq> 0 \<longleftrightarrow> a" "page_of_pte w va = page_of_pte ?e va" for va
    using flag_other [of PTE_A PTE_D a ?d] flag_same [of PTE_D d ?e] flag_same [of PTE_A a ?d]
      page_of_pte_flag [of PTE_A a ?d va] page_of_pte_flag [of PTE_D d ?e va] by (simp_all add: w_def f)
  have q: "pte_of s2 pd va = (if pg_no va = pg_no vpage then w else pte_of s pd va)" if "is_user_vaddr va" for va
    using s2(4) [OF that] by (simp add: w_def)
  have "pagedir_get_page pd va s2 = pagedir_get_page pd va s \<and>
       pagedir_is_dirty pd va s2 = (if pg_no va = pg_no vpage then Some d else pagedir_is_dirty pd va s) \<and>
       pagedir_is_accessed pd va s2 = (if pg_no va = pg_no vpage then Some a else pagedir_is_accessed pd va s)"
    if "is_user_vaddr va" for va
    using q [OF that] w pte_of_page [of va vpage s pd]
    unfolding pagedir_is_dirty_def pagedir_is_accessed_def pagedir_get_page_pte [OF assms(1,2) that]
      pagedir_get_page_pte [OF s2(2,3) that] is_bit_pte [OF assms(1,2) that] is_bit_pte [OF s2(2,3) that]
    by (cases "pg_no va = pg_no vpage") simp_all
  then show ?thesis using s1(1) s2(1) by (simp add: pagedir_set_dirty_def pagedir_set_accessed_def)
qed

theorem pagedir_dirty_accessed_witness:
  "\<exists>s1 s2. pagedir_set_dirty demo_pd 0x5000 True demo_vm = Some s1 \<and>
    pagedir_set_accessed demo_pd 0x5000 False s1 = Some s2 \<and> pagedir_is_dirty demo_pd 0x5000 s2 = Some True"
proof -
  have "pte_of demo_vm demo_pd 0x5000 AND PTE_P \<noteq> 0" by (simp add: demo_pte PTE_P_def)
  from pagedir_dirty_accessed [OF demo_vm_ok demo_pd_ok demo_addrs(6,5,1) this, of True False] demo_addrs(1)
  show ?thesis by auto
qed

section \<open>Destroying a directory\<close>

lemma page_of_pool_run:
  assumes "pages_ok m" "pg \<in> in_use m"
  obtains u r where "pg = page_addr (get_pool u m) r" "bit_run (bm (used_map (get_pool u m))) r 1 True"
proof -
  from assms(2) obtain u where "pg \<in> pool_used (get_pool u m)" by (auto simp: in_use_get_pool [of m True])
  then show thesis by (auto simp: pool_used_def bit_run_def intro!: that [of u])
qed

lemma page_group_1 [simp]: "page_group pg (Suc 0) = [pg]"
  by (simp add: page_group_def)

lemma palloc_free_page_used:
  assumes "pages_ok m" "pg \<in> in_use m"
  shows "\<exists>m'. palloc_free_page pg m = Some m' \<and> pages_ok m' \<and> in_use m' = in_use m - {pg} \<and>
    ram m' = (ram m)(pg := replicate 1024 0xcccccccc) \<and>
    pool_pages (kernel_pool m') = pool_pages (kernel_pool m) \<and> init_ram_pages m' = init_ram_pages m"
proof -
  obtain u r where r: "pg = page_addr (get_pool u m) r" "bit_run (bm (used_map (get_pool u m))) r 1 True"
    by (rule page_of_pool_run [OF assms])
  define p where "p = get_pool u m"
  have pk: "pool_ok p" unfolding p_def by (rule pages_ok_pool [OF assms(1)])
  have le: "r + 1 \<le> bit_cnt (used_map p)" using r(2) by (simp add: bit_run_def p_def)
  have grp: "group_of p r 1 = {pg}" using r(1) by (simp add: group_of_def p_def)
  define m1 where "m1 = memset_pages pg 0xcccccccc (wrap32 (PGSIZE * 1)) m"
  have m1: "pages_ok m1" "get_pool u m1 = p" "get_pool (\<not> u) m1 = get_pool (\<not> u) m" "init_ram_pages m1 = init_ram_pages m"
      "kernel_pool m1 = kernel_pool m" "user_pool m1 = user_pool m"
    using assms(1) by (simp_all add: m1_def p_def memset_pages_def get_pool_def)
  have ram1: "ram m1 = (ram m)(pg := replicate 1024 0xcccccccc)"
    using ram_memset_pages [OF pk le] r(1) grp by (auto simp: m1_def p_def simp del: PGSIZE_def)
  obtain b where b: "palloc_free_multiple pg 1 m = Some (set_pool u (p\<lparr>used_map := b\<rparr>) m1)"
      "bitmap_ok b" "bit_cnt b = bit_cnt (used_map p)" "bm b = fill (bm (used_map p)) r 1 False"
    using palloc_free_multiple_run [OF assms(1) zero_less_one refl r(2)] r(1) unfolding p_def m1_def by blast
  let ?m = "set_pool u (p\<lparr>used_map := b\<rparr>) m1"
  have "pages_ok ?m" using pages_ok_set_pool [OF m1(1) b(2), of u] b(3) m1(2) by simp
  moreover have "in_use ?m = in_use m - {pg}"
  proof -
    have "pg \<in> pool_pages p" using le r(1) by (simp add: pool_pages_def p_def)
    then have "pg \<notin> pool_used (get_pool (\<not> u) m)"
      using assms(1) pool_used_subset unfolding pages_ok_get_pool [of m u] p_def by blast
    then show ?thesis
      using used_fill [OF pk b(4,3) le] grp m1(3) unfolding in_use_set_pool in_use_get_pool [of m u] p_def by auto
  qed
  moreover have "pool_pages (kernel_pool ?m) = pool_pages (kernel_pool m)" "init_ram_pages ?m = init_ram_pages m"
    using b(3) m1 by (simp_all add: set_pool_def p_def get_pool_def pool_pages_def page_addr_map)
  ultimately show ?thesis using b(1) ram1 by (simp add: palloc_free_page_def)
qed

lemma vm_free_page_used:
  assumes "vm_ok s" "pg \<in> in_use (mem s)"
  obtains s' where "vm_free_page pg s = Some s'" "vm_ok s'" "in_use (mem s') = in_use (mem s) - {pg}" "same_cpu s s'"
    "\<And>a. a \<noteq> pg \<Longrightarrow> ram (mem s') a = ram (mem s) a"
proof -
  have "pages_ok (mem s)" using assms(1) by (simp add: vm_ok_def)
  then obtain m' where m: "palloc_free_page pg (mem s) = Some m'" "pages_ok m'" "in_use m' = in_use (mem s) - {pg}"
      "ram m' = (ram (mem s))(pg := replicate 1024 0xcccccccc)"
      "pool_pages (kernel_pool m') = pool_pages (kernel_pool (mem s))" "init_ram_pages m' = init_ram_pages (mem s)"
    using palloc_free_page_used [OF _ assms(2)] by blast
  show thesis
    by (rule that [of "s\<lparr>mem := m'\<rparr>"]) (use m assms(1) in \<open>simp_all add: vm_free_page_def vm_ok_def same_cpu_def\<close>)
qed

text \<open>The pages that a table and a directory own.\<close>

definition table_pages :: "u32 list \<Rightarrow> nat list \<Rightarrow> u32 list" where
  "table_pages es is = map (\<lambda>i. table_of (es ! i)) (filter (\<lambda>i. es ! i AND PTE_P \<noteq> 0) is)"

definition addrs_ok :: "u32 list \<Rightarrow> nat list \<Rightarrow> bool" where
  "addrs_ok es is \<longleftrightarrow> (\<forall>i\<in>set is. es ! i AND PTE_P \<noteq> 0 \<longrightarrow> es ! i AND PTE_ADDR < PHYS_BASE)"

text \<open>\<open>frees\<close>: a list of used pages is given back, and nothing else changes.\<close>

definition frees :: "u32 list \<Rightarrow> vm \<Rightarrow> vm \<Rightarrow> bool" where
  "frees pgs s s' \<longleftrightarrow> vm_ok s' \<and> same_cpu s s' \<and> in_use (mem s') = in_use (mem s) - set pgs \<and>
     (\<forall>a. a \<notin> set pgs \<longrightarrow> ram (mem s') a = ram (mem s) a)"

lemma frees_append: "frees ps s s1 \<Longrightarrow> frees qs s1 s2 \<Longrightarrow> frees (ps @ qs) s s2"
  by (auto simp: frees_def same_cpu_def)

lemma free_one:
  assumes "vm_ok s" "pg \<in> in_use (mem s)"
  obtains s' where "vm_free_page pg s = Some s'" "frees [pg] s s'"
  by (rule vm_free_page_used [OF assms]) (simp add: frees_def that)

lemma destroy_entries_frees:
  assumes "vm_ok s" "es = ram (mem s) pt" "set is \<subseteq> {..<1024}" "addrs_ok es is"
    and "distinct (table_pages es is)" "set (table_pages es is) \<subseteq> in_use (mem s)" "pt \<notin> set (table_pages es is)"
  shows "\<exists>s'. destroy_entries pt is s = Some s' \<and> frees (table_pages es is) s s'"
  using assms
proof (induction "is" arbitrary: s)
  case Nil
  then show ?case by (simp add: frees_def table_pages_def same_cpu_def)
next
  case (Cons i "is")
  have l: "load_word s (pt, i) = Some (es ! i)" using load_word_ok [OF Cons.prems(1)] Cons.prems(2,3) by simp
  show ?case
  proof (cases "es ! i AND PTE_P = 0")
    case True
    then have "table_pages es (i # is) = table_pages es is" by (simp add: table_pages_def)
    with Cons.IH [of s] Cons.prems l True show ?thesis by (simp add: addrs_ok_def)
  next
    case False
    then have tp: "table_pages es (i # is) = table_of (es ! i) # table_pages es is" by (simp add: table_pages_def)
    obtain s1 where s1: "vm_free_page (table_of (es ! i)) s = Some s1" "frees [table_of (es ! i)] s s1"
      by (rule free_one [OF Cons.prems(1), of "table_of (es ! i)"]) (use Cons.prems(6) tp in auto)
    have "\<exists>s'. destroy_entries pt is s1 = Some s' \<and> frees (table_pages es is) s1 s'"
      by (rule Cons.IH) (use s1(2) Cons.prems tp in \<open>auto simp: frees_def addrs_ok_def\<close>)
    then obtain s' where s': "destroy_entries pt is s1 = Some s'" "frees (table_pages es is) s1 s'" by blast
    have "pte_get_page (es ! i) = Some (table_of (es ! i))"
      using Cons.prems(4) False by (simp add: addrs_ok_def pte_get_page_def ptov_def table_of_def)
    with l False s1(1) s'(1) have "destroy_entries pt (i # is) s = Some s'" by simp
    with frees_append [OF s1(2) s'(2)] tp show ?thesis by simp
  qed
qed

definition owned_by_table :: "vm \<Rightarrow> u32 \<Rightarrow> u32 list" where
  "owned_by_table s pde = (if pde AND PTE_P \<noteq> 0
     then table_pages (ram (mem s) (table_of pde)) [0..<1024] @ [table_of pde] else [])"

definition owned :: "vm \<Rightarrow> u32 \<Rightarrow> nat list \<Rightarrow> u32 list" where
  "owned s pd is = concat (map (\<lambda>i. owned_by_table s (pde_at s pd i)) is)"

definition tables_valid :: "vm \<Rightarrow> u32 \<Rightarrow> nat list \<Rightarrow> bool" where
  "tables_valid s pd is \<longleftrightarrow> addrs_ok (ram (mem s) pd) is \<and>
     (\<forall>i\<in>set is. pde_at s pd i AND PTE_P \<noteq> 0 \<longrightarrow> addrs_ok (ram (mem s) (table_of (pde_at s pd i))) [0..<1024])"

text \<open>Freeing pages that the remaining tables do not own keeps what they own.\<close>

lemma owned_frame:
  assumes "pd \<notin> set ps" "frees ps s s'" "set ps \<inter> set (owned s pd is) = {}"
  shows "owned s' pd is = owned s pd is" "tables_valid s pd is \<Longrightarrow> tables_valid s' pd is"
proof -
  have r: "ram (mem s') a = ram (mem s) a" if "a \<notin> set ps" for a using assms(2) that by (simp add: frees_def)
  have e: "pde_at s' pd i = pde_at s pd i" for i using r [OF assms(1)] by (simp add: pde_at_def)
  have t: "ram (mem s') (table_of (pde_at s pd i)) = ram (mem s) (table_of (pde_at s pd i))"
    if "i \<in> set is" "pde_at s pd i AND PTE_P \<noteq> 0" for i
    by (rule r) (use assms(3) that in \<open>auto simp: owned_def owned_by_table_def\<close>)
  then have "owned_by_table s' (pde_at s pd i) = owned_by_table s (pde_at s pd i)" if "i \<in> set is" for i
    using that by (simp add: owned_by_table_def)
  then show "owned s' pd is = owned s pd is" by (simp add: owned_def e cong: map_cong)
  show "tables_valid s' pd is" if "tables_valid s pd is"
    using that r [OF assms(1)] t by (simp add: tables_valid_def e)
qed

lemma destroy_tables_frees:
  assumes "vm_ok s" "set is \<subseteq> {..<1024}" "tables_valid s pd is"
    and "distinct (owned s pd is)" "set (owned s pd is) \<subseteq> in_use (mem s)" "pd \<notin> set (owned s pd is)"
  shows "\<exists>s'. destroy_tables pd is s = Some s' \<and> frees (owned s pd is) s s'"
  using assms
proof (induction "is" arbitrary: s)
  case Nil
  then show ?case by (simp add: frees_def owned_def same_cpu_def)
next
  case (Cons i "is")
  let ?e = "pde_at s pd i"
  have l: "load_word s (pd, i) = Some ?e" using load_word_ok [OF Cons.prems(1)] Cons.prems(2) by (simp add: pde_at_def)
  have ow: "owned s pd (i # is) = owned_by_table s ?e @ owned s pd is" by (simp add: owned_def)
  have tv: "tables_valid s pd is" using Cons.prems(3) by (simp add: tables_valid_def addrs_ok_def)
  show ?case
  proof (cases "?e AND PTE_P = 0")
    case True
    then have "owned s pd (i # is) = owned s pd is" by (simp add: ow owned_by_table_def)
    with Cons.IH [of s] Cons.prems tv l True show ?thesis by simp
  next
    case False
    let ?pt = "table_of ?e"
    let ?ps = "table_pages (ram (mem s) ?pt) [0..<1024]"
    have ob: "owned_by_table s ?e = ?ps @ [?pt]" using False by (simp add: owned_by_table_def)
    have d: "distinct (?ps @ [?pt])" "set (?ps @ [?pt]) \<inter> set (owned s pd is) = {}" "pd \<notin> set (?ps @ [?pt])"
        "set (?ps @ [?pt]) \<subseteq> in_use (mem s)"
      using Cons.prems(4-6) unfolding ow ob by auto
    obtain s1 where s1: "destroy_entries ?pt [0..<1024] s = Some s1" "frees ?ps s s1"
      using destroy_entries_frees [OF Cons.prems(1) refl, of "[0..<1024]" ?pt] d Cons.prems(3) False
      by (auto simp: tables_valid_def lessThan_atLeast0)
    obtain s2 where s2: "vm_free_page ?pt s1 = Some s2" "frees [?pt] s1 s2"
      by (rule free_one [of s1 ?pt]) (use s1(2) d in \<open>auto simp: frees_def\<close>)
    have f: "frees (?ps @ [?pt]) s s2" by (rule frees_append [OF s1(2) s2(2)])
    note o = owned_frame [OF d(3) f d(2)]
    have "\<exists>s'. destroy_tables pd is s2 = Some s' \<and> frees (owned s2 pd is) s2 s'"
      by (rule Cons.IH) (use f o tv Cons.prems ow d(2) in \<open>auto simp: frees_def\<close>)
    then obtain s' where s': "destroy_tables pd is s2 = Some s'" "frees (owned s pd is) s2 s'" using o(1) by auto
    have "pde_get_pt ?e = Some ?pt"
      using Cons.prems(3) False by (simp add: tables_valid_def addrs_ok_def pde_get_pt_def ptov_def table_of_def pde_at_def)
    with l False s1(1) s2(1) s'(1) have "destroy_tables pd (i # is) s = Some s'" by simp
    with frees_append [OF f s'(2)] ow ob show ?thesis by simp
  qed
qed

text \<open>C34: \<open>pagedir_destroy\<close> gives back the directory, its page tables and every page they map, each
  exactly once, and touches no other page.\<close>

theorem pagedir_destroy_frees:
  assumes "vm_ok s" "pd \<noteq> 0" "pd \<noteq> init_page_dir s" "tables_valid s pd [0..<768]"
    and "distinct (pd # owned s pd [0..<768])" "set (pd # owned s pd [0..<768]) \<subseteq> in_use (mem s)"
  shows "\<exists>s'. pagedir_destroy pd s = Some s' \<and> vm_ok s' \<and>
    in_use (mem s') = in_use (mem s) - set (pd # owned s pd [0..<768]) \<and>
    (\<forall>a. a \<notin> set (pd # owned s pd [0..<768]) \<longrightarrow> ram (mem s') a = ram (mem s) a)"
proof -
  have n: "unat (pd_no PHYS_BASE) = 768" by (simp add: unat_pd_no PHYS_BASE_def)
  obtain s1 where s1: "destroy_tables pd [0..<768] s = Some s1" "frees (owned s pd [0..<768]) s s1"
    using destroy_tables_frees [OF assms(1) _ assms(4)] assms(5,6) by (auto simp: lessThan_atLeast0)
  obtain s2 where s2: "vm_free_page pd s1 = Some s2" "frees [pd] s1 s2"
    by (rule free_one [of s1 pd]) (use s1(2) assms(5,6) in \<open>auto simp: frees_def\<close>)
  have "pagedir_destroy pd s = Some s2"
    using s1(1) s2(1) assms(2,3) unfolding pagedir_destroy_def n by simp
  with frees_append [OF s1(2) s2(2)] show ?thesis by (auto simp: frees_def)
qed

lemma filter_one: "filter (\<lambda>i. i = k) [0..<n] = (if k < n then [k] else [])"
  by (induction n) auto

lemma concat_nil: "\<forall>i\<in>set is. f i = [] \<Longrightarrow> concat (map f is) = []"
  by (induction "is") simp_all

lemma demo_owned: "owned demo_vm demo_pd [0..<768] = [0xc0103000, 0xc0102000]"
proof -
  let ?es = "ram (mem demo_vm) 0xc0102000"
  have es: "?es ! i = (if i = 5 then 0x103007 else 0)" if "i < 1024" for i
    using that by (simp add: demo_vm_def nth_list_update)
  then have "filter (\<lambda>i. ?es ! i AND PTE_P \<noteq> 0) [0..<1024] = filter (\<lambda>i. i = 5) [0..<1024]"
    by (intro filter_cong) (simp_all add: PTE_P_def)
  then have tp: "table_pages ?es [0..<1024] = [0xc0103000]"
    using es demo_table by (simp add: table_pages_def filter_one)
  have z: "\<forall>i\<in>set [Suc 0..<768]. owned_by_table demo_vm (pde_at demo_vm demo_pd i) = []"
    by (simp add: demo_pde owned_by_table_def)
  have "[0..<768] = 0 # [Suc 0..<768]" by (rule upt_conv_Cons) simp
  then have "owned demo_vm demo_pd [0..<768] = owned_by_table demo_vm (pde_at demo_vm demo_pd 0)"
    by (simp only: owned_def list.map concat.simps concat_nil [OF z] append_Nil2)
  also have "\<dots> = [0xc0103000, 0xc0102000]"
    using tp by (simp add: demo_pde owned_by_table_def demo_table PTE_P_def)
  finally show ?thesis .
qed

theorem pagedir_destroy_frees_witness:
  "\<exists>s'. pagedir_destroy demo_pd demo_vm = Some s' \<and>
    in_use (mem s') = in_use (mem demo_vm) - {demo_pd, 0xc0103000, 0xc0102000}"
proof -
  have "tables_valid demo_vm demo_pd [0..<768]"
    by (auto simp: tables_valid_def addrs_ok_def demo_pde demo_table)
      (auto simp: demo_vm_def nth_list_update PTE_ADDR_def PHYS_BASE_def split: if_splits)
  moreover have "demo_pd \<noteq> init_page_dir demo_vm" by (simp add: demo_vm_def)
  ultimately show ?thesis
    using pagedir_destroy_frees [OF demo_vm_ok, of demo_pd] demo_in_use by (auto simp: demo_owned)
qed

end
