(* ===== verification/Syscall.thy ===== *)
theory Syscall
  imports FileProps Pagedir
begin

text \<open>
  \<open>userprog/syscall.c\<close>: system calls.

  The state of the running process is the file system, the memory with the page directory of the
  process, its list of open descriptors and the frame of the interrupt.  A call ends in one of
  three ways: it returns, the process exits with a status, or the machine is switched off; a panic
  of the kernel is \<open>None\<close>.  A page fault inside the kernel panics (\<open>kill\<close> in
  \<open>userprog/exception.c\<close>).

  Directories and path names (\<open>filesys/directory.c\<close>, \<open>filesys/filesys.c\<close>) and starting of
  and waiting for processes are arguments of the definitions that call them.
\<close>

section \<open>Memory\<close>

definition load_byte :: "vm \<Rightarrow> u32 \<Rightarrow> u8 option" where
  "load_byte s a = do {
     w \<leftarrow> load_word s (pg_round_down a, unat (pg_ofs a) div 4);
     Some (ucast (drop_bit (8 * (unat (pg_ofs a) mod 4)) w)) }"

definition store_byte :: "u32 \<Rightarrow> u8 \<Rightarrow> vm \<Rightarrow> vm option" where
  "store_byte a b s = do {
     let i = (pg_round_down a, unat (pg_ofs a) div 4);
     let j = 8 * (unat (pg_ofs a) mod 4);
     w \<leftarrow> load_word s i;
     store_word i ((w AND NOT (push_bit j 0xff)) OR push_bit j (ucast b)) s }"

fun load_bytes :: "vm \<Rightarrow> u32 \<Rightarrow> nat \<Rightarrow> u8 list option" where
  "load_bytes s a 0 = Some []"
| "load_bytes s a (Suc n) = do {
     b \<leftarrow> load_byte s a;
     bs \<leftarrow> load_bytes s (a + 1) n;
     Some (b # bs) }"

fun store_bytes :: "u32 \<Rightarrow> u8 list \<Rightarrow> vm \<Rightarrow> vm option" where
  "store_bytes a [] s = Some s"
| "store_bytes a (b # bs) s = do {
     s \<leftarrow> store_byte a b s;
     store_bytes (a + 1) bs s }"

definition word_of_bytes :: "u8 list \<Rightarrow> u32" where
  "word_of_bytes bs = foldr (\<lambda>b w. ucast b OR push_bit 8 w) bs 0"

text \<open>An access of the kernel through a user's pointer, by the page tables.\<close>

definition mmu_byte :: "vm \<Rightarrow> u32 \<Rightarrow> u32 \<Rightarrow> u8 option" where
  "mmu_byte s pd va =
     (if is_user_vaddr va
      then do { k \<leftarrow> pagedir_get_page pd va s; if k = 0 then None else load_byte s k }
      else load_byte s va)"

definition mmu_word :: "vm \<Rightarrow> u32 \<Rightarrow> u32 \<Rightarrow> u32 option" where
  "mmu_word s pd va = do {
     a \<leftarrow> mmu_byte s pd va;
     b \<leftarrow> mmu_byte s pd (va + 1);
     c \<leftarrow> mmu_byte s pd (va + 2);
     d \<leftarrow> mmu_byte s pd (va + 3);
     Some (word_of_bytes [a, b, c, d]) }"

section \<open>Outcomes\<close>

datatype 'a outcome = Ret 'a | Exit int | Off

fun and_then :: "'a outcome option \<Rightarrow> ('a \<Rightarrow> 'b outcome option) \<Rightarrow> 'b outcome option" where
  "and_then (Some (Ret a)) f = f a"
| "and_then (Some (Exit n)) f = Some (Exit n)"
| "and_then (Some Off) f = Some Off"
| "and_then None f = None"

section \<open>Checking the user's pointers\<close>

definition ERROR_STATUS :: int where
  "ERROR_STATUS = -1"

definition is_valid_ptr :: "u32 \<Rightarrow> unit outcome" where
  "is_valid_ptr vaddr = (if \<not> is_user_vaddr vaddr then Exit ERROR_STATUS else Ret ())"

definition get_kernel_ptr :: "vm \<Rightarrow> u32 \<Rightarrow> u32 \<Rightarrow> u32 outcome option" where
  "get_kernel_ptr s pd vaddr = and_then (Some (is_valid_ptr vaddr)) (\<lambda>_. do {
     ptr \<leftarrow> pagedir_get_page pd vaddr s;
     Some (if ptr = 0 then Exit ERROR_STATUS else Ret ptr) })"

fun get_arg_loop :: "vm \<Rightarrow> u32 \<Rightarrow> u32 \<Rightarrow> nat \<Rightarrow> nat \<Rightarrow> u32 list \<Rightarrow> u32 list outcome option" where
  "get_arg_loop s pd sp counter 0 argv = Some (Ret argv)"
| "get_arg_loop s pd sp counter (Suc n) argv =
     (let ptr = sp + of_nat (4 * (counter + 1)) in
      and_then (Some (is_valid_ptr ptr)) (\<lambda>_. do {
        w \<leftarrow> mmu_word s pd ptr;
        get_arg_loop s pd sp (counter + 1) n (argv @ [w]) }))"

definition get_arg :: "vm \<Rightarrow> u32 \<Rightarrow> u32 \<Rightarrow> nat \<Rightarrow> u32 list outcome option" where
  "get_arg s pd sp arg_num = get_arg_loop s pd sp 0 arg_num []"

lemma user_less: "is_user_vaddr a \<Longrightarrow> unat (a + 1) = unat a + 1"
proof -
  assume "is_user_vaddr a"
  then have "unat a < 0xc0000000" by (simp add: is_user_vaddr_def PHYS_BASE_def word_less_nat_alt)
  then show ?thesis by (simp add: unat_word_ariths)
qed

function is_valid_string :: "vm \<Rightarrow> u32 \<Rightarrow> u32 \<Rightarrow> unit outcome option" where
  "is_valid_string s pd str =
     (case get_kernel_ptr s pd str of
        Some (Ret k) \<Rightarrow>
          (case load_byte s k of
             None \<Rightarrow> None
           | Some c \<Rightarrow> if c \<noteq> 0 then is_valid_string s pd (str + 1) else Some (Ret ()))
      | Some (Exit n) \<Rightarrow> Some (Exit n)
      | Some Off \<Rightarrow> Some Off
      | None \<Rightarrow> None)"
  by pat_completeness auto
termination
proof (relation "measure (\<lambda>(s, pd, str). 2 ^ 32 - unat str)", goal_cases)
  case (2 s pd str x2 x1 c)
  have "is_user_vaddr str"
  proof (rule ccontr)
    assume "\<not> is_user_vaddr str"
    then show False using 2 by (simp add: get_kernel_ptr_def is_valid_ptr_def)
  qed
  moreover have "unat str < 2 ^ 32" using unsigned_less [of str] by simp
  ultimately show ?case by (simp add: user_less)
qed simp

declare is_valid_string.simps [simp del]

fun is_valid_buffer :: "u32 \<Rightarrow> nat \<Rightarrow> unit outcome" where
  "is_valid_buffer temp_buffer 0 = Ret ()"
| "is_valid_buffer temp_buffer (Suc n) =
     (case is_valid_ptr temp_buffer of
        Ret _ \<Rightarrow> is_valid_buffer (temp_buffer + 1) n
      | r \<Rightarrow> r)"

section \<open>Descriptors\<close>

record file_process =
  fp_file :: nat
  fp_dir :: nat
  fd :: int
  is_dir :: bool

record process =
  pfs :: fs
  pvm :: vm
  pagedir :: u32
  file_list :: "file_process list"
  next_fd :: int
  garbage :: nat
  console :: "u8 list"
  keys :: "nat \<Rightarrow> u8"
  keys_read :: nat
  esp :: u32
  eax :: u32

definition add_file :: "nat \<Rightarrow> process \<Rightarrow> int \<times> process" where
  "add_file f p =
     (let (m, s) = fs_malloc (pfs p);
          p = p\<lparr>pfs := s\<rparr>
      in if m = 0 then (ERROR_STATUS, p)
         else let fp = \<lparr>fp_file = f, fp_dir = garbage p, fd = next_fd p, is_dir = False\<rparr>
              in (fd fp, p\<lparr>next_fd := i32 (next_fd p + 1), file_list := file_list p @ [fp]\<rparr>))"

definition add_dir :: "nat \<Rightarrow> process \<Rightarrow> int \<times> process" where
  "add_dir d p =
     (let (m, s) = fs_malloc (pfs p);
          p = p\<lparr>pfs := s\<rparr>
      in if m = 0 then (ERROR_STATUS, p)
         else let fp = \<lparr>fp_file = garbage p, fp_dir = d, fd = next_fd p, is_dir = True\<rparr>
              in (fd fp, p\<lparr>next_fd := i32 (next_fd p + 1), file_list := file_list p @ [fp]\<rparr>))"

fun find_fd :: "int \<Rightarrow> file_process list \<Rightarrow> file_process option" where
  "find_fd cur_fd [] = None"
| "find_fd cur_fd (fp # fps) = (if fd fp = cur_fd then Some fp else find_fd cur_fd fps)"

definition get_file :: "int \<Rightarrow> process \<Rightarrow> file_process option" where
  "get_file cur_fd p = find_fd cur_fd (file_list p)"

text \<open>\<open>list_remove\<close> of the element that a search has found takes the first entry of the
  descriptor out of the list.\<close>

fun remove_fd :: "int \<Rightarrow> file_process list \<Rightarrow> file_process list" where
  "remove_fd cur_fd [] = []"
| "remove_fd cur_fd (fp # fps) = (if fd fp = cur_fd then fps else fp # remove_fd cur_fd fps)"

type_synonym dir_closer = "nat \<Rightarrow> fs \<Rightarrow> fs option"

definition close_fd :: "map_writer \<Rightarrow> dir_closer \<Rightarrow> int \<Rightarrow> process \<Rightarrow> process option" where
  "close_fd w dir_close d p =
     (case get_file d p of
        None \<Rightarrow> Some p
      | Some fp \<Rightarrow>
          if \<not> is_dir fp
          then do {
            s \<leftarrow> file_close w (fp_file fp) (pfs p);
            Some (p\<lparr>pfs := s, file_list := remove_fd d (file_list p)\<rparr>) }
          else do {
            s \<leftarrow> dir_close (fp_dir fp) (pfs p);
            Some (p\<lparr>pfs := s, file_list := remove_fd d (file_list p)\<rparr>) })"

fun close_loop :: "map_writer \<Rightarrow> dir_closer \<Rightarrow> file_process list \<Rightarrow> process \<Rightarrow> process option" where
  "close_loop w dir_close [] p = Some p"
| "close_loop w dir_close (fp # fps) p = do {
     p \<leftarrow> close_fd w dir_close (fd fp) p;
     close_loop w dir_close fps p }"

definition close_all_file :: "map_writer \<Rightarrow> dir_closer \<Rightarrow> process \<Rightarrow> process option" where
  "close_all_file w dir_close p = close_loop w dir_close (file_list p) p"

section \<open>The calls\<close>

text \<open>What the calls use of \<open>filesys/filesys.c\<close>, \<open>filesys/directory.c\<close> and
  \<open>userprog/process.c\<close>.  A path is given by the address of its string in the memory.\<close>

record callees =
  filesys_create :: "vm \<Rightarrow> u32 \<Rightarrow> u32 \<Rightarrow> fs \<Rightarrow> (bool \<times> fs) option"
  filesys_remove :: "vm \<Rightarrow> u32 \<Rightarrow> fs \<Rightarrow> (bool \<times> fs) option"
  filesys_open :: "vm \<Rightarrow> u32 \<Rightarrow> fs \<Rightarrow> (nat \<times> fs) option"
  filesys_chdir :: "vm \<Rightarrow> u32 \<Rightarrow> fs \<Rightarrow> (bool \<times> fs) option"
  filesys_mkdir :: "vm \<Rightarrow> u32 \<Rightarrow> fs \<Rightarrow> (bool \<times> fs) option"
  dir_close :: "nat \<Rightarrow> fs \<Rightarrow> fs option"
  dir_readdir :: "nat \<Rightarrow> u32 \<Rightarrow> vm \<Rightarrow> fs \<Rightarrow> (bool \<times> vm \<times> fs) option"
  dir_get_inode :: "nat \<Rightarrow> fs \<Rightarrow> nat option"
  process_execute :: "u32 \<Rightarrow> process \<Rightarrow> (int \<times> process) option"
  process_wait :: "int \<Rightarrow> process \<Rightarrow> (int \<times> process) option"

definition on_fs :: "(fs \<Rightarrow> ('a \<times> fs) option) \<Rightarrow> process \<Rightarrow> ('a \<times> process) option" where
  "on_fs f p = do { (a, s) \<leftarrow> f (pfs p); Some (a, p\<lparr>pfs := s\<rparr>) }"

definition create :: "callees \<Rightarrow> u32 \<Rightarrow> u32 \<Rightarrow> process \<Rightarrow> (bool \<times> process) option" where
  "create x file initial_size p = on_fs (filesys_create x (pvm p) file initial_size) p"

definition remove :: "callees \<Rightarrow> u32 \<Rightarrow> process \<Rightarrow> (bool \<times> process) option" where
  "remove x file p = on_fs (filesys_remove x (pvm p) file) p"

definition open_path :: "callees \<Rightarrow> u32 \<Rightarrow> process \<Rightarrow> (int \<times> process) option" where
  "open_path x file p = do {
     (f, p) \<leftarrow> on_fs (filesys_open x (pvm p) file) p;
     if f = 0 then Some (ERROR_STATUS, p)
     else do {
       a \<leftarrow> file_get_inode f (pfs p);
       Some (if sub_dir (data (inodes (pfs p) a)) then add_dir f p else add_file f p) } }"

definition filesize :: "int \<Rightarrow> process \<Rightarrow> int option" where
  "filesize d p =
     (case get_file d p of
        None \<Rightarrow> Some ERROR_STATUS
      | Some fp \<Rightarrow> file_length (fp_file fp) (pfs p))"

definition read_fd :: "int \<Rightarrow> u32 \<Rightarrow> u32 \<Rightarrow> process \<Rightarrow> (int \<times> process) option" where
  "read_fd d buffer sz p =
     (if d = 0
      then do {
        s \<leftarrow> store_bytes buffer (map (\<lambda>i. keys p (keys_read p + i)) [0..<unat sz]) (pvm p);
        Some (sint sz, p\<lparr>pvm := s, keys_read := keys_read p + unat sz\<rparr>) }
      else
        (case get_file d p of
           None \<Rightarrow> Some (ERROR_STATUS, p)
         | Some fp \<Rightarrow> do {
             (bs, s) \<leftarrow> file_read (fp_file fp) (sint sz) (pfs p);
             m \<leftarrow> store_bytes buffer bs (pvm p);
             Some (int (length bs), p\<lparr>pfs := s, pvm := m\<rparr>) }))"

definition write_fd :: "map_writer \<Rightarrow> int \<Rightarrow> u32 \<Rightarrow> u32 \<Rightarrow> process \<Rightarrow> (int \<times> process) option" where
  "write_fd w d buffer sz p =
     (if d = 1
      then do {
        bs \<leftarrow> load_bytes (pvm p) buffer (unat sz);
        Some (sint sz, p\<lparr>console := console p @ bs\<rparr>) }
      else
        (case get_file d p of
           None \<Rightarrow> Some (ERROR_STATUS, p)
         | Some fp \<Rightarrow>
             if is_dir fp then Some (ERROR_STATUS, p)
             else do {
               bs \<leftarrow> load_bytes (pvm p) buffer (nat (sint sz));
               on_fs (file_write w (fp_file fp) bs (sint sz)) p }))"

text \<open>\<open>seek\<close> and \<open>tell\<close> read \<open>fp->is_dir\<close> before they test \<open>fp\<close>, a page fault when there
  is no such descriptor; \<open>tell\<close> returns no value, so the caller finds what the register held.\<close>

definition seek :: "int \<Rightarrow> u32 \<Rightarrow> process \<Rightarrow> process option" where
  "seek d position p =
     (case get_file d p of
        None \<Rightarrow> None
      | Some fp \<Rightarrow>
          if is_dir fp then Some p
          else do { s \<leftarrow> file_seek (fp_file fp) (sint position) (pfs p); Some (p\<lparr>pfs := s\<rparr>) })"

definition tell :: "int \<Rightarrow> process \<Rightarrow> u32 option" where
  "tell d p =
     (case get_file d p of
        None \<Rightarrow> None
      | Some fp \<Rightarrow>
          if is_dir fp then Some (of_nat (garbage p))
          else do { result \<leftarrow> file_tell (fp_file fp) (pfs p); Some (of_nat (garbage p)) })"

definition readdir :: "callees \<Rightarrow> int \<Rightarrow> u32 \<Rightarrow> process \<Rightarrow> (bool \<times> process) option" where
  "readdir x d dir_path p =
     (case get_file d p of
        None \<Rightarrow> Some (False, p)
      | Some fp \<Rightarrow>
          if \<not> is_dir fp then Some (False, p)
          else do {
            (r, m, s) \<leftarrow> dir_readdir x (fp_dir fp) dir_path (pvm p) (pfs p);
            Some (r, p\<lparr>pvm := m, pfs := s\<rparr>) })"

definition isdir :: "int \<Rightarrow> process \<Rightarrow> bool" where
  "isdir d p = (case get_file d p of None \<Rightarrow> False | Some fp \<Rightarrow> is_dir fp)"

definition inumber :: "callees \<Rightarrow> int \<Rightarrow> process \<Rightarrow> u32 option" where
  "inumber x d p =
     (case get_file d p of
        None \<Rightarrow> Some (word_of_int ERROR_STATUS)
      | Some fp \<Rightarrow> do {
          a \<leftarrow> (if is_dir fp then dir_get_inode x (fp_dir fp) (pfs p) else file_get_inode (fp_file fp) (pfs p));
          Some (inode_get_inumber a (pfs p)) })"

section \<open>The handler\<close>

datatype sys_nr = SYS_HALT | SYS_EXIT | SYS_EXEC | SYS_WAIT | SYS_CREATE | SYS_REMOVE | SYS_OPEN | SYS_FILESIZE
  | SYS_READ | SYS_WRITE | SYS_SEEK | SYS_TELL | SYS_CLOSE | SYS_MMAP | SYS_MUNMAP
  | SYS_CHDIR | SYS_MKDIR | SYS_READDIR | SYS_ISDIR | SYS_INUMBER

definition sys_nrs :: "sys_nr list" where
  "sys_nrs = [SYS_HALT, SYS_EXIT, SYS_EXEC, SYS_WAIT, SYS_CREATE, SYS_REMOVE, SYS_OPEN, SYS_FILESIZE,
     SYS_READ, SYS_WRITE, SYS_SEEK, SYS_TELL, SYS_CLOSE, SYS_MMAP, SYS_MUNMAP,
     SYS_CHDIR, SYS_MKDIR, SYS_READDIR, SYS_ISDIR, SYS_INUMBER]"

definition sys_nr_of :: "u32 \<Rightarrow> sys_nr option" where
  "sys_nr_of n = (if unat n < length sys_nrs then Some (sys_nrs ! unat n) else None)"

definition ret_int :: "(int \<times> process) option \<Rightarrow> process outcome option" where
  "ret_int r = map_option (\<lambda>(n, p). Ret (p\<lparr>eax := word_of_int n\<rparr>)) r"

definition ret_bool :: "(bool \<times> process) option \<Rightarrow> process outcome option" where
  "ret_bool r = map_option (\<lambda>(b, p). Ret (p\<lparr>eax := of_bool b\<rparr>)) r"

definition args :: "process \<Rightarrow> nat \<Rightarrow> (u32 list \<Rightarrow> process outcome option) \<Rightarrow> process outcome option" where
  "args p n f = and_then (get_arg (pvm p) (pagedir p) (esp p) n) f"

text \<open>A call whose argument \<open>i\<close> is a string: it is checked, and its kernel address replaces it.\<close>

definition string_arg :: "process \<Rightarrow> u32 \<Rightarrow> (u32 \<Rightarrow> process outcome option) \<Rightarrow> process outcome option" where
  "string_arg p str f =
     and_then (is_valid_string (pvm p) (pagedir p) str) (\<lambda>_.
     and_then (get_kernel_ptr (pvm p) (pagedir p) str) f)"

definition buffer_arg :: "process \<Rightarrow> u32 \<Rightarrow> u32 \<Rightarrow> (u32 \<Rightarrow> process outcome option) \<Rightarrow> process outcome option" where
  "buffer_arg p buffer sz f =
     and_then (Some (is_valid_buffer buffer (unat sz))) (\<lambda>_.
     and_then (get_kernel_ptr (pvm p) (pagedir p) buffer) f)"

definition syscall_handler :: "map_writer \<Rightarrow> callees \<Rightarrow> process \<Rightarrow> process outcome option" where
  "syscall_handler w x p =
     and_then (get_kernel_ptr (pvm p) (pagedir p) (esp p)) (\<lambda>sp. do {
       bs \<leftarrow> load_bytes (pvm p) sp 4;
       case sys_nr_of (word_of_bytes bs) of
         Some SYS_HALT \<Rightarrow> Some Off
       | Some SYS_EXIT \<Rightarrow> args p 1 (\<lambda>argv. Some (Exit (sint (argv ! 0))))
       | Some SYS_EXEC \<Rightarrow> args p 1 (\<lambda>argv. string_arg p (argv ! 0) (\<lambda>k. ret_int (process_execute x k p)))
       | Some SYS_WAIT \<Rightarrow> args p 1 (\<lambda>argv. ret_int (process_wait x (sint (argv ! 0)) p))
       | Some SYS_CREATE \<Rightarrow> args p 2 (\<lambda>argv. string_arg p (argv ! 0) (\<lambda>k. ret_bool (create x k (argv ! 1) p)))
       | Some SYS_REMOVE \<Rightarrow> args p 1 (\<lambda>argv. string_arg p (argv ! 0) (\<lambda>k. ret_bool (remove x k p)))
       | Some SYS_OPEN \<Rightarrow> args p 1 (\<lambda>argv. string_arg p (argv ! 0) (\<lambda>k. ret_int (open_path x k p)))
       | Some SYS_FILESIZE \<Rightarrow> args p 1 (\<lambda>argv. ret_int (map_option (\<lambda>n. (n, p)) (filesize (sint (argv ! 0)) p)))
       | Some SYS_READ \<Rightarrow> args p 3 (\<lambda>argv. buffer_arg p (argv ! 1) (argv ! 2) (\<lambda>k.
           ret_int (read_fd (sint (argv ! 0)) k (argv ! 2) p)))
       | Some SYS_WRITE \<Rightarrow> args p 3 (\<lambda>argv. buffer_arg p (argv ! 1) (argv ! 2) (\<lambda>k.
           ret_int (write_fd w (sint (argv ! 0)) k (argv ! 2) p)))
       | Some SYS_SEEK \<Rightarrow> args p 2 (\<lambda>argv. map_option Ret (seek (sint (argv ! 0)) (argv ! 1) p))
       | Some SYS_TELL \<Rightarrow> args p 1 (\<lambda>argv. map_option (\<lambda>v. Ret (p\<lparr>eax := v\<rparr>)) (tell (sint (argv ! 0)) p))
       | Some SYS_CLOSE \<Rightarrow> args p 1 (\<lambda>argv. map_option Ret (close_fd w (dir_close x) (sint (argv ! 0)) p))
       | Some SYS_CHDIR \<Rightarrow> args p 1 (\<lambda>argv. string_arg p (argv ! 0) (\<lambda>k.
           ret_bool (on_fs (filesys_chdir x (pvm p) k) p)))
       | Some SYS_MKDIR \<Rightarrow> args p 1 (\<lambda>argv. string_arg p (argv ! 0) (\<lambda>k.
           ret_bool (on_fs (filesys_mkdir x (pvm p) k) p)))
       | Some SYS_READDIR \<Rightarrow> args p 2 (\<lambda>argv. string_arg p (argv ! 1) (\<lambda>k.
           ret_bool (readdir x (sint (argv ! 0)) k p)))
       | Some SYS_ISDIR \<Rightarrow> args p 1 (\<lambda>argv. Some (Ret (p\<lparr>eax := of_bool (isdir (sint (argv ! 0)) p)\<rparr>)))
       | Some SYS_INUMBER \<Rightarrow> args p 1 (\<lambda>argv. map_option (\<lambda>v. Ret (p\<lparr>eax := v\<rparr>)) (inumber x (sint (argv ! 0)) p))
       | _ \<Rightarrow> Some (Exit ERROR_STATUS) })"

section \<open>The table of descriptors\<close>

definition fds_ok :: "process \<Rightarrow> bool" where
  "fds_ok p \<longleftrightarrow> distinct (map fd (file_list p)) \<and> (\<forall>fp\<in>set (file_list p). INIT_FD \<le> fd fp \<and> fd fp < next_fd p) \<and>
     INIT_FD \<le> next_fd p"

definition same_table :: "process \<Rightarrow> process \<Rightarrow> bool" where
  "same_table p p' \<longleftrightarrow> file_list p' = file_list p \<and> next_fd p' = next_fd p"

lemma find_fd_append: "find_fd d (xs @ ys) = (case find_fd d xs of None \<Rightarrow> find_fd d ys | r \<Rightarrow> r)"
  by (induction xs) simp_all

lemma find_fd_None: "find_fd d fps = None \<longleftrightarrow> d \<notin> fd ` set fps"
  by (induction fps) auto

lemma find_fd_Some: "find_fd d fps = Some fp \<Longrightarrow> fp \<in> set fps \<and> fd fp = d"
  by (induction fps) (auto split: if_splits)

lemma set_remove_fd: "set (remove_fd d fps) \<subseteq> set fps"
  by (induction fps) auto

lemma find_remove_fd:
  "distinct (map fd fps) \<Longrightarrow> find_fd e (remove_fd d fps) = (if e = d then None else find_fd e fps)"
  by (induction fps) (auto simp: find_fd_None)

lemma distinct_remove_fd: "distinct (map fd fps) \<Longrightarrow> distinct (map fd (remove_fd d fps))"
proof (induction fps)
  case (Cons fp fps)
  then show ?case using set_remove_fd [of d fps] by auto
qed simp

lemma remove_fd_id: "find_fd d fps = None \<Longrightarrow> remove_fd d fps = fps"
  by (induction fps) (auto split: if_splits)

lemma remove_fd_last: "find_fd d fps = None \<Longrightarrow> fd fp = d \<Longrightarrow> remove_fd d (fps @ [fp]) = fps"
  by (induction fps) (auto split: if_splits)

lemma fds_ok_same: "fds_ok p \<Longrightarrow> same_table p p' \<Longrightarrow> fds_ok p'"
  by (simp add: fds_ok_def same_table_def)

lemma i32_succ: "0 \<le> n \<Longrightarrow> n < 2 ^ 31 - 1 \<Longrightarrow> i32 (n + 1) = n + 1"
  by (simp add: i32_def)

text \<open>Adding an entry with the next descriptor.\<close>

lemma add_entry:
  assumes "fds_ok p" "next_fd p < 2 ^ 31 - 1" "fd fp = next_fd p" "file_list p' = file_list p @ [fp]"
    "next_fd p' = i32 (next_fd p + 1)"
  shows "fds_ok p'" "get_file d p' = (if d = next_fd p then Some fp else get_file d p)" "get_file (next_fd p) p = None"
proof -
  have n: "next_fd p' = next_fd p + 1"
    using assms(1,2,5) i32_succ [of "next_fd p"] by (simp add: fds_ok_def INIT_FD_def)
  have new: "next_fd p \<notin> fd ` set (file_list p)" using assms(1) by (auto simp: fds_ok_def)
  show "fds_ok p'" using assms(1,3,4) n new by (auto simp: fds_ok_def)
  show g: "get_file (next_fd p) p = None" using new by (simp add: get_file_def find_fd_None)
  show "get_file d p' = (if d = next_fd p then Some fp else get_file d p)"
    using g assms(3,4) by (auto simp: get_file_def find_fd_append split: option.splits)
qed

text \<open>\<open>add_file\<close> and \<open>add_dir\<close> add such an entry or, without memory, nothing.\<close>

definition adds_entry :: "file_process \<Rightarrow> process \<Rightarrow> int \<times> process \<Rightarrow> bool" where
  "adds_entry fp p r \<longleftrightarrow> fd fp = next_fd p \<and>
     (if fst (fs_malloc (pfs p)) = 0 then fst r = ERROR_STATUS \<and> same_table p (snd r)
      else fst r = next_fd p \<and> file_list (snd r) = file_list p @ [fp] \<and> next_fd (snd r) = i32 (next_fd p + 1))"

lemma add_file_entry:
  "adds_entry \<lparr>fp_file = f, fp_dir = garbage p, fd = next_fd p, is_dir = False\<rparr> p (add_file f p)"
  by (simp add: adds_entry_def add_file_def fs_malloc_def same_table_def)

lemma add_dir_entry:
  "adds_entry \<lparr>fp_file = garbage p, fp_dir = f, fd = next_fd p, is_dir = True\<rparr> p (add_dir f p)"
  by (simp add: adds_entry_def add_dir_def fs_malloc_def same_table_def)

lemma adds_entry_ok:
  "adds_entry fp p r \<Longrightarrow> fds_ok p \<Longrightarrow> next_fd p < 2 ^ 31 - 1 \<Longrightarrow> fds_ok (snd r)"
  using add_entry(1) [of p fp "snd r"] fds_ok_same [of p "snd r"] by (auto simp: adds_entry_def split: if_splits)

lemma close_fd_table:
  assumes "close_fd w dc d p = Some p'"
  shows "file_list p' = remove_fd d (file_list p)" "next_fd p' = next_fd p"
proof -
  have "remove_fd d (file_list p) = file_list p" if "get_file d p = None"
    using that remove_fd_id [of d "file_list p"] by (simp add: get_file_def)
  then show "file_list p' = remove_fd d (file_list p)" "next_fd p' = next_fd p"
    using assms by (auto simp: close_fd_def bind_eq_Some_conv split: option.splits if_splits)
qed

lemma close_fd_ok: "fds_ok p \<Longrightarrow> close_fd w dc d p = Some p' \<Longrightarrow> fds_ok p'"
  using close_fd_table [of w dc d p p'] distinct_remove_fd [of "file_list p" d] set_remove_fd [of d "file_list p"]
  by (auto simp: fds_ok_def)

text \<open>The other calls leave the table alone, and so must the code outside.\<close>

definition keeps_table :: "callees \<Rightarrow> bool" where
  "keeps_table x \<longleftrightarrow> (\<forall>k p n p'. process_execute x k p = Some (n, p') \<longrightarrow> same_table p p') \<and>
     (\<forall>k p n p'. process_wait x k p = Some (n, p') \<longrightarrow> same_table p p')"

lemma on_fs_table: "on_fs f p = Some (r, p') \<Longrightarrow> same_table p p'"
  by (auto simp: on_fs_def same_table_def bind_eq_Some_conv)

lemma read_fd_table: "read_fd d b n p = Some (r, p') \<Longrightarrow> same_table p p'"
  by (auto simp: read_fd_def same_table_def bind_eq_Some_conv split: if_splits option.splits)

lemma write_fd_table: "write_fd w d b n p = Some (r, p') \<Longrightarrow> same_table p p'"
  using on_fs_table
  by (fastforce simp: write_fd_def bind_eq_Some_conv same_table_def split: if_splits option.splits)

lemma seek_table: "seek d n p = Some p' \<Longrightarrow> same_table p p'"
  by (auto simp: seek_def same_table_def bind_eq_Some_conv split: if_splits option.splits)

lemma readdir_table: "readdir x d k p = Some (r, p') \<Longrightarrow> same_table p p'"
  by (auto simp: readdir_def same_table_def bind_eq_Some_conv split: if_splits option.splits)

lemma open_path_ok:
  assumes "open_path x k p = Some (r, p')" "fds_ok p" "next_fd p < 2 ^ 31 - 1"
  shows "fds_ok p'"
proof -
  obtain f p1 where p1: "on_fs (filesys_open x (pvm p) k) p = Some (f, p1)"
    using assms(1) by (auto simp: open_path_def bind_eq_Some_conv)
  then have "same_table p p1" by (rule on_fs_table)
  then have ok: "fds_ok p1" "next_fd p1 < 2 ^ 31 - 1" using assms(2,3) by (auto simp: fds_ok_same) (simp add: same_table_def)
  have "(r, p') = (ERROR_STATUS, p1) \<or> (r, p') = add_dir f p1 \<or> (r, p') = add_file f p1"
    using assms(1) p1 by (auto simp: open_path_def bind_eq_Some_conv split: if_splits)
  then show ?thesis
    using ok adds_entry_ok [OF add_file_entry ok, of f] adds_entry_ok [OF add_dir_entry ok, of f]
    by (metis snd_conv)
qed

lemma and_then_Ret: "and_then r f = Some (Ret b) \<longleftrightarrow> (\<exists>a. r = Some (Ret a) \<and> f a = Some (Ret b))"
  by (cases "(r, f)" rule: and_then.cases) auto

definition table_safe :: "process outcome option \<Rightarrow> bool" where
  "table_safe r \<longleftrightarrow> (\<forall>q. r = Some (Ret q) \<longrightarrow> fds_ok q)"

lemma safe_and_then: "(\<And>a. table_safe (f a)) \<Longrightarrow> table_safe (and_then r f)"
  by (auto simp: table_safe_def and_then_Ret)

lemma fds_ok_eax [simp]: "fds_ok (q\<lparr>eax := v\<rparr>) = fds_ok q"
  by (simp add: fds_ok_def)

lemma safe_bind: "(\<And>a. r = Some a \<Longrightarrow> table_safe (f a)) \<Longrightarrow> table_safe (Option.bind r f)"
  by (cases r) (simp_all add: table_safe_def)

lemma safe_ret_int: "(\<And>n q. r = Some (n, q) \<Longrightarrow> fds_ok q) \<Longrightarrow> table_safe (ret_int r)"
  by (cases r) (auto simp: table_safe_def ret_int_def)

lemma safe_ret_bool: "(\<And>n q. r = Some (n, q) \<Longrightarrow> fds_ok q) \<Longrightarrow> table_safe (ret_bool r)"
  by (cases r) (auto simp: table_safe_def ret_bool_def)

lemma safe_Ret: "(\<And>q. r = Some q \<Longrightarrow> fds_ok q) \<Longrightarrow> table_safe (map_option Ret r)"
  by (cases r) (simp_all add: table_safe_def)

lemma safe_eax: "fds_ok p \<Longrightarrow> table_safe (map_option (\<lambda>v. Ret (p\<lparr>eax := v\<rparr>)) r)"
  by (cases r) (simp_all add: table_safe_def)

lemma safe_other: "fds_ok p \<Longrightarrow> table_safe (Some (Ret (p\<lparr>eax := v\<rparr>)))" "table_safe (Some Off)" "table_safe (Some (Exit n))"
  by (simp_all add: table_safe_def)

lemmas safe_intros = safe_and_then safe_ret_int safe_ret_bool safe_Ret safe_eax safe_other

section \<open>A concrete process\<close>

text \<open>A process with the directory of \<open>demo_vm\<close> and two open files, which has pushed the number and
  the argument of \<open>isdir (3)\<close>.\<close>

definition demo_code :: callees where
  "demo_code = \<lparr>filesys_create = (\<lambda>_ _ _ _. None), filesys_remove = (\<lambda>_ _ _. None),
     filesys_open = (\<lambda>_ _ s. Some (30, s)), filesys_chdir = (\<lambda>_ _ _. None), filesys_mkdir = (\<lambda>_ _ _. None),
     dir_close = (\<lambda>_ s. Some s), dir_readdir = (\<lambda>_ _ _ _. None), dir_get_inode = (\<lambda>_ _. None),
     process_execute = (\<lambda>_ p. Some (-1, p)), process_wait = (\<lambda>_ p. Some (-1, p))\<rparr>"

definition demo_mem :: vm where
  "demo_mem = demo_vm\<lparr>mem := (mem demo_vm)\<lparr>ram := (ram (mem demo_vm))(0xc0103000 := (replicate 1024 0)[0 := 18, 1 := 3])\<rparr>\<rparr>"

definition demo_process :: process where
  "demo_process = \<lparr>pfs = sample_fs, pvm = demo_mem, pagedir = 0xc0101000,
     file_list = [\<lparr>fp_file = 30, fp_dir = 0, fd = 2, is_dir = False\<rparr>, \<lparr>fp_file = 0, fp_dir = 31, fd = 3, is_dir = True\<rparr>],
     next_fd = 4, garbage = 0, console = [], keys = (\<lambda>_. 0), keys_read = 0, esp = 0x5000, eax = 0\<rparr>"

lemma demo_fds_ok: "fds_ok demo_process" "next_fd demo_process < 2 ^ 31 - 1" "keeps_table demo_code"
  by (simp_all add: fds_ok_def demo_process_def INIT_FD_def keeps_table_def demo_code_def same_table_def)

lemma demo_mem_ok: "vm_ok demo_mem" "pd_ok demo_mem 0xc0101000" "pte_of demo_mem 0xc0101000 0x5000 = 0x103007"
proof -
  show "vm_ok demo_mem" unfolding demo_mem_def by (rule vm_ok_ram [OF demo_vm_ok]) simp
  have "\<forall>a\<in>tables demo_vm 0xc0101000. ram (mem demo_mem) a = ram (mem demo_vm) a"
    by (simp add: demo_tables demo_mem_def)
  from pd_frame [OF demo_pd_ok this] demo_pte(1) demo_addrs(1)
  show "pd_ok demo_mem 0xc0101000" "pte_of demo_mem 0xc0101000 0x5000 = 0x103007" by (simp_all add: demo_mem_def)
qed

lemma demo_translate:
  assumes "pg_no va = pg_no 0x5000" "is_user_vaddr va"
  shows "pagedir_get_page 0xc0101000 va demo_mem = Some (0xc0103000 + pg_ofs va)"
  using pagedir_get_page_pte [OF demo_mem_ok(1,2) assms(2)] pte_of_page [OF assms(1)] demo_mem_ok(3)
  by (simp add: page_of_pte_def PTE_P_def pte_get_page_def ptov_def PTE_ADDR_def PHYS_BASE_def)

lemma demo_call: "syscall_handler w demo_code demo_process = Some (Ret (demo_process\<lparr>eax := 1\<rparr>))"
proof -
  note ev = pg_ofs_def PGMASK_mask mask_eq_exp_minus_1 pg_no_def drop_bit_eq_div is_user_vaddr_def PHYS_BASE_def
  have t: "pagedir_get_page 0xc0101000 0x5000 demo_mem = Some 0xc0103000"
      "pagedir_get_page 0xc0101000 0x5004 demo_mem = Some 0xc0103004"
      "pagedir_get_page 0xc0101000 0x5005 demo_mem = Some 0xc0103005"
      "pagedir_get_page 0xc0101000 0x5006 demo_mem = Some 0xc0103006"
      "pagedir_get_page 0xc0101000 0x5007 demo_mem = Some 0xc0103007"
    by (simp_all add: demo_translate ev)
  have r: "ram (mem demo_mem) 0xc0103000 = (replicate 1024 0)[0 := 18, 1 := 3]" by (simp add: demo_mem_def)
  have b: "load_byte demo_mem 0xc0103000 = Some 18" "load_byte demo_mem 0xc0103001 = Some 0"
      "load_byte demo_mem 0xc0103002 = Some 0" "load_byte demo_mem 0xc0103003 = Some 0"
      "load_byte demo_mem 0xc0103004 = Some 3" "load_byte demo_mem 0xc0103005 = Some 0"
      "load_byte demo_mem 0xc0103006 = Some 0" "load_byte demo_mem 0xc0103007 = Some 0"
    by (simp_all add: load_byte_def load_word_ok [OF demo_mem_ok(1)] r pg_round_down_def ev)
  have l: "load_bytes demo_mem 0xc0103000 4 = Some [18, 0, 0, 0]" by (simp add: eval_nat_numeral b)
  have m: "mmu_word demo_mem 0xc0101000 0x5004 = Some 3"
    by (simp add: mmu_word_def mmu_byte_def is_user_vaddr_def PHYS_BASE_def t b word_of_bytes_def)
  have a: "get_arg demo_mem 0xc0101000 0x5000 1 = Some (Ret [3])"
    by (simp add: get_arg_def is_valid_ptr_def is_user_vaddr_def PHYS_BASE_def m)
  have g: "get_kernel_ptr demo_mem 0xc0101000 0x5000 = Some (Ret 0xc0103000)"
    by (simp add: get_kernel_ptr_def is_valid_ptr_def is_user_vaddr_def PHYS_BASE_def t)
  have n: "sys_nr_of (word_of_bytes [18, 0, 0, 0]) = Some SYS_ISDIR"
    by (simp add: word_of_bytes_def sys_nr_of_def sys_nrs_def)
  have p: "pvm demo_process = demo_mem" "pagedir demo_process = 0xc0101000" "esp demo_process = 0x5000"
      "isdir 3 demo_process"
    by (simp_all add: demo_process_def isdir_def get_file_def)
  show ?thesis using p(4) by (simp add: syscall_handler_def p(1-3) g l n args_def a [simplified])
qed





text \<open>Closing all descriptors closes every entry once, in order, and leaves an empty table.\<close>

fun close_each :: "map_writer \<Rightarrow> dir_closer \<Rightarrow> file_process list \<Rightarrow> fs \<Rightarrow> fs option" where
  "close_each w dc [] s = Some s"
| "close_each w dc (fp # fps) s = do {
     s \<leftarrow> (if is_dir fp then dc (fp_dir fp) s else file_close w (fp_file fp) s);
     close_each w dc fps s }"

lemma close_loop_each:
  assumes "distinct (map fd (file_list p))"
  shows "close_loop w dc (file_list p) p =
    map_option (\<lambda>s. p\<lparr>pfs := s, file_list := []\<rparr>) (close_each w dc (file_list p) (pfs p))"
  using assms
proof (induction "file_list p" arbitrary: p)
  case Nil
  then show ?case by simp
next
  case (Cons fp fps)
  let ?r = "if is_dir fp then dc (fp_dir fp) (pfs p) else file_close w (fp_file fp) (pfs p)"
  have l: "file_list p = fp # fps" using Cons.hyps(2) by simp
  have c: "close_fd w dc (fd fp) p = map_option (\<lambda>s. p\<lparr>pfs := s, file_list := fps\<rparr>) ?r"
    by (simp add: close_fd_def get_file_def l split: bind_split option.split)
  show ?case
  proof (cases ?r)
    case None
    then show ?thesis using c unfolding l by simp
  next
    case (Some s)
    then show ?thesis
      using c Cons.hyps(1) [of "p\<lparr>pfs := s, file_list := fps\<rparr>"] Cons.prems unfolding l by simp
  qed
qed

lemma close_all_file_each:
  "fds_ok p \<Longrightarrow> close_all_file w dc p =
     map_option (\<lambda>s. p\<lparr>pfs := s, file_list := []\<rparr>) (close_each w dc (file_list p) (pfs p))"
  unfolding close_all_file_def fds_ok_def by (rule close_loop_each) blast



section \<open>User strings and buffers\<close>

definition user_byte :: "vm \<Rightarrow> u32 \<Rightarrow> u32 \<Rightarrow> u8 option" where
  "user_byte s pd va = do { k \<leftarrow> pagedir_get_page pd va s; if k = 0 then None else load_byte s k }"

definition user_string :: "vm \<Rightarrow> u32 \<Rightarrow> u32 \<Rightarrow> nat \<Rightarrow> bool" where
  "user_string s pd str n \<longleftrightarrow> unat str + n < 0xc0000000 \<and>
     (\<forall>i<n. \<exists>c. user_byte s pd (str + of_nat i) = Some c \<and> c \<noteq> 0) \<and> user_byte s pd (str + of_nat n) = Some 0"

lemma user_string_Suc:
  assumes "is_user_vaddr str"
  shows "user_string s pd str (Suc n) \<longleftrightarrow> (\<exists>c. user_byte s pd str = Some c \<and> c \<noteq> 0) \<and> user_string s pd (str + 1) n"
  using user_less [OF assms] unfolding user_string_def All_less_Suc2 by (auto simp: add.assoc)

definition translates :: "vm \<Rightarrow> u32 \<Rightarrow> bool" where
  "translates s pd \<longleftrightarrow> (\<forall>va. is_user_vaddr va \<longrightarrow> pagedir_get_page pd va s \<noteq> None)"

lemma load_byte_ok: "vm_ok s \<Longrightarrow> \<exists>b. load_byte s a = Some b"
proof -
  assume "vm_ok s"
  moreover have "unat (pg_ofs a) div 4 < 1024" by (simp add: unat_pg_ofs)
  ultimately show ?thesis by (simp add: load_byte_def load_word_ok)
qed

text \<open>C37: \<open>is_valid_string\<close> always ends, and lets exactly the strings pass whose bytes are all mapped in
  the user's part of the address space, up to and including the null byte; otherwise the process
  exits with status -1.\<close>

theorem is_valid_string_checks:
  assumes "vm_ok s" "translates s pd"
  shows "is_valid_string s pd str = Some (if \<exists>n. user_string s pd str n then Ret () else Exit (-1))"
proof (induction "0xc0000000 - unat str" arbitrary: str)
  case 0
  then have "\<not> is_user_vaddr str" by (simp add: is_user_vaddr_def PHYS_BASE_def word_less_nat_alt)
  then show ?case using 0
    by (subst is_valid_string.simps) (auto simp: get_kernel_ptr_def is_valid_ptr_def user_string_def ERROR_STATUS_def)
next
  case (Suc m)
  then have u: "is_user_vaddr str" by (simp add: is_user_vaddr_def PHYS_BASE_def word_less_nat_alt)
  have IH: "is_valid_string s pd (str + 1) = Some (if \<exists>n. user_string s pd (str + 1) n then Ret () else Exit (-1))"
    by (rule Suc.hyps(1)) (use Suc.hyps(2) user_less [OF u] in simp)
  obtain k where k: "pagedir_get_page pd str s = Some k" using assms(2) u by (auto simp: translates_def)
  obtain c where c: "load_byte s k = Some c" using load_byte_ok [OF assms(1)] by blast
  have b: "user_byte s pd str = (if k = 0 then None else Some c)" using k c by (simp add: user_byte_def)
  have lt: "unat str < 0xc0000000" using u by (simp add: is_user_vaddr_def PHYS_BASE_def word_less_nat_alt)
  have ex: "(\<exists>n. user_string s pd str n) \<longleftrightarrow> k \<noteq> 0 \<and> (c = 0 \<or> (\<exists>n. user_string s pd (str + 1) n))"
  proof
    assume "\<exists>n. user_string s pd str n"
    then obtain n where n: "user_string s pd str n" by blast
    then show "k \<noteq> 0 \<and> (c = 0 \<or> (\<exists>n. user_string s pd (str + 1) n))"
      using b user_string_Suc [OF u, of s pd] by (cases n) (auto simp: user_string_def split: if_splits)
  next
    assume "k \<noteq> 0 \<and> (c = 0 \<or> (\<exists>n. user_string s pd (str + 1) n))"
    then show "\<exists>n. user_string s pd str n"
      using b lt user_string_Suc [OF u, of s pd] by (cases "c = 0") (auto simp: user_string_def [of s pd str 0] intro: exI [of _ 0])
  qed
  have g: "get_kernel_ptr s pd str = Some (if k = 0 then Exit (-1) else Ret k)"
    using u k by (simp add: get_kernel_ptr_def is_valid_ptr_def ERROR_STATUS_def)
  show ?case unfolding ex by (subst is_valid_string.simps) (simp add: g c IH)
qed

theorem is_valid_string_checks_witness:
  "is_valid_string demo_mem 0xc0101000 0x5000 =
    Some (if \<exists>n. user_string demo_mem 0xc0101000 0x5000 n then Ret () else Exit (-1))"
proof -
  have e: "i < 1024 \<Longrightarrow> pde_at demo_mem 0xc0101000 i = pde_at demo_vm 0xc0101000 i" for i
    by (simp add: pde_at_def demo_mem_def)
  have "pte_of demo_mem 0xc0101000 va AND PTE_ADDR < PHYS_BASE" if "is_user_vaddr va" for va
    using user_pd_no [OF that] demo_pde [of "unat (pd_no va)"] e [of "unat (pd_no va)"] demo_table pt_no_less [of va]
    by (simp add: pte_of_def Let_def) (simp add: demo_mem_def demo_vm_def nth_list_update PTE_ADDR_def PHYS_BASE_def)
  then have "translates demo_mem 0xc0101000"
    using pagedir_get_page_pte [OF demo_mem_ok(1,2)]
    by (simp add: translates_def page_of_pte_def pte_get_page_def ptov_def)
  then show ?thesis by (rule is_valid_string_checks [OF demo_mem_ok(1)])
qed

lemma is_valid_buffer_range:
  "is_valid_buffer b n = (if n = 0 \<or> unat b + n \<le> 0xc0000000 then Ret () else Exit (-1))"
proof (induction n arbitrary: b)
  case (Suc n)
  show ?case
  proof (cases "is_user_vaddr b")
    case True
    then have "unat b < 0xc0000000" by (simp add: is_user_vaddr_def PHYS_BASE_def word_less_nat_alt)
    then show ?thesis using True Suc.IH [of "b + 1"] user_less [OF True] by (auto simp: is_valid_ptr_def)
  next
    case False
    then have "0xc0000000 \<le> unat b" by (simp add: is_user_vaddr_def PHYS_BASE_def word_less_nat_alt)
    then show ?thesis using False by (simp add: is_valid_ptr_def ERROR_STATUS_def)
  qed
qed simp

end
