(* ===== verification/Loader.thy ===== *)
theory Loader
  imports Syscall
begin

text \<open>
  \<open>userprog/process.c\<close>: loading of a program into the address space of its process: the check
  of a segment, reading a segment from the file, and the initial stack with the arguments.

  The stack is written through the user's addresses, that is by the page tables of the process,
  which are the active ones.  The arguments are the strings that \<open>parse_cmd_args\<close> has cut out
  of the command line, without their null bytes.  The array \<open>address\<close> of \<open>setup_stack\<close> is the
  list of addresses with the null pointer at its end.
\<close>

section \<open>Segments\<close>

record Elf32_Phdr =
  p_type :: u32
  p_offset :: u32
  p_vaddr :: u32
  p_paddr :: u32
  p_filesz :: u32
  p_memsz :: u32
  p_flags :: u32
  p_align :: u32

definition validate_segment :: "Elf32_Phdr \<Rightarrow> nat \<Rightarrow> fs \<Rightarrow> bool option" where
  "validate_segment phdr file s =
     (if p_offset phdr AND PGMASK \<noteq> p_vaddr phdr AND PGMASK then Some False
      else do {
        len \<leftarrow> file_length file s;
        if p_offset phdr > word_of_int len then Some False
        else if p_memsz phdr < p_filesz phdr then Some False
        else if p_memsz phdr = 0 then Some False
        else if \<not> is_user_vaddr (p_vaddr phdr) then Some False
        else if \<not> is_user_vaddr (p_vaddr phdr + p_memsz phdr) then Some False
        else if p_vaddr phdr + p_memsz phdr < p_vaddr phdr then Some False
        else if p_vaddr phdr < of_nat PGSIZE then Some False
        else Some True })"

definition install_page :: "u32 \<Rightarrow> u32 \<Rightarrow> u32 \<Rightarrow> bool \<Rightarrow> vm \<Rightarrow> (bool \<times> vm) option" where
  "install_page pd upage kpage rw s = do {
     k \<leftarrow> pagedir_get_page pd upage s;
     if k = 0 then pagedir_set_page pd upage kpage rw s else Some (False, s) }"

text \<open>The two counters of the loop are kept as natural numbers; \<open>load_loop_exact\<close> below shows that
  the subtraction from the second one does not wrap around.\<close>

function load_loop ::
    "u32 \<Rightarrow> nat \<Rightarrow> u32 \<Rightarrow> nat \<Rightarrow> nat \<Rightarrow> bool \<Rightarrow> fs \<Rightarrow> vm \<Rightarrow> (bool \<times> fs \<times> vm) option" where
  "load_loop pd file upage read_bytes zero_bytes rw s v =
     (if read_bytes > 0 \<or> zero_bytes > 0
      then do {
        let page_read_bytes = (if read_bytes < PGSIZE then read_bytes else PGSIZE);
        let page_zero_bytes = PGSIZE - page_read_bytes;
        (kpage, v) \<leftarrow> vm_get_page PAL_USER v;
        if kpage = 0 then Some (False, s, v)
        else do {
          (bs, s) \<leftarrow> file_read file (int page_read_bytes) s;
          v \<leftarrow> store_bytes kpage bs v;
          if length bs \<noteq> page_read_bytes
          then do { v \<leftarrow> vm_free_page kpage v; Some (False, s, v) }
          else do {
            v \<leftarrow> store_bytes (kpage + of_nat page_read_bytes) (replicate page_zero_bytes 0) v;
            (ok, v) \<leftarrow> install_page pd upage kpage rw v;
            if \<not> ok then do { v \<leftarrow> vm_free_page kpage v; Some (False, s, v) }
            else load_loop pd file (upage + of_nat PGSIZE) (read_bytes - page_read_bytes)
                   (zero_bytes - page_zero_bytes) rw s v } } }
      else Some (True, s, v))"
  by pat_completeness auto
termination
  by (relation "measure (\<lambda>(pd, file, upage, r, z, rw, s, v). r + z)") (auto simp: neq_Nil_conv split: if_splits)

declare load_loop.simps [simp del]

definition load_segment ::
    "u32 \<Rightarrow> nat \<Rightarrow> int \<Rightarrow> u32 \<Rightarrow> u32 \<Rightarrow> u32 \<Rightarrow> bool \<Rightarrow> fs \<Rightarrow> vm \<Rightarrow> (bool \<times> fs \<times> vm) option" where
  "load_segment pd file ofs upage read_bytes zero_bytes rw s v = do {
     ASSERT ((read_bytes + zero_bytes) mod of_nat PGSIZE = 0);
     ASSERT (pg_ofs upage = 0);
     ASSERT (ofs smod int PGSIZE = 0);
     s \<leftarrow> file_seek file ofs s;
     load_loop pd file upage (unat read_bytes) (unat zero_bytes) rw s v }"

lemma load_loop_exact:
  fixes r z p :: nat
  assumes "(r + z) mod 4096 = 0" "0 < r \<or> 0 < z" "p = (if r < 4096 then r else 4096)"
  shows "4096 - p \<le> z" "(r - p + (z - (4096 - p))) mod 4096 = 0"
proof -
  obtain q where q: "r + z = 4096 * q" using assms(1) by auto
  then have "0 < q" using assms(2) by (cases q) auto
  then have "4096 \<le> r + z" using q by (cases q) simp_all
  then show le: "4096 - p \<le> z" using assms(3) by auto
  have "r - p + (z - (4096 - p)) = 4096 * (q - 1)"
    using le q assms(3) \<open>0 < q\<close> by (cases q) auto
  then show "(r - p + (z - (4096 - p))) mod 4096 = 0" by simp
qed

lemma unat_sum:
  fixes x y :: u32
  assumes "x \<le> x + y"
  shows "unat (x + y) = unat x + unat y"
proof (cases "unat x + unat y < 2 ^ 32")
  case False
  have y: "unat y < 2 ^ 32" "unat x < 2 ^ 32" using unsigned_less [of y] unsigned_less [of x] by simp_all
  then have "(unat x + unat y) mod 2 ^ 32 = unat x + unat y - 2 ^ 32" using False by (simp add: mod_if)
  then have "unat (x + y) = unat x + unat y - 2 ^ 32" by (simp add: unat_word_ariths)
  then show ?thesis using assms y False by (simp add: word_le_nat_alt)
qed (simp add: unat_word_ariths)

text \<open>A segment that passes the check lies in the user's part of the address space, above the
  first page, and does not wrap around.\<close>

lemma validate_segment_range:
  assumes "validate_segment phdr file s = Some True"
  shows "4096 \<le> unat (p_vaddr phdr)" "unat (p_vaddr phdr) + unat (p_memsz phdr) < 0xc0000000"
    "p_filesz phdr \<le> p_memsz phdr" "0 < p_memsz phdr"
proof -
  have v: "\<not> p_memsz phdr < p_filesz phdr" "p_memsz phdr \<noteq> 0" "is_user_vaddr (p_vaddr phdr + p_memsz phdr)"
      "\<not> p_vaddr phdr + p_memsz phdr < p_vaddr phdr" "\<not> p_vaddr phdr < of_nat PGSIZE"
    using assms by (auto simp: validate_segment_def bind_eq_Some_conv split: if_splits)
  have "unat (p_vaddr phdr + p_memsz phdr) = unat (p_vaddr phdr) + unat (p_memsz phdr)"
    using v(4) by (intro unat_sum) (simp add: not_less)
  then show "unat (p_vaddr phdr) + unat (p_memsz phdr) < 0xc0000000"
    using v(3) by (simp add: is_user_vaddr_def PHYS_BASE_def word_less_nat_alt)
  show "4096 \<le> unat (p_vaddr phdr)" using v(5) by (simp add: word_less_nat_alt not_less)
  show "p_filesz phdr \<le> p_memsz phdr" "0 < p_memsz phdr" using v(1,2) by (simp_all add: not_less word_neq_0_conv)
qed

section \<open>The initial stack\<close>

fun store_user :: "u32 \<Rightarrow> u32 \<Rightarrow> u8 list \<Rightarrow> vm \<Rightarrow> vm option" where
  "store_user pd va [] s = Some s"
| "store_user pd va (b # bs) s = do {
     k \<leftarrow> pagedir_get_page pd va s;
     ASSERT (k \<noteq> 0);
     s \<leftarrow> store_byte k b s;
     store_user pd (va + 1) bs s }"

definition push :: "u32 \<Rightarrow> u8 list \<Rightarrow> u32 \<times> vm \<Rightarrow> (u32 \<times> vm) option" where
  "push pd bs st = (let sp = fst st - of_nat (length bs) in
     do { s \<leftarrow> store_user pd sp bs (snd st); Some (sp, s) })"

definition MAX_ARGS_SIZE :: u32 where
  "MAX_ARGS_SIZE = 4096"

text \<open>The strings are pushed from the last one to the first; \<open>Inl\<close> is the early return.\<close>

fun push_strings :: "u32 \<Rightarrow> u8 list list \<Rightarrow> u32 list \<Rightarrow> u32 \<times> vm \<Rightarrow> (vm + u32 list \<times> u32 \<times> vm) option" where
  "push_strings pd [] address st = Some (Inr (address, st))"
| "push_strings pd (arg # rest) address st = do {
     let sp = fst st - of_nat (length arg + 1);
     if PHYS_BASE - sp > MAX_ARGS_SIZE then Some (Inl (snd st))
     else do {
       st \<leftarrow> push pd (arg @ [0]) st;
       push_strings pd rest (sp # address) st } }"

fun push_words :: "u32 \<Rightarrow> u32 list \<Rightarrow> u32 \<times> vm \<Rightarrow> (u32 \<times> vm) option" where
  "push_words pd [] st = Some st"
| "push_words pd (w # ws) st = do {
     st \<leftarrow> push pd (le32 w) st;
     push_words pd ws st }"

definition push_args :: "u32 \<Rightarrow> u8 list list \<Rightarrow> vm \<Rightarrow> (bool \<times> u32 \<times> vm) option" where
  "push_args pd argv s = do {
     r \<leftarrow> push_strings pd (rev argv) [] (PHYS_BASE, s);
     case r of
       Inl s \<Rightarrow> Some (False, 0, s)
     | Inr (address, sp, s) \<Rightarrow> do {
         st \<leftarrow> push pd (replicate (unat sp mod 4) 0) (sp, s);
         st \<leftarrow> push_words pd (rev (address @ [0])) st;
         st \<leftarrow> push pd (le32 (fst st)) st;
         st \<leftarrow> push pd (le32 (of_nat (length argv))) st;
         (sp, s) \<leftarrow> push pd (le32 0) st;
         Some (True, sp, s) } }"

definition setup_stack :: "u32 \<Rightarrow> u8 list list \<Rightarrow> vm \<Rightarrow> (bool \<times> u32 \<times> vm) option" where
  "setup_stack pd argv s = do {
     (kpage, s) \<leftarrow> vm_get_page (PAL_USER OR PAL_ZERO) s;
     if kpage = 0 then Some (False, 0, s)
     else do {
       (success, s) \<leftarrow> install_page pd (PHYS_BASE - of_nat PGSIZE) kpage True s;
       if \<not> success then do { s \<leftarrow> vm_free_page kpage s; Some (False, 0, s) }
       else do {
         push_args pd argv s } } }"

section \<open>Bytes of a page\<close>

lemma byte_of_word:
  fixes w :: u32 and b :: u8
  assumes "i < 4" "j < 4"
  shows "(ucast (drop_bit (8 * j) ((w AND NOT (push_bit (8 * i) 0xff)) OR push_bit (8 * i) (ucast b))) :: u8) =
    (if j = i then b else ucast (drop_bit (8 * j) w))"
proof (rule bit_word_eqI)
  fix n assume "n < LENGTH(8)"
  then have n: "n < 8" by simp
  have m: "(0xff :: u32) = mask 8" by (simp add: mask_eq_exp_minus_1)
  have ij: "8 * i \<le> 8 * j + n \<and> 8 * j + n - 8 * i < 8 \<longleftrightarrow> j = i" using n by auto
  have le: "8 * j + n < 32" using n assms(2) by simp
  show "bit (ucast (drop_bit (8 * j) ((w AND NOT (push_bit (8 * i) 0xff)) OR push_bit (8 * i) (ucast b))) :: u8) n =
    bit (if j = i then b else ucast (drop_bit (8 * j) w)) n"
    unfolding m using n le ij
    by (auto simp: bit_unsigned_iff bit_drop_bit_eq bit_or_iff bit_and_iff bit_not_iff bit_push_bit_iff bit_mask_iff
        dest: bit_imp_le_length)
qed

definition page_byte :: "vm \<Rightarrow> u32 \<Rightarrow> nat \<Rightarrow> u8" where
  "page_byte s k i = ucast (drop_bit (8 * (i mod 4)) (ram (mem s) k ! (i div 4)))"

lemma page_addr_split:
  assumes "pg_ofs k = 0" "i < 4096"
  shows "pg_round_down (k + of_nat i) = k" "unat (pg_ofs (k + of_nat i)) = i"
proof -
  have k: "unat k mod 4096 = 0" using assms(1) unat_pg_ofs [of k] by simp
  obtain q where q: "unat k = 4096 * q" using k by auto
  have "unat k < 2 ^ 32" using unsigned_less [of k] by simp
  then have "q < 1048576" using q by simp
  then have "unat k + i < 2 ^ 32" using q assms(2) by simp
  then have "unat (k + of_nat i) = unat k + i" using assms(2) by (simp add: unat_word_ariths unat_of_nat)
  then show u: "unat (pg_ofs (k + of_nat i)) = i"
    using k assms(2) by (simp add: unat_pg_ofs mod_add_eq [symmetric])
  then have "pg_ofs (k + of_nat i) = of_nat i" using assms(2) by (simp add: word_unat_eq_iff unat_of_nat)
  then show "pg_round_down (k + of_nat i) = k" using page_split [of "k + of_nat i"] by simp
qed

lemma load_page_byte:
  "vm_ok s \<Longrightarrow> pg_ofs k = 0 \<Longrightarrow> i < 4096 \<Longrightarrow> load_byte s (k + of_nat i) = Some (page_byte s k i)"
  by (simp add: load_byte_def page_addr_split load_word_ok page_byte_def)

lemma store_page_byte:
  assumes "vm_ok s" "pg_ofs k = 0" "i < 4096"
  obtains s' where "store_byte (k + of_nat i) b s = Some s'" "vm_ok s'" "same_cpu s s'" "in_use (mem s') = in_use (mem s)"
    "\<And>a. a \<noteq> k \<Longrightarrow> ram (mem s') a = ram (mem s) a"
    "\<And>j. j < 4096 \<Longrightarrow> page_byte s' k j = (if j = i then b else page_byte s k j)"
proof -
  define w where "w = ((ram (mem s) k ! (i div 4)) AND NOT (push_bit (8 * (i mod 4)) 0xff)) OR push_bit (8 * (i mod 4)) (ucast b :: u32)"
  define s' where "s' = s\<lparr>mem := (mem s)\<lparr>ram := (ram (mem s))(k := (ram (mem s) k)[i div 4 := w])\<rparr>\<rparr>"
  have len: "length (ram (mem s) k) = 1024" using assms(1) by (simp add: vm_ok_def)
  have "store_byte (k + of_nat i) b s = Some s'"
    using assms store_word_ok [OF assms(1), of "i div 4" k] load_word_ok [OF assms(1), of "i div 4" k]
    by (simp add: store_byte_def page_addr_split Let_def s'_def w_def)
  moreover have "vm_ok s'" unfolding s'_def by (rule vm_ok_ram) (use assms(1) len in simp_all)
  moreover have "page_byte s' k j = (if j = i then b else page_byte s k j)" if "j < 4096" for j
  proof (cases "j div 4 = i div 4")
    case True
    then have "j = i \<longleftrightarrow> j mod 4 = i mod 4" by (metis div_mult_mod_eq)
    then show ?thesis
      using True byte_of_word [of "i mod 4" "j mod 4" "ram (mem s) k ! (i div 4)" b] assms(3) len
      by (simp add: page_byte_def s'_def w_def)
  next
    case False
    then show ?thesis by (auto simp: page_byte_def s'_def)
  qed
  ultimately show thesis by (intro that [of s']) (simp_all add: s'_def same_cpu_def)
qed

section \<open>The stack page\<close>

text \<open>The page \<open>k\<close> is mapped at the top of the user's address space and is not a page table.\<close>

definition stack_page :: "u32 \<Rightarrow> u32 \<Rightarrow> vm \<Rightarrow> bool" where
  "stack_page pd k s \<longleftrightarrow> vm_ok s \<and> pd_ok s pd \<and> k \<notin> tables s pd \<and> pg_ofs k = 0 \<and> is_kernel_vaddr k \<and>
     (\<forall>i<4096. pagedir_get_page pd (PHYS_BASE - 4096 + of_nat i) s = Some (k + of_nat i))"

lemma stack_user: "i < 4096 \<Longrightarrow> is_user_vaddr (PHYS_BASE - 4096 + of_nat i)"
proof -
  assume "i < 4096"
  then have "unat (0xbffff000 + of_nat i :: u32) = 0xbffff000 + i" by (simp add: unat_word_ariths unat_of_nat)
  then show ?thesis using \<open>i < 4096\<close> by (simp add: is_user_vaddr_def PHYS_BASE_def word_less_nat_alt)
qed

lemma kernel_nonzero: "is_kernel_vaddr k \<Longrightarrow> pg_ofs k = 0 \<Longrightarrow> i < 4096 \<Longrightarrow> k + of_nat i \<noteq> 0"
  using page_addr_split(1) [of k i] by (auto simp: is_kernel_vaddr_def PHYS_BASE_def pg_round_down_def)

lemma stack_page_store:
  assumes "stack_page pd k s" "i < 4096"
  obtains s' where "store_byte (k + of_nat i) b s = Some s'" "stack_page pd k s'"
    "\<And>j. j < 4096 \<Longrightarrow> page_byte s' k j = (if j = i then b else page_byte s k j)"
proof -
  have ok: "vm_ok s" "pg_ofs k = 0" "pd_ok s pd" "k \<notin> tables s pd" using assms(1) by (auto simp: stack_page_def)
  obtain s' where s': "store_byte (k + of_nat i) b s = Some s'" "vm_ok s'" "in_use (mem s') = in_use (mem s)"
    "\<And>a. a \<noteq> k \<Longrightarrow> ram (mem s') a = ram (mem s) a"
    "\<And>j. j < 4096 \<Longrightarrow> page_byte s' k j = (if j = i then b else page_byte s k j)"
    by (rule store_page_byte [OF ok(1,2) assms(2), of b]) blast
  have "\<forall>a\<in>tables s pd. ram (mem s') a = ram (mem s) a" using ok(4) s'(4) by metis
  note f = pd_frame [OF ok(3) this, unfolded s'(3), OF order_refl]
  have "pagedir_get_page pd va s' = pagedir_get_page pd va s" if "is_user_vaddr va" for va
    using pagedir_get_page_pte [OF ok(1,3) that] pagedir_get_page_pte [OF s'(2) f(1) that] f(3) [OF that] by simp
  then have "stack_page pd k s'" using assms(1) s'(2) f(1,2) stack_user unfolding stack_page_def by simp
  with s' show thesis by (intro that [of s'])
qed

definition stack_content :: "u32 \<Rightarrow> vm \<Rightarrow> u8 list" where
  "stack_content k s = map (page_byte s k) [0..<4096]"

lemma store_user_stack:
  assumes "stack_page pd k s" "i + length bs \<le> 4096"
  shows "\<exists>s'. store_user pd (PHYS_BASE - 4096 + of_nat i) bs s = Some s' \<and> stack_page pd k s' \<and>
    stack_content k s' = put (stack_content k s) i bs"
  using assms
proof (induction bs arbitrary: i s)
  case Nil
  then show ?case by simp
next
  case (Cons b bs)
  have i: "i < 4096" using Cons.prems(2) by simp
  obtain s1 where s1: "store_byte (k + of_nat i) b s = Some s1" "stack_page pd k s1"
    "\<And>j. j < 4096 \<Longrightarrow> page_byte s1 k j = (if j = i then b else page_byte s k j)"
    by (rule stack_page_store [OF Cons.prems(1) i, of b]) blast
  obtain s' where s': "store_user pd (PHYS_BASE - 4096 + of_nat (Suc i)) bs s1 = Some s'" "stack_page pd k s'"
      "stack_content k s' = put (stack_content k s1) (Suc i) bs"
    using Cons.IH [OF s1(2), of "Suc i"] Cons.prems(2) by auto
  have c1: "stack_content k s1 = (stack_content k s)[i := b]"
    by (rule nth_equalityI) (simp_all add: stack_content_def s1(3) nth_list_update)
  have "put ((stack_content k s)[i := b]) (Suc i) bs = put (stack_content k s) i (b # bs)"
    by (rule nth_equalityI)
      (use Cons.prems(2) in \<open>auto simp: stack_content_def nth_put nth_list_update nth_Cons' Suc_diff_Suc\<close>)
  moreover have "store_user pd (PHYS_BASE - 4096 + of_nat i) (b # bs) s = Some s'"
    using Cons.prems(1) i s1(1) s'(1) kernel_nonzero [of k i] by (simp add: stack_page_def algebra_simps)
  ultimately show ?case using s'(2,3) c1 by simp
qed

text \<open>The stack holds the bytes \<open>xs\<close> between the stack pointer and the top.\<close>

definition stack_holds :: "u32 \<Rightarrow> u32 \<Rightarrow> u32 \<times> vm \<Rightarrow> u8 list \<Rightarrow> bool" where
  "stack_holds pd k st xs \<longleftrightarrow> stack_page pd k (snd st) \<and> length xs \<le> 4096 \<and>
     fst st = PHYS_BASE - of_nat (length xs) \<and> drop (4096 - length xs) (stack_content k (snd st)) = xs"

lemma stack_addr: "n \<le> 4096 \<Longrightarrow> PHYS_BASE - of_nat n = PHYS_BASE - 4096 + of_nat (4096 - n)"
  by (simp add: of_nat_diff)

lemma push_holds:
  assumes "stack_holds pd k st xs" "length bs + length xs \<le> 4096"
  shows "\<exists>st'. push pd bs st = Some st' \<and> stack_holds pd k st' (bs @ xs)"
proof -
  let ?i = "4096 - (length bs + length xs)"
  have h: "stack_page pd k (snd st)" "fst st = PHYS_BASE - of_nat (length xs)"
      "drop (4096 - length xs) (stack_content k (snd st)) = xs"
    using assms(1) by (auto simp: stack_holds_def)
  have sp: "fst st - of_nat (length bs) = PHYS_BASE - of_nat (length bs + length xs)" using h(2) by simp
  obtain s' where s': "store_user pd (PHYS_BASE - 4096 + of_nat ?i) bs (snd st) = Some s'" "stack_page pd k s'"
      "stack_content k s' = put (stack_content k (snd st)) ?i bs"
    using store_user_stack [OF h(1), of ?i bs] assms(2) by auto
  have "push pd bs st = Some (fst st - of_nat (length bs), s')"
    using s'(1) unfolding push_def Let_def sp stack_addr [OF assms(2)] by simp
  moreover have "drop ?i (stack_content k s') = bs @ xs"
  proof -
    have "length (stack_content k (snd st)) = 4096" by (simp add: stack_content_def)
    moreover have "?i + length bs = 4096 - length xs" using assms(2) by simp
    ultimately show ?thesis using h(3) unfolding s'(3) put_def by simp
  qed
  ultimately show ?thesis using s'(2) sp assms(2) by (auto simp: stack_holds_def)
qed

definition arg_strings :: "u8 list list \<Rightarrow> u8 list" where
  "arg_strings argv = concat (map (\<lambda>a. a @ [0]) argv)"

text \<open>The address of each argument when \<open>n\<close> bytes lie above the strings.\<close>

fun arg_addrs :: "u8 list list \<Rightarrow> nat \<Rightarrow> u32 list" where
  "arg_addrs [] n = []"
| "arg_addrs (a # as) n = (PHYS_BASE - of_nat (length (arg_strings (a # as)) + n)) # arg_addrs as n"

lemma arg_strings_snoc: "arg_strings (as @ [a]) = arg_strings as @ a @ [0]"
  by (simp add: arg_strings_def)

lemma arg_addrs_snoc: "arg_addrs (as @ [a]) n = arg_addrs as (length a + 1 + n) @ [PHYS_BASE - of_nat (length a + 1 + n)]"
  by (induction as) (simp_all add: arg_strings_def algebra_simps)

lemma arg_addrs_length [simp]: "length (arg_addrs as n) = length as"
  by (induction as) simp_all

lemma args_fit: "n \<le> 4096 \<Longrightarrow> \<not> PHYS_BASE - (PHYS_BASE - of_nat n) > MAX_ARGS_SIZE"
  by (simp add: MAX_ARGS_SIZE_def word_less_nat_alt unat_of_nat)

lemma push_strings_holds:
  assumes "stack_holds pd k st xs" "length (arg_strings argv) + length xs \<le> 4096"
  shows "\<exists>st'. push_strings pd (rev argv) address st = Some (Inr (arg_addrs argv (length xs) @ address, st')) \<and>
    stack_holds pd k st' (arg_strings argv @ xs)"
  using assms
proof (induction argv arbitrary: st xs address rule: rev_induct)
  case Nil
  then show ?case by (simp add: arg_strings_def)
next
  case (snoc a as)
  let ?n = "length a + 1 + length xs"
  have le: "length (a @ [0]) + length xs \<le> 4096" "?n \<le> 4096" using snoc.prems(2) by (simp_all add: arg_strings_snoc)
  obtain st1 where st1: "push pd (a @ [0]) st = Some st1" "stack_holds pd k st1 ((a @ [0]) @ xs)"
    using push_holds [OF snoc.prems(1) le(1)] by blast
  have sp: "fst st - of_nat (length a + 1) = PHYS_BASE - of_nat ?n"
    using snoc.prems(1) by (simp add: stack_holds_def)
  have "\<not> PHYS_BASE - (PHYS_BASE - of_nat ?n) > MAX_ARGS_SIZE" by (rule args_fit [OF le(2)])
  then have step: "push_strings pd (rev (as @ [a])) address st =
      push_strings pd (rev as) ((PHYS_BASE - of_nat ?n) # address) st1"
    using st1(1) unfolding rev_append rev.simps append.simps push_strings.simps Let_def sp by simp
  obtain st' where "push_strings pd (rev as) ((PHYS_BASE - of_nat ?n) # address) st1 =
      Some (Inr (arg_addrs as (length ((a @ [0]) @ xs)) @ (PHYS_BASE - of_nat ?n) # address, st'))"
      "stack_holds pd k st' (arg_strings as @ (a @ [0]) @ xs)"
    using snoc.IH [OF st1(2), of "(PHYS_BASE - of_nat ?n) # address"] snoc.prems(2) by (auto simp: arg_strings_snoc)
  then show ?case unfolding step by (simp add: arg_strings_snoc arg_addrs_snoc)
qed

lemma push_words_holds:
  assumes "stack_holds pd k st xs" "4 * length ws + length xs \<le> 4096"
  shows "\<exists>st'. push_words pd (rev ws) st = Some st' \<and> stack_holds pd k st' (bytes_of ws @ xs)"
  using assms
proof (induction ws arbitrary: st xs rule: rev_induct)
  case Nil
  then show ?case by simp
next
  case (snoc w ws)
  obtain st1 where st1: "push pd (le32 w) st = Some st1" "stack_holds pd k st1 (le32 w @ xs)"
    using push_holds [OF snoc.prems(1), of "le32 w"] snoc.prems(2) by auto
  then show ?case using snoc.IH [OF st1(2)] snoc.prems(2) by (simp add: bytes_of_def)
qed

text \<open>The stack a program starts with: a return address, \<open>argc\<close>, \<open>argv\<close>, the elements of \<open>argv\<close>
  with a null pointer at the end, padding, and the strings.\<close>

definition arg_body :: "u8 list list \<Rightarrow> u8 list" where
  "arg_body argv = bytes_of (arg_addrs argv 0 @ [0]) @
     replicate ((4 - length (arg_strings argv) mod 4) mod 4) 0 @ arg_strings argv"

definition arg_stack :: "u8 list list \<Rightarrow> u8 list" where
  "arg_stack argv = le32 0 @ le32 (of_nat (length argv)) @ le32 (PHYS_BASE - of_nat (length (arg_body argv))) @ arg_body argv"

lemma unat_stack: "n \<le> 4096 \<Longrightarrow> unat (PHYS_BASE - of_nat n) = 0xc0000000 - n"
proof -
  assume n: "n \<le> 4096"
  then have "(of_nat n :: u32) \<le> PHYS_BASE" by (simp add: PHYS_BASE_def word_le_nat_alt unat_of_nat)
  then show ?thesis using n by (simp add: unat_sub PHYS_BASE_def unat_of_nat)
qed

lemma stack_pad: "n \<le> 4096 \<Longrightarrow> unat (PHYS_BASE - of_nat n) mod 4 = (4 - n mod 4) mod 4"
proof -
  assume n: "n \<le> 4096"
  have "n = 4 * (n div 4) + n mod 4" "n mod 4 < 4" by simp_all
  then have "0xc0000000 - n = 4 * (0x30000000 - n div 4 - 1) + (4 - n mod 4)" using n by linarith
  then have "(0xc0000000 - n) mod 4 = (4 - n mod 4) mod 4" by (metis mod_mult_self4)
  then show ?thesis using unat_stack [OF n] by simp
qed

lemma push_args_holds:
  assumes "stack_holds pd k (PHYS_BASE, s) []" "length (arg_stack argv) \<le> 4096"
  shows "\<exists>sp s'. push_args pd argv s = Some (True, sp, s') \<and> stack_holds pd k (sp, s') (arg_stack argv)"
proof -
  let ?pad = "replicate ((4 - length (arg_strings argv) mod 4) mod 4) (0 :: u8)"
  have l: "length (arg_body argv) + 12 \<le> 4096" using assms(2) by (simp add: arg_stack_def)
  have ls: "length (arg_strings argv) + length ?pad + 4 * (length argv + 1) = length (arg_body argv)" by (simp add: arg_body_def)
  obtain sp s1 where a: "push_strings pd (rev argv) [] (PHYS_BASE, s) = Some (Inr (arg_addrs argv 0, sp, s1))"
      "stack_holds pd k (sp, s1) (arg_strings argv)"
    using push_strings_holds [OF assms(1), of argv "[]"] l ls by auto
  have "length (arg_strings argv) \<le> 4096" using l ls by linarith
  then have pad: "unat sp mod 4 = (4 - length (arg_strings argv) mod 4) mod 4"
    using stack_pad a(2) by (simp add: stack_holds_def)
  obtain st1 where st1: "push pd (replicate (unat sp mod 4) 0) (sp, s1) = Some st1"
      "stack_holds pd k st1 (?pad @ arg_strings argv)"
    using push_holds [OF a(2), of ?pad] l ls pad by auto
  obtain st2 where st2: "push_words pd (rev (arg_addrs argv 0 @ [0])) st1 = Some st2" "stack_holds pd k st2 (arg_body argv)"
    using push_words_holds [OF st1(2), of "arg_addrs argv 0 @ [0]"] l ls by (auto simp: arg_body_def)
  have sp2: "fst st2 = PHYS_BASE - of_nat (length (arg_body argv))" using st2(2) by (simp add: stack_holds_def)
  obtain st3 where st3: "push pd (le32 (fst st2)) st2 = Some st3" "stack_holds pd k st3 (le32 (fst st2) @ arg_body argv)"
    using push_holds [OF st2(2), of "le32 (fst st2)"] l by auto
  obtain st4 where st4: "push pd (le32 (of_nat (length argv))) st3 = Some st4"
      "stack_holds pd k st4 (le32 (of_nat (length argv)) @ le32 (fst st2) @ arg_body argv)"
    using push_holds [OF st3(2), of "le32 (of_nat (length argv))"] l by auto
  obtain sp' s' where st5: "push pd (le32 0) st4 = Some (sp', s')" "stack_holds pd k (sp', s') (arg_stack argv)"
    using push_holds [OF st4(2), of "le32 0"] l unfolding arg_stack_def sp2 by auto
  show ?thesis
    using a(1) st1(1) st2(1) st3(1) st4(1) st5 by (simp add: push_args_def del: rev_append push_words.simps)
qed

definition user_pool_ok :: "vm \<Rightarrow> bool" where
  "user_pool_ok s \<longleftrightarrow> (\<forall>a\<in>pool_pages (user_pool (mem s)). is_kernel_vaddr a \<and> drop_bit 12 (a - PHYS_BASE) < init_ram_pages (mem s))"

lemma vm_get_user_page:
  assumes "vm_ok s" "user_pool_ok s"
  shows "\<exists>pg s'. vm_get_page (PAL_USER OR PAL_ZERO) s = Some (pg, s') \<and> vm_ok s' \<and> same_cpu s s' \<and>
    (if pg = 0 then no_group (PAL_USER OR PAL_ZERO) 1 (mem s)
     else pg \<notin> in_use (mem s) \<and> in_use (mem s') = insert pg (in_use (mem s)) \<and>
       ram (mem s') = (ram (mem s))(pg := replicate 1024 0) \<and> is_kernel_vaddr pg \<and> pg_ofs pg = 0 \<and>
       drop_bit 12 (pg - PHYS_BASE) < init_ram_pages (mem s) \<and> pg \<in> pool_pages (user_pool (mem s)) \<and>
       pool_pages (kernel_pool (mem s')) = pool_pages (kernel_pool (mem s)))"
proof -
  let ?f = "PAL_USER OR PAL_ZERO"
  have ok: "pages_ok (mem s)" using assms(1) by (simp add: vm_ok_def)
  have fl: "?f AND PAL_ASSERT = 0" "?f AND PAL_ZERO \<noteq> 0" "?f AND PAL_USER \<noteq> 0"
    by (simp_all add: PAL_ZERO_def PAL_ASSERT_def PAL_USER_def)
  obtain pg m where m: "palloc_get_multiple ?f 1 (mem s) = Some (pg, m)" "pages_ok m"
      "if pg = 0 then in_use m = in_use (mem s) \<and> ram m = ram (mem s) \<and> no_group ?f 1 (mem s)
       else fresh_group ?f 1 pg (mem s) m"
    using palloc_get_cases [OF ok, of 1 ?f] fl(1) by auto
  note k = palloc_get_keeps [OF ok m(1)]
  have g: "vm_get_page ?f s = Some (pg, s\<lparr>mem := m\<rparr>)" using m(1) by (simp add: vm_get_page_def palloc_get_page_def)
  have sc: "same_cpu s (s\<lparr>mem := m\<rparr>)" using k(2) by (simp add: same_cpu_def)
  show ?thesis
  proof (cases "pg = 0")
    case True
    then show ?thesis using g sc m(2,3) k(1) assms(1) by (simp add: vm_ok_def)
  next
    case False
    then have f: "pg \<in> pool_pages (user_pool (mem s))" "pg \<notin> in_use (mem s)" "in_use m = insert pg (in_use (mem s))"
        "\<forall>a. a \<noteq> pg \<longrightarrow> ram m a = ram (mem s) a" "ram m pg = replicate 1024 0"
      using m(3) fl by (simp_all add: fresh_group_def get_pool_def)
    have rm: "ram m = (ram (mem s))(pg := replicate 1024 0)" using f(4,5) by auto
    have "pg_ofs pg = 0" using f(1) ok page_addr_facts(2) by (auto simp: pool_pages_def pages_ok_def)
    then show ?thesis
      using False g sc m(2) k(1) f(1-3) rm assms by (auto simp: vm_ok_def user_pool_ok_def)
  qed
qed

lemma stack_top: "pg_ofs (PHYS_BASE - 4096) = 0" "is_user_vaddr (PHYS_BASE - 4096)"
    "i < 4096 \<Longrightarrow> pg_no (PHYS_BASE - 4096 + of_nat i) = pg_no (PHYS_BASE - 4096)"
proof -
  show o: "pg_ofs (PHYS_BASE - 4096) = 0" by (simp add: pg_ofs_def PHYS_BASE_def PGMASK_mask mask_eq_exp_minus_1)
  show "is_user_vaddr (PHYS_BASE - 4096)" by (simp add: is_user_vaddr_def PHYS_BASE_def)
  assume i: "i < 4096"
  then have "unat (0xbffff000 + of_nat i :: u32) = 0xbffff000 + i" by (simp add: unat_word_ariths unat_of_nat)
  then have "unat (pg_no (PHYS_BASE - 4096 + of_nat i)) = unat (pg_no (PHYS_BASE - 4096))"
    using i by (simp add: unat_pg_no PHYS_BASE_def)
  then show "pg_no (PHYS_BASE - 4096 + of_nat i) = pg_no (PHYS_BASE - 4096)" by (simp add: word_unat_eq_iff)
qed

text \<open>A fresh page does not disturb the directory.\<close>

lemma pd_fresh_page:
  assumes "pd_ok s pd" "pg \<notin> in_use (mem s)" "in_use (mem s') = insert pg (in_use (mem s))"
    "ram (mem s') = (ram (mem s))(pg := ws)"
  shows "pd_ok s' pd" "tables s' pd = tables s pd" "pg \<notin> tables s pd" "is_user_vaddr va \<Longrightarrow> pte_of s' pd va = pte_of s pd va"
proof -
  have t: "tables s pd \<subseteq> in_use (mem s)" using assms(1) by (simp add: pd_ok_def)
  then show "pg \<notin> tables s pd" using assms(2) by blast
  then have "\<forall>a\<in>tables s pd. ram (mem s') a = ram (mem s) a" using assms(4) by auto
  from pd_frame [OF assms(1) this] assms(3)
  show "pd_ok s' pd" "tables s' pd = tables s pd" "is_user_vaddr va \<Longrightarrow> pte_of s' pd va = pte_of s pd va" by auto
qed

lemma no_group_kernel:
  assumes "pages_ok (mem s)" "no_group PAL_ZERO 1 (mem s1)" "in_use (mem s1) = insert pg (in_use (mem s))"
    "pg \<in> pool_pages (user_pool (mem s))" "pool_pages (kernel_pool (mem s1)) = pool_pages (kernel_pool (mem s))"
  shows "no_group PAL_ZERO 1 (mem s)"
proof -
  have "PAL_ZERO AND PAL_USER = 0" by (simp add: PAL_ZERO_def PAL_USER_def)
  moreover have "pg \<notin> pool_pages (kernel_pool (mem s))" using assms(1,4) by (auto simp: pages_ok_def)
  ultimately show ?thesis using assms(2,3,5) by (auto simp: no_group_def get_pool_def)
qed

lemma pad_sum: "\<exists>q. m + (4 - m mod 4) mod 4 = 4 * (q :: nat)"
proof (cases "m mod 4 = 0")
  case False
  define q r where "q = m div 4" and "r = m mod 4"
  have m: "m = 4 * q + r" "r < 4" "0 < r" using False by (simp_all add: q_def r_def)
  then have "m + (4 - r) = 4 * (q + 1)" by auto
  moreover have "(4 - r) mod 4 = 4 - r" using m(3) by simp
  ultimately have "m + (4 - m mod 4) mod 4 = 4 * (q + 1)" by (simp only: r_def)
  then show ?thesis by blast
qed auto

lemma arg_stack_aligned: "length (arg_stack argv) mod 4 = 0"
proof -
  obtain q where "length (arg_strings argv) + (4 - length (arg_strings argv) mod 4) mod 4 = 4 * q" using pad_sum by blast
  then have "length (arg_stack argv) = 4 * (q + length argv + 4)" by (simp add: arg_stack_def arg_body_def)
  then show ?thesis by simp
qed

definition stack_image :: "u32 \<Rightarrow> u8 list list \<Rightarrow> u32 \<Rightarrow> vm \<Rightarrow> bool" where
  "stack_image pd argv sp s \<longleftrightarrow> sp = PHYS_BASE - of_nat (length (arg_stack argv)) \<and> unat sp mod 4 = 0 \<and>
     (\<forall>i < length (arg_stack argv). user_byte s pd (sp + of_nat i) = Some (arg_stack argv ! i))"

lemma stack_holds_image:
  assumes "stack_holds pd k (sp, s) (arg_stack argv)"
  shows "stack_image pd argv sp s"
proof -
  let ?n = "length (arg_stack argv)"
  have h: "stack_page pd k s" "?n \<le> 4096" "sp = PHYS_BASE - of_nat ?n" "drop (4096 - ?n) (stack_content k s) = arg_stack argv"
    using assms by (auto simp: stack_holds_def)
  have "?n mod 4 = 0" by (rule arg_stack_aligned)
  then have "unat sp mod 4 = 0" using stack_pad [OF h(2)] h(3) by simp
  moreover have "user_byte s pd (sp + of_nat i) = Some (arg_stack argv ! i)" if i: "i < ?n" for i
  proof -
    let ?j = "4096 - ?n + i"
    have j: "?j < 4096" using i h(2) by linarith
    have a: "sp + of_nat i = PHYS_BASE - 4096 + of_nat ?j" unfolding h(3) stack_addr [OF h(2)] by simp
    have "arg_stack argv ! i = drop (4096 - ?n) (stack_content k s) ! i" using h(4) by simp
    also have "\<dots> = stack_content k s ! ?j" by (rule nth_drop) (simp add: stack_content_def)
    also have "\<dots> = page_byte s k ?j" using j by (simp add: stack_content_def)
    finally show ?thesis
      using h(1) j load_page_byte [of s k ?j] kernel_nonzero [of k ?j] unfolding a user_byte_def by (simp add: stack_page_def del: of_nat_add)
  qed
  ultimately show ?thesis using h(3) by (simp add: stack_image_def)
qed



end
