(* ===== verification/Children.thy ===== *)
theory Children
  imports Prelude
begin

text \<open>
  \<open>userprog/process.c\<close> and \<open>exit\<close> of \<open>userprog/syscall.c\<close>: the list of children, and how a
  parent that waits and a child that exits meet.

  Both threads run with interrupts on, so the model is a step relation whose steps are the
  statements that read or write what they share: the members of \<open>struct child_process\<close> and the two
  semaphores.  A semaphore is its value; a thread that finds the value 0 cannot take the step.
  The heap has the set of blocks that are not freed, and touching a freed block is recorded.
\<close>

section \<open>The list of children\<close>

record child_process =
  pid :: int
  exited :: bool
  waited :: bool
  exit_status :: int
  sema_zombi :: nat

datatype parent_pc =
    P_run
  | P_test nat  \<comment> \<open>before \<open>if (child->exit)\<close>\<close>
  | P_up nat  \<comment> \<open>before \<open>sema_up (&child->sema_zombi)\<close>\<close>
  | P_down nat  \<comment> \<open>before \<open>sema_down (&cur->sema_wait)\<close>\<close>
  | P_read nat  \<comment> \<open>before \<open>result = child->exit_status\<close>\<close>

datatype child_pc =
    C_run
  | C_status  \<comment> \<open>in \<open>exit\<close>, before the status is stored\<close>
  | C_flag  \<comment> \<open>in \<open>process_exit\<close>, before \<open>child_proc->exit = true\<close>\<close>
  | C_test  \<comment> \<open>before \<open>if (cur->child_proc->wait)\<close>\<close>
  | C_up  \<comment> \<open>before \<open>sema_up (&parent->sema_wait)\<close>\<close>
  | C_zombi  \<comment> \<open>before \<open>sema_down (&cur->child_proc->sema_zombi)\<close>\<close>
  | C_gone

record family =
  child_list :: "nat list"
  procs :: "nat \<Rightarrow> child_process"
  live :: "nat set"
  sema_wait :: nat
  ppc :: parent_pc
  cpc :: "nat \<Rightarrow> child_pc"
  wait_tid :: int
  results :: "(int \<times> int) list"
  freed_access :: bool

definition INIT_EXIT_STATUS :: int where
  "INIT_EXIT_STATUS = -1"

definition upd_proc :: "nat \<Rightarrow> (child_process \<Rightarrow> child_process) \<Rightarrow> family \<Rightarrow> family" where
  "upd_proc c g f = f\<lparr>procs := (procs f)(c := g (procs f c)), freed_access := freed_access f \<or> c \<notin> live f\<rparr>"

text \<open>\<open>c\<close> is the block that \<open>malloc\<close> returns, 0 without memory.\<close>

definition add_child_proc :: "nat \<Rightarrow> int \<Rightarrow> family \<Rightarrow> nat \<times> family" where
  "add_child_proc c tid f =
     (if c = 0 then (0, f)
      else (c, f\<lparr>procs := (procs f)(c := \<lparr>pid = tid, exited = False, waited = False,
                 exit_status = INIT_EXIT_STATUS, sema_zombi = 0\<rparr>),
               live := insert c (live f), child_list := child_list f @ [c]\<rparr>))"

fun find_child :: "int \<Rightarrow> (nat \<Rightarrow> child_process) \<Rightarrow> nat list \<Rightarrow> nat" where
  "find_child tid ps [] = 0"
| "find_child tid ps (c # cs) = (if pid (ps c) = tid then c else find_child tid ps cs)"

definition get_child_proc :: "int \<Rightarrow> family \<Rightarrow> nat" where
  "get_child_proc tid f = find_child tid (procs f) (child_list f)"

definition remove_child_proc :: "nat \<Rightarrow> family \<Rightarrow> family" where
  "remove_child_proc c f = f\<lparr>child_list := remove1 c (child_list f), live := live f - {c}\<rparr>"

fun free_loop :: "nat list \<Rightarrow> family \<Rightarrow> family" where
  "free_loop [] f = f"
| "free_loop (c # cs) f = free_loop cs (remove_child_proc c f)"

definition free_child_proc :: "family \<Rightarrow> family" where
  "free_child_proc f = free_loop (child_list f) f"

section \<open>Waiting and exiting\<close>

definition return :: "int \<Rightarrow> family \<Rightarrow> family" where
  "return v f = f\<lparr>ppc := P_run, results := results f @ [(wait_tid f, v)]\<rparr>"

text \<open>The steps of \<open>process_wait (tid)\<close>.\<close>

definition process_wait :: "int \<Rightarrow> family \<Rightarrow> family option" where
  "process_wait tid f =
     (case ppc f of
        P_run \<Rightarrow>
          (let f = f\<lparr>wait_tid := tid\<rparr>;
               c = get_child_proc tid f
           in if c = 0 then Some (return (-1) f)
              else if waited (procs f c) then Some (return (-1) f)
              else Some ((upd_proc c (\<lambda>p. p\<lparr>waited := True\<rparr>) f)\<lparr>ppc := P_test c\<rparr>))
      | P_test c \<Rightarrow> Some (f\<lparr>ppc := if exited (procs f c) then P_up c else P_down c\<rparr>)
      | P_up c \<Rightarrow> Some ((upd_proc c (\<lambda>p. p\<lparr>sema_zombi := sema_zombi p + 1\<rparr>) f)\<lparr>ppc := P_read c\<rparr>)
      | P_down c \<Rightarrow> if sema_wait f = 0 then None else Some (f\<lparr>sema_wait := sema_wait f - 1, ppc := P_read c\<rparr>)
      | P_read c \<Rightarrow> Some (return (exit_status (procs f c)) (remove_child_proc c f)))"

text \<open>The steps of \<open>exit (status)\<close> and \<open>process_exit\<close> in the thread of child \<open>c\<close>, whose parent
  exists and whose program was loaded.\<close>

definition child_exit :: "int \<Rightarrow> nat \<Rightarrow> family \<Rightarrow> family option" where
  "child_exit status c f =
     (case cpc f c of
        C_run \<Rightarrow> Some (f\<lparr>cpc := (cpc f)(c := C_status)\<rparr>)
      | C_status \<Rightarrow> Some ((upd_proc c (\<lambda>p. p\<lparr>exit_status := status\<rparr>) f)\<lparr>cpc := (cpc f)(c := C_flag)\<rparr>)
      | C_flag \<Rightarrow> Some ((upd_proc c (\<lambda>p. p\<lparr>exited := True\<rparr>) f)\<lparr>cpc := (cpc f)(c := C_test)\<rparr>)
      | C_test \<Rightarrow> Some ((upd_proc c id f)\<lparr>cpc := (cpc f)(c := if waited (procs f c) then C_up else C_zombi)\<rparr>)
      | C_up \<Rightarrow> Some (f\<lparr>sema_wait := sema_wait f + 1, cpc := (cpc f)(c := C_gone)\<rparr>)
      | C_zombi \<Rightarrow> if sema_zombi (procs f c) = 0 then None
          else Some ((upd_proc c (\<lambda>p. p\<lparr>sema_zombi := sema_zombi p - 1\<rparr>) f)\<lparr>cpc := (cpc f)(c := C_gone)\<rparr>)
      | C_gone \<Rightarrow> None)"

inductive family_step :: "(nat \<Rightarrow> int) \<Rightarrow> nat set \<Rightarrow> family \<Rightarrow> family \<Rightarrow> bool" for status :: "nat \<Rightarrow> int" and cs :: "nat set" where
  parent: "process_wait tid f = Some f' \<Longrightarrow> family_step status cs f f'"
| child: "c \<in> cs \<Longrightarrow> child_exit (status c) c f = Some f' \<Longrightarrow> family_step status cs f f'"

inductive family_reach :: "(nat \<Rightarrow> int) \<Rightarrow> nat set \<Rightarrow> family \<Rightarrow> family \<Rightarrow> bool" for status :: "nat \<Rightarrow> int" and cs :: "nat set" and f0 :: family where
  start: "family_reach status cs f0 f0"
| step: "family_reach status cs f0 f \<Longrightarrow> family_step status cs f f' \<Longrightarrow> family_reach status cs f0 f'"

definition no_children :: family where
  "no_children = \<lparr>child_list = [], procs = (\<lambda>_. \<lparr>pid = 0, exited = False, waited = False, exit_status = 0, sema_zombi = 0\<rparr>),
     live = {}, sema_wait = 0, ppc = P_run, cpc = (\<lambda>_. C_run), wait_tid = 0, results = [], freed_access = False\<rparr>"

section \<open>One child\<close>

definition results_for :: "int \<Rightarrow> family \<Rightarrow> int list" where
  "results_for t f = map snd (filter (\<lambda>r. fst r = t) (results f))"

definition one_child :: "nat \<Rightarrow> int \<Rightarrow> family" where
  "one_child c t = snd (add_child_proc c t no_children)"

definition has_exited :: "child_pc \<Rightarrow> bool" where
  "has_exited pc \<longleftrightarrow> pc \<in> {C_test, C_up, C_zombi, C_gone}"

definition meeting_inv :: "nat \<Rightarrow> int \<Rightarrow> int \<Rightarrow> family \<Rightarrow> bool" where
  "meeting_inv c t st f \<longleftrightarrow> (let p = procs f c; pc = cpc f c in
     child_list f = [c] \<and> results_for t f = [] \<and> exited p = has_exited pc \<and>
     (has_exited pc \<or> pc = C_flag \<longrightarrow> exit_status p = st) \<and> (waited p \<longleftrightarrow> ppc f \<noteq> P_run) \<and>
     ppc f \<in> {P_run, P_test c, P_up c, P_down c, P_read c} \<and> (ppc f \<noteq> P_run \<longrightarrow> wait_tid f = t) \<and>
     (ppc f = P_up c \<or> ppc f = P_read c \<or> sema_wait f > 0 \<longrightarrow> has_exited pc) \<and>
     (ppc f = P_down c \<longrightarrow> pc \<noteq> C_zombi \<and> (pc = C_gone \<longrightarrow> sema_wait f > 0)))"

definition parted_inv :: "nat \<Rightarrow> int \<Rightarrow> int \<Rightarrow> family \<Rightarrow> bool" where
  "parted_inv c t st f \<longleftrightarrow> child_list f = [] \<and> ppc f = P_run \<and> (\<exists>n. results_for t f = st # replicate n (-1))"

definition family_inv :: "nat \<Rightarrow> int \<Rightarrow> int \<Rightarrow> family \<Rightarrow> bool" where
  "family_inv c t st f \<longleftrightarrow> c \<noteq> 0 \<and> pid (procs f c) = t \<and> (\<forall>r\<in>set (results f). fst r \<noteq> t \<longrightarrow> snd r = -1) \<and>
     (meeting_inv c t st f \<or> parted_inv c t st f)"

lemma family_inv_start: "c \<noteq> 0 \<Longrightarrow> family_inv c t st (one_child c t)"
  by (simp add: family_inv_def meeting_inv_def one_child_def add_child_proc_def no_children_def results_for_def has_exited_def)

lemma family_invI:
  assumes "family_inv c t st f" "meeting_inv c t st f'" "pid (procs f' c) = pid (procs f c)"
    "results f' = results f \<or> (\<exists>x. x \<noteq> t \<and> results f' = results f @ [(x, -1)])"
  shows "family_inv c t st f'"
  using assms by (auto simp: family_inv_def)

lemmas meeting_simps = meeting_inv_def Let_def upd_proc_def results_for_def

lemma meeting_parent:
  assumes "meeting_inv c t st f" "family_inv c t st f" "process_wait tid f = Some f'"
  shows "family_inv c t st f'"
proof -
  have c: "c \<noteq> 0" "pid (procs f c) = t" using assms(2) by (simp_all add: family_inv_def)
  have l: "child_list f = [c]" using assms(1) by (simp add: meeting_inv_def Let_def)
  have "ppc f \<in> {P_run, P_test c, P_up c, P_down c, P_read c}" using assms(1) unfolding meeting_inv_def Let_def by blast
  then consider (run) "ppc f = P_run" | (test) "ppc f = P_test c" | (up) "ppc f = P_up c" | (down) "ppc f = P_down c"
    | (read) "ppc f = P_read c" by blast
  then show ?thesis
  proof cases
    case run
    have w: "\<not> waited (procs f c)" using assms(1) run by (simp add: meeting_inv_def Let_def)
    show ?thesis
    proof (cases "tid = t")
      case True
      then have f': "f' = (upd_proc c (\<lambda>p. p\<lparr>waited := True\<rparr>) (f\<lparr>wait_tid := tid\<rparr>))\<lparr>ppc := P_test c\<rparr>"
        using assms(3) run c l w by (simp add: process_wait_def get_child_proc_def)
      show ?thesis
        by (rule family_invI [OF assms(2)]) (use assms(1) True run in \<open>simp_all add: f' meeting_simps\<close>)
    next
      case False
      then have f': "f' = return (-1) (f\<lparr>wait_tid := tid\<rparr>)"
        using assms(3) run c l by (simp add: process_wait_def get_child_proc_def)
      show ?thesis
        by (rule family_invI [OF assms(2)]) (use assms(1) False run in \<open>simp_all add: f' meeting_simps return_def\<close>)
    qed
  next
    case test
    then have f': "f' = f\<lparr>ppc := if exited (procs f c) then P_up c else P_down c\<rparr>" using assms(3) by (simp add: process_wait_def)
    show ?thesis
      by (rule family_invI [OF assms(2)])
        (use assms(1) test in \<open>cases "exited (procs f c)"; auto simp: f' meeting_simps has_exited_def\<close>)+
  next
    case up
    then have f': "f' = (upd_proc c (\<lambda>p. p\<lparr>sema_zombi := sema_zombi p + 1\<rparr>) f)\<lparr>ppc := P_read c\<rparr>"
      using assms(3) by (simp add: process_wait_def)
    show ?thesis by (rule family_invI [OF assms(2)]) (use assms(1) up in \<open>simp_all add: f' meeting_simps\<close>)
  next
    case down
    then have f': "f' = f\<lparr>sema_wait := sema_wait f - 1, ppc := P_read c\<rparr>" "0 < sema_wait f"
      using assms(3) by (simp_all add: process_wait_def split: if_splits)
    show ?thesis by (rule family_invI [OF assms(2)]) (use assms(1) down f'(2) in \<open>simp_all add: f'(1) meeting_simps\<close>)
  next
    case read
    then have f': "f' = return (exit_status (procs f c)) (remove_child_proc c f)" using assms(3) by (simp add: process_wait_def)
    have m: "wait_tid f = t" "exit_status (procs f c) = st" "results_for t f = []"
      using assms(1) read by (simp_all add: meeting_inv_def Let_def)
    then have "results_for t f' = st # replicate 0 (-1)"
      by (simp add: f' return_def remove_child_proc_def results_for_def)
    then have "parted_inv c t st f'" using l unfolding parted_inv_def
      by (intro conjI exI [of _ 0]) (simp_all add: f' return_def remove_child_proc_def)
    then show ?thesis using assms(2) m(1) by (auto simp: family_inv_def f' return_def remove_child_proc_def)
  qed
qed

lemma parted_parent:
  assumes "parted_inv c t st f" "family_inv c t st f" "process_wait tid f = Some f'"
  shows "family_inv c t st f'"
proof -
  have f': "f' = return (-1) (f\<lparr>wait_tid := tid\<rparr>)"
    using assms(1,3) by (simp add: parted_inv_def process_wait_def get_child_proc_def Let_def)
  obtain n where n: "results_for t f = st # replicate n (-1)" using assms(1) by (auto simp: parted_inv_def)
  have "results_for t f' = st # replicate (if tid = t then Suc n else n) (-1)"
    using n replicate_append_same [of n "-1 :: int"] by (simp add: f' return_def results_for_def)
  then have "parted_inv c t st f'" using assms(1) by (auto simp: parted_inv_def f' return_def)
  then show ?thesis using assms(2) by (simp add: family_inv_def f' return_def)
qed

lemma family_inv_parent:
  assumes "family_inv c t st f" "process_wait tid f = Some f'"
  shows "family_inv c t st f'"
  using assms meeting_parent [OF _ assms] parted_parent [OF _ assms] by (auto simp: family_inv_def)

lemma family_inv_child:
  assumes "family_inv c t st f" "child_exit st c f = Some f'"
  shows "family_inv c t st f'"
proof (cases "meeting_inv c t st f")
  case True
  have same: "pid (procs f' c) = pid (procs f c)" "results f' = results f"
    using assms(2) by (cases "cpc f c"; auto simp: child_exit_def upd_proc_def split: if_splits)+
  have "meeting_inv c t st f'"
  proof (cases "cpc f c")
    case C_test
    then have "f' = (upd_proc c id f)\<lparr>cpc := (cpc f)(c := if waited (procs f c) then C_up else C_zombi)\<rparr>"
      using assms(2) by (simp add: child_exit_def)
    then show ?thesis using True C_test by (cases "waited (procs f c)") (auto simp: meeting_simps has_exited_def)
  next
    case C_zombi
    then have "f' = (upd_proc c (\<lambda>p. p\<lparr>sema_zombi := sema_zombi p - 1\<rparr>) f)\<lparr>cpc := (cpc f)(c := C_gone)\<rparr>"
      using assms(2) by (simp add: child_exit_def split: if_splits)
    then show ?thesis using True C_zombi by (auto simp: meeting_simps has_exited_def)
  next
    case C_run
    then have "f' = f\<lparr>cpc := (cpc f)(c := C_status)\<rparr>"
      using assms(2) by (simp add: child_exit_def)
    then show ?thesis using True C_run by (auto simp: meeting_simps has_exited_def)
  next
    case C_status
    then have "f' = (upd_proc c (\<lambda>p. p\<lparr>exit_status := st\<rparr>) f)\<lparr>cpc := (cpc f)(c := C_flag)\<rparr>"
      using assms(2) by (simp add: child_exit_def)
    then show ?thesis using True C_status by (auto simp: meeting_simps has_exited_def)
  next
    case C_flag
    then have "f' = (upd_proc c (\<lambda>p. p\<lparr>exited := True\<rparr>) f)\<lparr>cpc := (cpc f)(c := C_test)\<rparr>"
      using assms(2) by (simp add: child_exit_def)
    then show ?thesis using True C_flag by (auto simp: meeting_simps has_exited_def)
  next
    case C_up
    then have "f' = f\<lparr>sema_wait := sema_wait f + 1, cpc := (cpc f)(c := C_gone)\<rparr>"
      using assms(2) by (simp add: child_exit_def)
    then show ?thesis using True C_up by (auto simp: meeting_simps has_exited_def)
  qed (use assms(2) in \<open>simp add: child_exit_def\<close>)
  then show ?thesis by (rule family_invI [OF assms(1)]) (use same in simp_all)
next
  case False
  then have p: "parted_inv c t st f" using assms(1) by (simp add: family_inv_def)
  have "child_list f' = child_list f" "ppc f' = ppc f" "results f' = results f" "pid (procs f' c) = pid (procs f c)"
    using assms(2) by (cases "cpc f c"; auto simp: child_exit_def upd_proc_def split: if_splits)+
  with p assms(1) show ?thesis by (simp add: family_inv_def parted_inv_def results_for_def)
qed

lemma family_reach_inv:
  assumes "family_reach status {c} f0 f" "family_inv c t (status c) f0"
  shows "family_inv c t (status c) f"
  using assms(1)
proof (induction rule: family_reach.induct)
  case start
  show ?case by (rule assms(2))
next
  case (step f f')
  from step.hyps(2) show ?case
  proof (cases rule: family_step.cases)
    case (parent tid)
    then show ?thesis by (rule family_inv_parent [OF step.IH])
  next
    case (child c')
    then show ?thesis using family_inv_child [OF step.IH] by simp
  qed
qed

lemma blocked_wait:
  assumes "process_wait tid f = None" "family_inv c t st f"
  shows "ppc f = P_down c \<and> sema_wait f = 0 \<and> meeting_inv c t st f"
proof -
  obtain c' where c': "ppc f = P_down c'" "sema_wait f = 0"
    using assms(1) by (cases "ppc f") (auto simp: process_wait_def Let_def split: if_splits)
  then have "\<not> parted_inv c t st f" by (simp add: parted_inv_def)
  then have m: "meeting_inv c t st f" using assms(2) by (simp add: family_inv_def)
  then have "ppc f \<in> {P_run, P_test c, P_up c, P_down c, P_read c}" unfolding meeting_inv_def Let_def by blast
  with c' m show ?thesis by simp
qed

section \<open>Schedules\<close>

text \<open>A schedule is a list of the threads that take the next step: the parent, with the process it
  waits for, or a child.\<close>

fun run_schedule :: "(nat \<Rightarrow> int) \<Rightarrow> (int + nat) list \<Rightarrow> family \<Rightarrow> family option" where
  "run_schedule status [] f = Some f"
| "run_schedule status (Inl tid # sched) f =
     (case process_wait tid f of None \<Rightarrow> None | Some f' \<Rightarrow> run_schedule status sched f')"
| "run_schedule status (Inr c # sched) f =
     (case child_exit (status c) c f of None \<Rightarrow> None | Some f' \<Rightarrow> run_schedule status sched f')"

lemma run_schedule_reach:
  assumes "run_schedule status sched f = Some f'" "family_reach status cs f0 f" "\<forall>c. Inr c \<in> set sched \<longrightarrow> c \<in> cs"
  shows "family_reach status cs f0 f'"
  using assms
proof (induction sched arbitrary: f)
  case (Cons x sched)
  show ?case
  proof (cases x)
    case (Inl tid)
    then obtain g where "process_wait tid f = Some g" "run_schedule status sched g = Some f'"
      using Cons.prems(1) by (auto split: option.splits)
    then show ?thesis
      using Cons.IH [of g] Cons.prems(2,3) family_reach.step [OF Cons.prems(2) family_step.parent] by simp
  next
    case (Inr c)
    then obtain g where "child_exit (status c) c f = Some g" "run_schedule status sched g = Some f'"
      using Cons.prems(1) by (auto split: option.splits)
    moreover have "c \<in> cs" using Cons.prems(3) Inr by simp
    ultimately show ?thesis
      using Cons.IH [of g] Cons.prems(3) family_reach.step [OF Cons.prems(2) family_step.child] by simp
  qed
qed simp

lemmas schedule_simps = process_wait_def child_exit_def get_child_proc_def upd_proc_def return_def remove_child_proc_def
  one_child_def add_child_proc_def no_children_def INIT_EXIT_STATUS_def Let_def

text \<open>C40: however the steps of a parent and its only child interleave, the first \<open>process_wait\<close> for
  the child returns the status the child passed to \<open>exit\<close>, every later one and every wait for
  another process returns -1, and the parent is never left waiting by a child that has exited.\<close>

theorem wait_returns_status:
  assumes "c \<noteq> 0" "family_reach status {c} (one_child c t) f"
  shows "(results_for t f = [] \<or> (\<exists>n. results_for t f = status c # replicate n (-1))) \<and>
    (\<forall>r\<in>set (results f). fst r \<noteq> t \<longrightarrow> snd r = -1) \<and>
    (process_wait tid f = None \<longrightarrow> child_exit (status c) c f \<noteq> None)"
proof -
  have inv: "family_inv c t (status c) f"
    by (rule family_reach_inv [OF assms(2) family_inv_start [OF assms(1)]])
  moreover have "child_exit (status c) c f \<noteq> None" if "process_wait tid f = None"
  proof -
    have "ppc f = P_down c" "sema_wait f = 0" "meeting_inv c t (status c) f"
      using that inv blocked_wait by blast+
    then have "cpc f c \<noteq> C_zombi" "cpc f c \<noteq> C_gone" unfolding meeting_inv_def Let_def by auto
    then show ?thesis by (cases "cpc f c") (simp_all add: child_exit_def)
  qed
  moreover have "results_for t f = [] \<or> (\<exists>n. results_for t f = status c # replicate n (-1))"
    using inv unfolding family_inv_def meeting_inv_def parted_inv_def Let_def by blast
  ultimately show ?thesis unfolding family_inv_def by blast
qed

theorem wait_returns_status_witness:
  "\<exists>f. family_reach (\<lambda>_. 5) {1} (one_child 1 11) f \<and> results_for 11 f = [5, -1] \<and>
    (results_for 11 f = [] \<or> (\<exists>n. results_for 11 f = 5 # replicate n (-1)))"
proof -
  let ?sched = "[Inr 1, Inl 11, Inr 1, Inl 11, Inr 1, Inr 1, Inr 1, Inl 11, Inl 11, Inl 11] :: (int + nat) list"
  obtain f where f: "run_schedule (\<lambda>_. 5) ?sched (one_child 1 11) = Some f" "results_for 11 f = [5, -1]"
    by (simp add: schedule_simps results_for_def)
  have "family_reach (\<lambda>_. 5) {1} (one_child 1 11) f"
    by (rule run_schedule_reach [OF f(1) family_reach.start]) auto
  from wait_returns_status [OF _ this] this f(2) show ?thesis by (intro exI [of _ f]) simp
qed

section \<open>Two children\<close>

text \<open>With two children the meeting can go wrong.  When the first child has set its flag but not yet
  tested whether it is waited for, the parent that has just announced its wait sees the flag and goes
  on without taking the unit that the child then adds to \<open>sema_wait\<close>.  The next wait, for the second
  child, takes this unit: it returns -1 while that child is still running and frees the block that
  the child writes to later.\<close>

lemma wait_race:
  fixes status :: "nat \<Rightarrow> int"
  assumes "status = (\<lambda>c. if c = 1 then 5 else 6)" "f0 = snd (add_child_proc 2 12 (one_child 1 11))"
  shows "\<exists>f f'. family_reach status {1, 2} f0 f \<and> results f = [(11, 5), (12, -1)] \<and> cpc f 2 = C_run \<and>
    family_reach status {1, 2} f0 f' \<and> freed_access f'"
proof -
  let ?s = "[Inr 1, Inr 1, Inl 11, Inr 1, Inl 11, Inl 11, Inr 1, Inr 1, Inl 11, Inl 12, Inl 12, Inl 12, Inl 12] :: (int + nat) list"
  obtain f where f: "run_schedule status ?s f0 = Some f" "results f = [(11, 5), (12, -1)]" "cpc f 2 = C_run"
    unfolding assms by (simp add: schedule_simps)
  have r: "family_reach status {1, 2} f0 f"
    by (rule run_schedule_reach [OF f(1) family_reach.start]) auto
  obtain f' where f': "run_schedule status (?s @ [Inr 2, Inr 2]) f0 = Some f'" "freed_access f'"
    unfolding assms by (simp add: schedule_simps)
  have "family_reach status {1, 2} f0 f'"
    by (rule run_schedule_reach [OF f'(1) family_reach.start]) auto
  with r f f' show ?thesis by blast
qed

end
