(* ===== verification/Spec2Isabelle.thy ===== *)
theory Spec2Isabelle
  imports Bitmap KernelProps FilePersist Stdlib Hash Loader Children
begin

text \<open>
  A verification library for the Pintos kernel of this repository, a teaching kernel for the
  80x86 with priority scheduling and donation, user processes and a file system with growing files.

  \<^bold>\<open>Conventions.\<close>  A kernel panic, a failed \<open>ASSERT\<close>, a page fault in the kernel and undefined
  behaviour are \<open>None\<close> in the option monad.  A \<open>size_t\<close> is a natural number with the wrap-around
  written out (\<open>wrap32\<close>) or a 32-bit word, a signed C type an integer wrapped by \<open>i32\<close> or its
  64-bit version.  Memory that \<open>malloc\<close> gives or refuses, uninitialised variables and the code that
  the sources do not contain (\<open>filesys/filesys.c\<close>, \<open>filesys/directory.c\<close>) are arguments.

  \<^bold>\<open>Kernel library.\<close>
  \<^item> \<open>Bitmap\<close>, \<open>lib/kernel/bitmap.c\<close>: operations on 32-bit elements, refined to lists of booleans.
    The locale \<open>bit_allocator\<close> is what the free map and the page allocator rely on.
  \<^item> \<open>KList\<close>, \<open>lib/kernel/list.c\<close>: doubly linked lists as pointers in a memory, refined to sequences;
    the merge sort is shown to end, to be stable and to sort.  The locale \<open>list_order\<close> holds the facts
    about ordered insertion; \<open>Sched\<close> interprets it for the three orders of the kernel.
  \<^item> \<open>Hash\<close>, \<open>lib/kernel/hash.c\<close>: a table implements a map (locale \<open>keyed_set\<close>), through all changes
    of the number of buckets.
  \<^item> \<open>CString\<close> and \<open>Stdlib\<close>, \<open>lib/string.c\<close> and \<open>lib/stdlib.c\<close>: blocks of memory, strings, heap sort,
    binary search and \<open>atoi\<close>, over the layouts of \<open>Bytes\<close>.

  \<^bold>\<open>Threads.\<close>  \<open>Sched\<close> models \<open>threads/thread.c\<close>, the interrupt flag and the context switch; \<open>Synch\<close>
  models \<open>threads/synch.c\<close> with priority donation; \<open>Timer\<close> models \<open>devices/timer.c\<close>.  The state is one
  record, \<open>kernel\<close>.  A call that may switch threads leaves the rest of its caller as a frame on the
  kernel stack of its thread, so that \<open>KernelSteps\<close> can state the kernel as a transition system:
  a call, the continuation of a frame, or a timer interrupt.  \<open>KernelSteps\<close> and \<open>Mutex\<close> prove the
  invariants of reachable states and \<open>KernelProps\<close> the properties.

  \<^bold>\<open>File system.\<close>  \<open>Inode\<close> models \<open>filesys/inode.c\<close>, \<open>free-map.c\<close> and \<open>file.c\<close> on a disk of sectors
  of bytes.  \<open>FileLayout\<close> reads the three levels of an inode as one list of sectors and one list of
  bytes; \<open>FileGrow\<close>, \<open>FileExtend\<close> and \<open>FileWrite\<close> follow the growth of a file; \<open>FileOps\<close> and
  \<open>FileRelease\<close> treat whole operations; \<open>FileProps\<close> and \<open>FilePersist\<close> hold the properties.  The locale
  \<open>byte_store\<close> is an inode as a list of bytes.

  \<^bold>\<open>Memory.\<close>  \<open>Palloc\<close> models \<open>threads/vaddr.h\<close> and \<open>threads/palloc.c\<close>, with the set of pages in use as
  its abstraction; \<open>Pagedir\<close> models \<open>threads/pte.h\<close> and \<open>userprog/pagedir.c\<close>, a directory being a map
  from user pages to kernel pages that no operation on another directory disturbs.

  \<^bold>\<open>Processes.\<close>  \<open>Syscall\<close> models \<open>userprog/syscall.c\<close>: the checks of user pointers, the table of
  descriptors and the handler, on top of the file system and the page directories.  \<open>Loader\<close> models the
  segments and the initial stack of \<open>userprog/process.c\<close>.  \<open>Children\<close> models the list of children and
  the meeting of \<open>process_wait\<close> and \<open>process_exit\<close> as interleaved steps of two threads.

  \<^bold>\<open>Loops and bounds.\<close>  Loops are recursive functions with a termination proof.  Loops that follow the
  links of a list are partial functions, and the lemmas of \<open>KList\<close> show that they return on a well-formed
  list.  Allocating a sector writes the free map to its file, which is a write to an inode again; the
  number in \<open>bitmap_write n\<close> bounds this nesting.  One level is enough, since the file of the map is
  created at its full size and never grows: the properties hold for \<open>bitmap_write (Suc n)\<close> with every
  \<open>n\<close>.  The hypotheses \<open>has_room\<close> and \<open>env\<close> of the file properties say that the disk has enough free
  sectors and that the file of the map is in place.

  \<^bold>\<open>Not modelled.\<close>  The memory allocator \<open>threads/malloc.c\<close>; creation and exit of threads
  (\<open>thread_create\<close>, \<open>init_thread\<close>, \<open>thread_exit\<close>); \<open>process_execute\<close>, \<open>start_process\<close>,
  \<open>parse_cmd_args\<close> and the reading of the ELF headers in \<open>load\<close>; block devices and partitions; the
  directory layer, which the sources do not contain.  Drivers, the start of the kernel, interrupt stubs and
  descriptor tables are hardware set-up and port input and output.  Formatted output is console output.
  The user library, the example programs and the host tools do not run in the kernel.  The locks of the
  page pools and of inodes are not interleaved: an operation on a pool or a file is one step.
\<close>

end
